theory Spec2Isabelle
  imports Complex_Main "HOL-Library.Word"
begin

section \<open>animation.c: scheduled events and morphs\<close>

text \<open>
  The C variables of type \<^verbatim>\<open>double\<close> are modelled as real numbers. A \<^verbatim>\<open>double *\<close>
  handed to the morph engine is a reference to one such variable: the deployment of a
  directory (identified by the \<^verbatim>\<open>id\<close> of its node descriptor), a field of the camera
  (the three target coordinates share their storage across the cameras of the three
  modes), or any other variable of the program.
\<close>

datatype camera_field =
  Cam_theta | Cam_phi | Cam_distance | Cam_fov | Cam_near_clip | Cam_far_clip | Cam_pan_part
| Cam_target_0 | Cam_target_1 | Cam_target_2

datatype dvar = Deployment nat | CameraVar camera_field | GlobalVar nat

datatype MorphType =
  MORPH_LINEAR | MORPH_QUADRATIC | MORPH_INV_QUADRATIC | MORPH_SIGMOID | MORPH_SIGMOID_ACCEL

text \<open>
  \<^verbatim>\<open>struct _Morph\<close>: the fields of one stage, and the \<^verbatim>\<open>next\<close> pointer that chains
  further stages. Callbacks are function pointers into the rest of the program; the
  model names them by a number (\<open>None\<close> is the \<^verbatim>\<open>NULL\<close> pointer) and records each
  invocation in a log.
\<close>

record morph_stage =
  m_type :: MorphType
  m_var :: dvar
  start_value :: real
  end_value :: real
  t_start :: real
  t_end :: real
  step_cb :: "nat option"
  end_cb :: "nat option"
  m_data :: nat

datatype Morph = Morph (m_stage: morph_stage) (m_next: "Morph option")

text \<open>
  A callback of a scheduled event is a name together with the calls to
  \<^verbatim>\<open>schedule_event\<close> that its body makes, in order (callback, data, nframes). The frame
  counts are C \<^verbatim>\<open>int\<close>s: 32-bit words, read as signed numbers by \<open>sint\<close>.
\<close>

datatype event_cb = EventCb (cb_name: nat) (cb_schedules: "(event_cb \<times> nat \<times> 32 word) list")

text \<open>
  \<^verbatim>\<open>struct _ScheduledEvent\<close>. \<open>ev_ptr\<close> is the address of the record as returned by
  \<^verbatim>\<open>NEW\<close>; \<^verbatim>\<open>G_LIST_REMOVE\<close> finds the record by it. \<open>nframes\<close> is a C \<^verbatim>\<open>int\<close>: its
  decrement wraps around from the least value \<open>- 2 ^ 31\<close> to the greatest \<open>2 ^ 31 - 1\<close>.
\<close>

record ScheduledEvent =
  ev_ptr :: nat
  nframes :: "32 word"
  event_cb :: event_cb
  ev_data :: nat

datatype call =
  StepCall nat morph_stage
| EndCall nat morph_stage
| EventCall nat nat nat
| Filelist_reset_access
| Gui_update
| Camera_look_at_full nat MorphType real

text \<open>
  The static variables of animation.c, \<^verbatim>\<open>globals.need_redraw\<close>, the variables the morphs
  point to, the allocator, the clock read by \<^verbatim>\<open>xgettime\<close> (the \<open>n\<close>-th reading is
  \<open>clock n\<close>) and the log of calls that leave the modelled part of the program:
  callback invocations (\<open>EventCall p c d\<close> is the call
  \<^verbatim>\<open>(schevent->event_cb)( schevent->data )\<close> for the record at address \<open>p\<close>) and
  calls into the file list, the GUI and the camera.
\<close>

record anim_state =
  schevent_queue :: "ScheduledEvent list"
  morph_queue :: "Morph list"
  animation_active :: bool
  need_redraw :: bool
  idle_handlers :: nat
  next_ptr :: nat
  dvars :: "dvar \<Rightarrow> real"
  clock :: "nat \<Rightarrow> real"
  clock_reads :: nat
  calls :: "call list"

definition xgettime :: "'a anim_state_scheme \<Rightarrow> real \<times> 'a anim_state_scheme" where
  "xgettime s = (clock s (clock_reads s), s\<lparr>clock_reads := Suc (clock_reads s)\<rparr>)"

definition redraw :: "'a anim_state_scheme \<Rightarrow> 'a anim_state_scheme" where
  "redraw s =
     (let s1 = (if \<not> animation_active s then s\<lparr>idle_handlers := Suc (idle_handlers s)\<rparr> else s)
      in s1\<lparr>animation_active := True, need_redraw := True\<rparr>)"

subsection \<open>Scheduled events\<close>

definition schedule_event ::
  "event_cb \<Rightarrow> nat \<Rightarrow> 32 word \<Rightarrow> 'a anim_state_scheme \<Rightarrow> 'a anim_state_scheme" where
  "schedule_event cb d n s =
     (let new_schevent = \<lparr>ev_ptr = next_ptr s, nframes = n, event_cb = cb, ev_data = d\<rparr>;
          s1 = s\<lparr>next_ptr := Suc (next_ptr s)\<rparr>;
          s2 = (if \<not> animation_active s1 then redraw s1 else s1)
      in s2\<lparr>schevent_queue := new_schevent # schevent_queue s2\<rparr>)"

text \<open>Invoking a callback: the call is logged, then the body schedules its events.\<close>

definition run_event_cb :: "ScheduledEvent \<Rightarrow> 'a anim_state_scheme \<Rightarrow> 'a anim_state_scheme" where
  "run_event_cb e s =
     fold (\<lambda>(cb, d, n). schedule_event cb d n) (cb_schedules (event_cb e))
       (s\<lparr>calls := calls s @ [EventCall (ev_ptr e) (cb_name (event_cb e)) (ev_data e)]\<rparr>)"

text \<open>\<^verbatim>\<open>--schevent->nframes\<close>: the record at address \<open>p\<close> is updated in place.\<close>

fun decrement_at :: "nat \<Rightarrow> ScheduledEvent list \<Rightarrow> ScheduledEvent list" where
  "decrement_at p [] = []"
| "decrement_at p (e # es) =
     (if ev_ptr e = p then e\<lparr>nframes := nframes e - 1\<rparr> # es else e # decrement_at p es)"

text \<open>\<^verbatim>\<open>g_list_remove\<close>: the first link whose data is the pointer \<open>p\<close> goes.\<close>

fun g_list_remove :: "ScheduledEvent list \<Rightarrow> nat \<Rightarrow> ScheduledEvent list" where
  "g_list_remove [] p = []"
| "g_list_remove (e # es) p = (if ev_ptr e = p then es else e # g_list_remove es p)"

text \<open>
  The links of the queue. A \<^verbatim>\<open>GList *\<close> is the link that carries a record, named here by
  the address of that record (\<open>None\<close> is \<^verbatim>\<open>NULL\<close>): \<open>link_of\<close> is the pointer to the first
  link of a list, \<open>link_data\<close> reads \<^verbatim>\<open>seq_llink->data\<close> and \<open>link_next\<close> reads
  \<^verbatim>\<open>seq_llink->next\<close>, both in the queue as it is at that moment.
\<close>

fun link_of :: "ScheduledEvent list \<Rightarrow> nat option" where
  "link_of [] = None"
| "link_of (e # es) = Some (ev_ptr e)"

definition link_data :: "ScheduledEvent list \<Rightarrow> nat \<Rightarrow> ScheduledEvent option" where
  "link_data q p = find (\<lambda>e. ev_ptr e = p) q"

definition link_next :: "ScheduledEvent list \<Rightarrow> nat \<Rightarrow> nat option" where
  "link_next q p = link_of (tl (dropWhile (\<lambda>e. ev_ptr e \<noteq> p) q))"

text \<open>
  The loop of \<^verbatim>\<open>scheduled_event_iteration\<close>, from the link \<^verbatim>\<open>seq_llink\<close> on. After the
  callback of a due event has run, the next link is read from the queue as the callback
  left it, and then the record is removed. The loop has no result (\<open>None\<close>) when it does
  not end, or when \<^verbatim>\<open>seq_llink\<close> is not a link of the queue.
\<close>

partial_function (option) seq_loop ::
  "nat option \<Rightarrow> 'a anim_state_scheme \<times> bool \<Rightarrow> ('a anim_state_scheme \<times> bool) option" where
  "seq_loop seq_llink sx =
     (case seq_llink of
        None \<Rightarrow> Some sx
      | Some p \<Rightarrow>
          (case link_data (schevent_queue (fst sx)) p of
             None \<Rightarrow> None
           | Some schevent \<Rightarrow>
               (let s1 = (fst sx)\<lparr>schevent_queue := decrement_at p (schevent_queue (fst sx))\<rparr>;
                    ev = schevent\<lparr>nframes := nframes schevent - 1\<rparr>
                in if sint (nframes ev) \<le> 0 then
                     (let s2 = run_event_cb ev s1;
                          next = link_next (schevent_queue s2) p;
                          s3 = s2\<lparr>schevent_queue := g_list_remove (schevent_queue s2) p\<rparr>
                      in seq_loop next (s3, True))
                   else seq_loop (link_next (schevent_queue s1) p) (s1, snd sx))))"

definition scheduled_event_iteration ::
  "'a anim_state_scheme \<Rightarrow> (bool \<times> 'a anim_state_scheme) option" where
  "scheduled_event_iteration s =
     (case seq_loop (link_of (schevent_queue s)) (s, False) of
        None \<Rightarrow> None
      | Some (s', event_executed) \<Rightarrow> Some (event_executed \<or> schevent_queue s' \<noteq> [], s'))"

text \<open>One scheduler tick of the event queue, and \<open>k\<close> ticks in a row.\<close>

definition tick :: "'a anim_state_scheme \<Rightarrow> 'a anim_state_scheme option" where
  "tick s = map_option snd (scheduled_event_iteration s)"

fun ticks :: "nat \<Rightarrow> 'a anim_state_scheme \<Rightarrow> 'a anim_state_scheme option" where
  "ticks 0 s = Some s"
| "ticks (Suc k) s = (case tick s of None \<Rightarrow> None | Some s' \<Rightarrow> ticks k s')"

subsection \<open>Morphs\<close>

text \<open>
  \<^verbatim>\<open>g_list_find_custom( morph_queue, m, compare_var )\<close>: the position of the first record
  of the queue that is on the given variable.
\<close>

fun g_list_find_custom :: "Morph list \<Rightarrow> dvar \<Rightarrow> nat option" where
  "g_list_find_custom [] v = None"
| "g_list_find_custom (m # ms) v =
     (if m_var (m_stage m) = v then Some 0 else map_option Suc (g_list_find_custom ms v))"

fun last_morph_stage :: "Morph \<Rightarrow> morph_stage" where
  "last_morph_stage (Morph st None) = st"
| "last_morph_stage (Morph st (Some m)) = last_morph_stage m"

text \<open>\<^verbatim>\<open>mlast->next = new_morph\<close>, written through the chain that starts at the queue link.\<close>

fun set_last_next :: "Morph \<Rightarrow> Morph \<Rightarrow> Morph" where
  "set_last_next (Morph st None) new_morph = Morph st (Some new_morph)"
| "set_last_next (Morph st (Some m)) new_morph = Morph st (Some (set_last_next m new_morph))"

definition morph_full ::
  "dvar \<Rightarrow> MorphType \<Rightarrow> real \<Rightarrow> real \<Rightarrow> nat option \<Rightarrow> nat option \<Rightarrow> nat \<Rightarrow>
     'a anim_state_scheme \<Rightarrow> 'a anim_state_scheme" where
  "morph_full var type target_value duration stepcb endcb data s0 =
     (let (t_now, s) = xgettime s0;
          new_morph = \<lparr>m_type = type, m_var = var, start_value = dvars s var,
                       end_value = target_value, t_start = t_now, t_end = t_now + duration,
                       step_cb = stepcb, end_cb = endcb, m_data = data\<rparr>
      in case g_list_find_custom (morph_queue s) var of
           None \<Rightarrow>
             (let s1 = (if \<not> animation_active s then redraw s else s)
              in s1\<lparr>morph_queue := Morph new_morph None # morph_queue s1\<rparr>)
         | Some i \<Rightarrow>
             (let morph = morph_queue s ! i;
                  mlast = last_morph_stage morph;
                  new_morph' = new_morph\<lparr>t_start := t_end mlast,
                                         t_end := t_end mlast + duration,
                                         start_value := end_value mlast\<rparr>
              in s\<lparr>morph_queue := (morph_queue s)[i := set_last_next morph (Morph new_morph' None)]\<rparr>))"

definition morph ::
  "dvar \<Rightarrow> MorphType \<Rightarrow> real \<Rightarrow> real \<Rightarrow> 'a anim_state_scheme \<Rightarrow> 'a anim_state_scheme" where
  "morph var type target_value duration s = morph_full var type target_value duration None None 0 s"

definition morph_finish :: "dvar \<Rightarrow> 'a anim_state_scheme \<Rightarrow> 'a anim_state_scheme" where
  "morph_finish var s =
     (case g_list_find_custom (morph_queue s) var of
        None \<Rightarrow> s
      | Some i \<Rightarrow>
          (case morph_queue s ! i of
             Morph st nx \<Rightarrow> s\<lparr>morph_queue := (morph_queue s)[i := Morph (st\<lparr>t_end := 0\<rparr>) nx]\<rparr>))"

text \<open>
  \<^verbatim>\<open>morph_break\<close> unlinks the record it found; freeing the record and its later stages
  leaves nothing behind in the state.
\<close>

definition morph_break :: "dvar \<Rightarrow> 'a anim_state_scheme \<Rightarrow> 'a anim_state_scheme" where
  "morph_break var s =
     (case g_list_find_custom (morph_queue s) var of
        None \<Rightarrow> s
      | Some i \<Rightarrow> s\<lparr>morph_queue := take i (morph_queue s) @ drop (Suc i) (morph_queue s)\<rparr>)"

definition INTERPOLATE :: "real \<Rightarrow> real \<Rightarrow> real \<Rightarrow> real" where
  "INTERPOLATE k a b = a + k * (b - a)"

definition SQR :: "real \<Rightarrow> real" where
  "SQR x = x * x"

fun remap :: "MorphType \<Rightarrow> real \<Rightarrow> real" where
  "remap MORPH_LINEAR percent = percent"
| "remap MORPH_QUADRATIC percent = SQR percent"
| "remap MORPH_INV_QUADRATIC percent = 1 - SQR (1 - percent)"
| "remap MORPH_SIGMOID percent = 0.5 * (1 - cos (pi * percent))"
| "remap MORPH_SIGMOID_ACCEL percent = 0.5 * (1 - cos (pi * SQR percent))"

text \<open>
  One pass of the loop body of \<^verbatim>\<open>morph_iteration\<close> over one queue link, repeated while
  the loop stays on that link (a finished stage with a successor is replaced by the
  successor and the loop \<^verbatim>\<open>continue\<close>s without advancing). The result is what the link
  holds afterwards: \<open>None\<close> when the record was removed from the queue.
\<close>

fun morph_link ::
  "real \<Rightarrow> Morph \<Rightarrow> 'a anim_state_scheme \<Rightarrow> Morph option \<times> 'a anim_state_scheme" where
  "morph_link t_now (Morph st nx) s =
     (if t_now \<ge> t_end st then
        (let s1 = s\<lparr>dvars := (dvars s)(m_var st := end_value st)\<rparr>;
             s2 = (case end_cb st of
                     None \<Rightarrow> s1
                   | Some cb \<Rightarrow> s1\<lparr>calls := calls s1 @ [EndCall cb st]\<rparr>)
         in case nx of
              Some m' \<Rightarrow> morph_link t_now m' s2
            | None \<Rightarrow> (None, s2))
      else
        (let percent = remap (m_type st) ((t_now - t_start st) / (t_end st - t_start st));
             s1 = s\<lparr>dvars := (dvars s)(m_var st := INTERPOLATE percent (start_value st) (end_value st))\<rparr>;
             s2 = (case step_cb st of
                     None \<Rightarrow> s1
                   | Some cb \<Rightarrow> s1\<lparr>calls := calls s1 @ [StepCall cb st]\<rparr>)
         in (Some (Morph st nx), s2)))"

text \<open>
  The loop over the queue. The links are visited in order; each keeps its place, gets
  its next stage, or is removed.
\<close>

fun morph_loop ::
  "real \<Rightarrow> Morph list \<Rightarrow> 'a anim_state_scheme \<Rightarrow> Morph list \<times> 'a anim_state_scheme" where
  "morph_loop t_now [] s = ([], s)"
| "morph_loop t_now (m # ms) s =
     (let (r, s1) = morph_link t_now m s;
          (rs, s2) = morph_loop t_now ms s1
      in (case r of None \<Rightarrow> rs | Some m' \<Rightarrow> m' # rs, s2))"

definition morph_iteration :: "'a anim_state_scheme \<Rightarrow> bool \<times> 'a anim_state_scheme" where
  "morph_iteration s0 =
     (let (t_now, s) = xgettime s0;
          (q, s1) = morph_loop t_now (morph_queue s) s
      in (morph_queue s \<noteq> [], s1\<lparr>morph_queue := q\<rparr>))"

text \<open>The stages of a chain, first to last.\<close>

fun stages :: "Morph \<Rightarrow> morph_stage list" where
  "stages (Morph st None) = [st]"
| "stages (Morph st (Some m)) = st # stages m"

text \<open>
  Well-formed morph queue: every stage of a chain is on the variable of its first stage
  (\<^verbatim>\<open>morph_full\<close> chains a stage only to a record on the same variable), and no two
  records of the queue are on the same variable.
\<close>

definition chain_ok :: "Morph \<Rightarrow> bool" where
  "chain_ok m = list_all (\<lambda>st. m_var st = m_var (m_stage m)) (stages m)"

definition queue_ok :: "Morph list \<Rightarrow> bool" where
  "queue_ok q = (list_all chain_ok q \<and> distinct (map (\<lambda>m. m_var (m_stage m)) q))"

section \<open>common.h: the filesystem tree\<close>

datatype FsvMode = FSV_DISCV | FSV_MAPV | FSV_TREEV | FSV_SPLASH | FSV_NONE

datatype NodeType =
  NODE_METANODE | NODE_DIRECTORY | NODE_REGFILE | NODE_SYMLINK | NODE_FIFO | NODE_SOCKET
| NODE_CHARDEV | NODE_BLOCKDEV | NODE_UNKNOWN

text \<open>
  The part of \<^verbatim>\<open>struct _NodeDesc\<close> and \<^verbatim>\<open>struct _DirNodeDesc\<close> that the scanner sets
  and the layout code only reads (\<open>ntype\<close>, \<open>nid\<close>, \<open>nname\<close>, \<open>nsize\<close> for \<^verbatim>\<open>type\<close>,
  \<^verbatim>\<open>id\<close>, \<^verbatim>\<open>name\<close>, \<^verbatim>\<open>size\<close>). \<open>subtree_size\<close> is \<^verbatim>\<open>subtree.size\<close> of a directory.
  The sizes are \<^verbatim>\<open>int64\<close>; they are only compared with and converted to doubles here.
\<close>

record NodeDesc =
  ntype :: NodeType
  nid :: nat
  nname :: string
  nsize :: int
  subtree_size :: int

text \<open>A \<^verbatim>\<open>GNode\<close> with its children, first to last (the \<^verbatim>\<open>next\<close> chain).\<close>

datatype GNode = GNode (node_desc: NodeDesc) (children: "GNode list")

text \<open>
  A \<^verbatim>\<open>GNode *\<close> on which the code follows \<^verbatim>\<open>parent\<close> pointers: the node together with
  the way up, one entry per ancestor (its descriptor, the siblings to the left and to
  the right of the child the way came through).
\<close>

datatype crumb = Crumb (up_desc: NodeDesc) (left_sibs: "GNode list") (right_sibs: "GNode list")

type_synonym gptr = "GNode \<times> crumb list"

fun parent :: "gptr \<Rightarrow> gptr option" where
  "parent (node, []) = None"
| "parent (node, Crumb d l r # up) = Some (GNode d (l @ node # r), up)"

definition NODE_IS_DIR :: "GNode \<Rightarrow> bool" where
  "NODE_IS_DIR node = (ntype (node_desc node) = NODE_DIRECTORY)"

definition NODE_IS_METANODE :: "GNode \<Rightarrow> bool" where
  "NODE_IS_METANODE node = (ntype (node_desc node) = NODE_METANODE)"

definition node_id :: "GNode \<Rightarrow> nat" where
  "node_id node = nid (node_desc node)"



text \<open>The ids of a node and all nodes below it, and of the nodes above a pointer.\<close>

fun ids :: "GNode \<Rightarrow> nat list" where
  "ids (GNode d cs) = nid d # concat (map ids cs)"

definition ancestor_ids :: "gptr \<Rightarrow> nat list" where
  "ancestor_ids p = map (\<lambda>c. nid (up_desc c)) (snd p)"

text \<open>The ids of the directories among the nodes of a tree.\<close>

fun dir_ids :: "GNode \<Rightarrow> nat list" where
  "dir_ids (GNode d cs) =
     (if ntype d = NODE_DIRECTORY then [nid d] else []) @ concat (map dir_ids cs)"

section \<open>geometry.h, camera.h: geometry parameters and the state of the program\<close>

record XYvec =
  vx :: real
  vy :: real

record XYZvec = XYvec +
  vz :: real

record DiscVGeomParams =
  radius :: real
  disc_theta :: real
  disc_pos :: XYvec

record MapVGeomParams =
  c0 :: XYvec
  c1 :: XYvec
  height :: real

record TreeVLeaf =
  leaf_distance :: real
  leaf_theta :: real
  leaf_height :: real

record TreeVPlatform =
  platform_theta :: real
  platform_depth :: real
  arc_width :: real
  platform_height :: real
  subtree_arc_width :: real

record TreeVGeomParams =
  leaf :: TreeVLeaf
  platform :: TreeVPlatform

record RTZvec =
  rtz_r :: real
  rtz_theta :: real
  rtz_z :: real

text \<open>
  The OpenGL calls and the drawing routines that only issue OpenGL calls, as entries of
  a log. A display list is named by its number; 0 is \<^verbatim>\<open>NULL_DLIST\<close>.
\<close>

datatype gl_call =
  GlPushMatrix | GlPopMatrix
| GlTranslated real real real
| GlScaled real real real
| GlEnable_NORMALIZE | GlDisable_NORMALIZE
| GlNewList nat | GlEndList | GlCallList nat
| GlColor3f real real real
| GlNormal3d real real real
| Outline_pre | Outline_post | Text_pre | Text_post
| Mapv_gldraw_folder nat | Mapv_build_dir nat | Mapv_apply_label nat
| Mapv_draw_cursor real

text \<open>
  The ways the modelled code can stop the program: the \<^verbatim>\<open>default\<close> branch of a
  \<^verbatim>\<open>switch\<close> (\<^verbatim>\<open>SWITCH_FAIL\<close>), following the \<^verbatim>\<open>parent\<close> pointer of a node that has
  none, and a failed \<^verbatim>\<open>g_assert\<close>.
\<close>

datatype fsv_error = Switch_fail | Null_parent | Assert_fail

text \<open>color.h: the coloring modes.\<close>

datatype ColorMode = COLOR_BY_NODETYPE | COLOR_BY_TIMESTAMP | COLOR_BY_WPATTERN | COLOR_NONE

text \<open>
  The state of the program next to the animation state: \<^verbatim>\<open>globals\<close>, the directory
  tree widget (which entries are expanded), the fields of the node descriptors that the
  layout and drawing code writes (by node id; the deployment of directory \<open>i\<close> is the
  variable \<open>Deployment i\<close>), the static variables of geometry.c, colexp.c and camera.c
  that the modelled functions use, and the OpenGL log. The filesystem tree is the
  metanode \<open>fstree_desc\<close> with its only child \<open>root_dnode\<close>, as the scanner builds it.
  The geometry parameters of the three modes share storage in the C program (an array
  reinterpreted per mode); here each mode has its own block.
  Of color.c the state has the coloring mode, the \<^verbatim>\<open>color\<close> field of the node descriptors
  (\<open>node_color\<close>, a color being named by a number), and the color configuration as far
  as the assignment of colors reads it: the color of a node type, the color of a file
  by its timestamps (or the failure of the \<^verbatim>\<open>switch\<close> over the timestamp type), and the
  color of a file by the wildcard patterns its name matches.
\<close>

record fsv_state = anim_state +
  fsv_mode :: FsvMode
  fstree_desc :: NodeDesc
  root_dnode :: GNode
  current_node :: nat
  ctree_expanded :: "nat \<Rightarrow> bool"
  a_dlist :: "nat \<Rightarrow> nat"
  b_dlist :: "nat \<Rightarrow> nat"
  c_dlist :: "nat \<Rightarrow> nat"
  geom_expanded :: "nat \<Rightarrow> bool"
  a_dlist_stale :: "nat \<Rightarrow> bool"
  b_dlist_stale :: "nat \<Rightarrow> bool"
  c_dlist_stale :: "nat \<Rightarrow> bool"
  treev_need_rearrange :: "nat \<Rightarrow> bool"
  discv_params :: "nat \<Rightarrow> DiscVGeomParams"
  mapv_params :: "nat \<Rightarrow> MapVGeomParams"
  treev_params :: "nat \<Rightarrow> TreeVGeomParams"
  fstree_low_dlist :: nat
  fstree_high_dlist :: nat
  fstree_low_draw_stage :: int
  fstree_high_draw_stage :: int
  gl_lists :: nat
  gl :: "gl_call list"
  treev_core_radius :: real
  mapv_cursor_prev_c0 :: XYZvec
  mapv_cursor_prev_c1 :: XYZvec
  treev_cursor_prev_c0 :: RTZvec
  treev_cursor_prev_c1 :: RTZvec
  colexp_time :: real
  colexp_depth :: int
  colexp_max_depth :: int
  scrollbars_colexp_adjust :: bool
  camera_manual_control :: bool
  camera_currently_moving :: bool
  color_mode :: ColorMode
  node_type_color :: "NodeType \<Rightarrow> nat"
  time_color_file :: "nat \<Rightarrow> fsv_error + nat"
  wpattern_color_file :: "string \<Rightarrow> nat"
  node_color :: "nat \<Rightarrow> nat"

definition fstree :: "fsv_state \<Rightarrow> GNode" where
  "fstree s = GNode (fstree_desc s) [root_dnode s]"


definition deployment :: "fsv_state \<Rightarrow> GNode \<Rightarrow> real" where
  "deployment s dnode = dvars s (Deployment (node_id dnode))"

definition set_deployment :: "GNode \<Rightarrow> real \<Rightarrow> fsv_state \<Rightarrow> fsv_state" where
  "set_deployment dnode v s = s\<lparr>dvars := (dvars s)(Deployment (node_id dnode) := v)\<rparr>"



text \<open>\<^verbatim>\<open>dirtree_entry_expanded\<close> reads the expanded flag of the directory's tree entry.\<close>

definition dirtree_entry_expanded :: "fsv_state \<Rightarrow> GNode \<Rightarrow> bool" where
  "dirtree_entry_expanded s dnode = ctree_expanded s (node_id dnode)"

definition gl_emit :: "gl_call list \<Rightarrow> fsv_state \<Rightarrow> fsv_state" where
  "gl_emit cs s = s\<lparr>gl := gl s @ cs\<rparr>"

text \<open>\<^verbatim>\<open>glGenLists( 1 )\<close> returns the number of an unused display list.\<close>

definition glGenLists :: "fsv_state \<Rightarrow> nat \<times> fsv_state" where
  "glGenLists s = (Suc (gl_lists s), s\<lparr>gl_lists := Suc (gl_lists s)\<rparr>)"

section \<open>geometry.c: the display list cache and the MapV draw\<close>

definition queue_uncached_draw :: "fsv_state \<Rightarrow> fsv_state" where
  "queue_uncached_draw s = s\<lparr>fstree_low_draw_stage := 0, fstree_high_draw_stage := 0\<rparr>"

definition geometry_queue_rebuild :: "GNode \<Rightarrow> fsv_state \<Rightarrow> fsv_state" where
  "geometry_queue_rebuild dnode s =
     queue_uncached_draw
       (s\<lparr>a_dlist_stale := (a_dlist_stale s)(node_id dnode := True),
          b_dlist_stale := (b_dlist_stale s)(node_id dnode := True),
          c_dlist_stale := (c_dlist_stale s)(node_id dnode := True)\<rparr>)"


text \<open>The two display list blocks of \<^verbatim>\<open>mapv_draw_recursive\<close>.\<close>

definition mapv_draw_dlist_a :: "GNode \<Rightarrow> bool \<Rightarrow> fsv_state \<Rightarrow> fsv_state" where
  "mapv_draw_dlist_a dnode dir_collapsed s =
     (if a_dlist_stale s (node_id dnode) then
        (let s1 = (if a_dlist s (node_id dnode) = 0 then
                     (let (l, s') = glGenLists s
                      in s'\<lparr>a_dlist := (a_dlist s')(node_id dnode := l)\<rparr>)
                   else s);
             s2 = gl_emit [GlNewList (a_dlist s1 (node_id dnode))] s1;
             s3 = (if dir_collapsed then gl_emit [Mapv_gldraw_folder (node_id dnode)] s2
                   else gl_emit [Mapv_build_dir (node_id dnode)] s2);
             s4 = gl_emit [GlEndList] s3
         in s4\<lparr>a_dlist_stale := (a_dlist_stale s4)(node_id dnode := False)\<rparr>)
      else gl_emit [GlCallList (a_dlist s (node_id dnode))] s)"

definition mapv_draw_dlist_b :: "GNode \<Rightarrow> bool \<Rightarrow> fsv_state \<Rightarrow> fsv_state" where
  "mapv_draw_dlist_b dnode dir_collapsed s =
     (if b_dlist_stale s (node_id dnode) then
        (let s1 = (if b_dlist s (node_id dnode) = 0 then
                     (let (l, s') = glGenLists s
                      in s'\<lparr>b_dlist := (b_dlist s')(node_id dnode := l)\<rparr>)
                   else s);
             s2 = gl_emit [GlNewList (b_dlist s1 (node_id dnode))] s1;
             s3 = (if dir_collapsed then gl_emit [Mapv_apply_label (node_id dnode)] s2
                   else gl_emit (map (\<lambda>node. Mapv_apply_label (node_id node))
                                  (filter (\<lambda>node. \<not> NODE_IS_DIR node) (children dnode))) s2);
             s4 = gl_emit [GlEndList] s3
         in s4\<lparr>b_dlist_stale := (b_dlist_stale s4)(node_id dnode := False)\<rparr>)
      else gl_emit [GlCallList (b_dlist s (node_id dnode))] s)"





section \<open>geometry.c: the MapV layout\<close>

definition MAPV_BORDER_PROPORTION :: real where
  "MAPV_BORDER_PROPORTION = 0.01"

definition MAPV_ROOT_ASPECT_RATIO :: real where
  "MAPV_ROOT_ASPECT_RATIO = 1.2"

definition mapv_dir_height :: real where
  "mapv_dir_height = 384"

definition mapv_leaf_height :: real where
  "mapv_leaf_height = 128"

fun mapv_side_slant_ratios :: "NodeType \<Rightarrow> real" where
  "mapv_side_slant_ratios NODE_METANODE = 0"
| "mapv_side_slant_ratios NODE_DIRECTORY = 0.032"
| "mapv_side_slant_ratios NODE_REGFILE = 0.064"
| "mapv_side_slant_ratios NODE_SYMLINK = 0.333"
| "mapv_side_slant_ratios NODE_FIFO = 0"
| "mapv_side_slant_ratios NODE_SOCKET = 0"
| "mapv_side_slant_ratios NODE_CHARDEV = 0.25"
| "mapv_side_slant_ratios NODE_BLOCKDEV = 0.25"
| "mapv_side_slant_ratios NODE_UNKNOWN = 0"

definition MAPV_NODE_WIDTH :: "MapVGeomParams \<Rightarrow> real" where
  "MAPV_NODE_WIDTH gparams = vx (c1 gparams) - vx (c0 gparams)"

definition MAPV_NODE_DEPTH :: "MapVGeomParams \<Rightarrow> real" where
  "MAPV_NODE_DEPTH gparams = vy (c1 gparams) - vy (c0 gparams)"

definition MAPV_NODE_CENTER_X :: "MapVGeomParams \<Rightarrow> real" where
  "MAPV_NODE_CENTER_X gparams = 0.5 * (vx (c0 gparams) + vx (c1 gparams))"

definition MAPV_NODE_CENTER_Y :: "MapVGeomParams \<Rightarrow> real" where
  "MAPV_NODE_CENTER_Y gparams = 0.5 * (vy (c0 gparams) + vy (c1 gparams))"

text \<open>
  The size that stands for a node in the layout:
  \<^verbatim>\<open>size = MAX(256, NODE_DESC(node)->size); if (NODE_IS_DIR(node)) size += ...subtree.size\<close>.
\<close>

definition mapv_node_size :: "GNode \<Rightarrow> int" where
  "mapv_node_size node =
     max 256 (nsize (node_desc node)) +
     (if NODE_IS_DIR node then subtree_size (node_desc node) else 0)"

record MapVBlock =
  block_node :: GNode
  block_area :: real

text \<open>
  A row: its blocks in order (in the C code the row points to its first block and ends
  where the next row begins) and its area.
\<close>

record MapVRow =
  row_blocks :: "MapVBlock list"
  row_area :: real

text \<open>
  The top face of the directory (the slanted sides taken off), the nominal border and
  the dimensions after half a border is trimmed off the perimeter.
\<close>

definition mapv_top_face :: "MapVGeomParams \<Rightarrow> XYvec" where
  "mapv_top_face gparams =
     (let k = mapv_side_slant_ratios NODE_DIRECTORY
      in \<lparr>vx = MAPV_NODE_WIDTH gparams - 2 * min (height gparams) (k * MAPV_NODE_WIDTH gparams),
          vy = MAPV_NODE_DEPTH gparams - 2 * min (height gparams) (k * MAPV_NODE_DEPTH gparams)\<rparr>)"

definition mapv_nominal_border :: "MapVGeomParams \<Rightarrow> real" where
  "mapv_nominal_border gparams =
     (let dir_dims = mapv_top_face gparams;
          a = MAPV_BORDER_PROPORTION * sqrt (vx dir_dims * vy dir_dims);
          b = min (vx dir_dims) (vy dir_dims) / 3
      in min a b)"

definition mapv_dir_dims :: "MapVGeomParams \<Rightarrow> XYvec" where
  "mapv_dir_dims gparams =
     \<lparr>vx = vx (mapv_top_face gparams) - mapv_nominal_border gparams,
      vy = vy (mapv_top_face gparams) - mapv_nominal_border gparams\<rparr>"

text \<open>First pass: one block per child, its area the square of \<open>sqrt size + nominal_border\<close>.\<close>

definition mapv_first_pass :: "real \<Rightarrow> GNode list \<Rightarrow> MapVBlock list" where
  "mapv_first_pass nominal_border nodes =
     map (\<lambda>node. \<lparr>block_node = node,
                   block_area = SQR (sqrt (real_of_int (mapv_node_size node)) + nominal_border)\<rparr>)
       nodes"

definition mapv_scale_factor :: "MapVGeomParams \<Rightarrow> GNode list \<Rightarrow> real" where
  "mapv_scale_factor gparams nodes =
     (let dir_dims = mapv_dir_dims gparams;
          dir_area = vx dir_dims * vy dir_dims;
          total_block_area =
            sum_list (map block_area (mapv_first_pass (mapv_nominal_border gparams) nodes))
      in dir_area / total_block_area)"

text \<open>
  Second pass: the blocks are scaled and put into rows. \<open>row\<close> is the row being filled
  (\<open>None\<close> for \<^verbatim>\<open>row == NULL\<close>); the rows before it are in \<open>row_list\<close>, and it joins them
  when it is closed or when the blocks run out (the C code appends it to the list when
  it begins it; the list is the same).
\<close>

fun mapv_second_pass ::
  "real \<Rightarrow> real \<Rightarrow> MapVBlock list \<Rightarrow> MapVRow list \<Rightarrow> MapVRow option \<Rightarrow> MapVRow list" where
  "mapv_second_pass scale_factor dir_dims_x [] row_list row =
     row_list @ (case row of None \<Rightarrow> [] | Some r \<Rightarrow> [r])"
| "mapv_second_pass scale_factor dir_dims_x (b # bs) row_list row =
     (let block = b\<lparr>block_area := block_area b * scale_factor\<rparr>;
          r0 = (case row of None \<Rightarrow> \<lparr>row_blocks = [], row_area = 0\<rparr> | Some r \<Rightarrow> r);
          r1 = r0\<lparr>row_blocks := row_blocks r0 @ [block], row_area := row_area r0 + block_area block\<rparr>;
          block_dims_y = row_area r1 / dir_dims_x;
          block_dims_x = block_area block / block_dims_y
      in if block_dims_x / block_dims_y < 1
         then mapv_second_pass scale_factor dir_dims_x bs (row_list @ [r1]) None
         else mapv_second_pass scale_factor dir_dims_x bs row_list (Some r1))"

text \<open>
  Fourth pass: the corners of every node, row by row from the right/rear corner. The
  border of a block is the solution of the quadratic that leaves the node the area
  \<open>scale_factor * size\<close> inside the block.
\<close>

fun mapv_output_row ::
  "real \<Rightarrow> real \<Rightarrow> real \<Rightarrow> real \<Rightarrow> MapVBlock list \<Rightarrow> (GNode \<times> XYvec \<times> XYvec) list" where
  "mapv_output_row scale_factor block_dims_y pos_x pos_y [] = []"
| "mapv_output_row scale_factor block_dims_y pos_x pos_y (block # bs) =
     (let block_dims_x = block_area block / block_dims_y;
          area = scale_factor * real_of_int (mapv_node_size (block_node block));
          k = block_dims_x + block_dims_y;
          border = 0.25 * (k - sqrt (SQR k - 4 * (block_area block - area)))
      in (block_node block,
          \<lparr>vx = pos_x - block_dims_x + border, vy = pos_y - block_dims_y + border\<rparr>,
          \<lparr>vx = pos_x - border, vy = pos_y - border\<rparr>)
         # mapv_output_row scale_factor block_dims_y (pos_x - block_dims_x) pos_y bs)"

fun mapv_fourth_pass ::
  "real \<Rightarrow> real \<Rightarrow> real \<Rightarrow> real \<Rightarrow> MapVRow list \<Rightarrow> (GNode \<times> XYvec \<times> XYvec) list" where
  "mapv_fourth_pass scale_factor dir_dims_x start_pos_x pos_y [] = []"
| "mapv_fourth_pass scale_factor dir_dims_x start_pos_x pos_y (row # rows) =
     (let block_dims_y = row_area row / dir_dims_x
      in mapv_output_row scale_factor block_dims_y start_pos_x pos_y (row_blocks row)
         @ mapv_fourth_pass scale_factor dir_dims_x start_pos_x (pos_y - block_dims_y) rows)"

text \<open>
  The corners that \<^verbatim>\<open>mapv_init_recursive\<close> assigns to the children of a directory with
  the given geometry, in the order in which it assigns them.
\<close>

definition mapv_layout :: "MapVGeomParams \<Rightarrow> GNode list \<Rightarrow> (GNode \<times> XYvec \<times> XYvec) list" where
  "mapv_layout gparams nodes =
     (let dir_dims = mapv_dir_dims gparams;
          nominal_border = mapv_nominal_border gparams;
          scale_factor = mapv_scale_factor gparams nodes;
          row_list = mapv_second_pass scale_factor (vx dir_dims)
                       (mapv_first_pass nominal_border nodes) [] None;
          start_pos_x = MAPV_NODE_CENTER_X gparams + 0.5 * vx dir_dims;
          start_pos_y = MAPV_NODE_CENTER_Y gparams + 0.5 * vy dir_dims
      in mapv_fourth_pass scale_factor (vx dir_dims) start_pos_x start_pos_y row_list)"

text \<open>The nodes of the layout are the children, in order (used for termination below).\<close>

lemma mapv_second_pass_nodes:
  "concat (map (\<lambda>r. map block_node (row_blocks r)) (mapv_second_pass sf w bs row_list row)) =
   concat (map (\<lambda>r. map block_node (row_blocks r)) row_list) @
   (case row of None \<Rightarrow> [] | Some r \<Rightarrow> map block_node (row_blocks r)) @ map block_node bs"
  by (induction bs arbitrary: row_list row) (auto simp: Let_def split: option.splits)

lemma mapv_output_row_nodes:
  "map fst (mapv_output_row sf dy px py bs) = map block_node bs"
  by (induction bs arbitrary: px) (auto simp: Let_def)

lemma mapv_fourth_pass_nodes:
  "map fst (mapv_fourth_pass sf w sx py rows) =
   concat (map (\<lambda>r. map block_node (row_blocks r)) rows)"
  by (induction rows arbitrary: py) (auto simp: Let_def mapv_output_row_nodes)

lemma mapv_layout_nodes: "map fst (mapv_layout gparams nodes) = nodes"
  by (simp add: mapv_layout_def Let_def mapv_fourth_pass_nodes mapv_second_pass_nodes
      mapv_first_pass_def comp_def)

function mapv_init_recursive :: "GNode \<Rightarrow> fsv_state \<Rightarrow> fsv_state" where
  "mapv_init_recursive dnode s0 =
     (let s1 = morph_break (Deployment (node_id dnode)) s0;
          s2 = (if dirtree_entry_expanded s1 dnode then set_deployment dnode 1 s1
                else set_deployment dnode 0 s1);
          s3 = geometry_queue_rebuild dnode s2
      in if children dnode = [] then s3
         else fold (\<lambda>(node, p0, p1) s.
                 (let gparams = mapv_params s (node_id node);
                      s' = s\<lparr>mapv_params := (mapv_params s)(node_id node := gparams\<lparr>c0 := p0, c1 := p1\<rparr>)\<rparr>;
                      gparams' = mapv_params s' (node_id node)
                  in if NODE_IS_DIR node
                     then mapv_init_recursive node
                            (s'\<lparr>mapv_params := (mapv_params s')(node_id node := gparams'\<lparr>height := mapv_dir_height\<rparr>)\<rparr>)
                     else s'\<lparr>mapv_params := (mapv_params s')(node_id node := gparams'\<lparr>height := mapv_leaf_height\<rparr>)\<rparr>))
                (mapv_layout (mapv_params s3 (node_id dnode)) (children dnode)) s3)"
  by pat_completeness auto
termination
proof (relation "measure (\<lambda>(dnode, s). size dnode)")
  show "wf (measure (\<lambda>(dnode, s). size dnode))" by simp
next
  fix dnode :: GNode and s0 s1 s2 s3 :: fsv_state and xa :: "GNode \<times> XYvec \<times> XYvec"
    and node :: GNode and ya :: "XYvec \<times> XYvec" and p0 p1 :: XYvec and s s' :: fsv_state
    and gparams gparams' :: MapVGeomParams
  assume "xa \<in> set (mapv_layout (mapv_params s3 (node_id dnode)) (children dnode))"
     and "(node, ya) = xa"
  then have "node \<in> fst ` set (mapv_layout (mapv_params s3 (node_id dnode)) (children dnode))"
    by force
  then have "node \<in> set (children dnode)"
    using mapv_layout_nodes[of "mapv_params s3 (node_id dnode)" "children dnode"]
    by (metis set_map)
  then have "size node < size dnode"
    by (cases dnode) (auto simp: less_Suc_eq_le size_list_estimation')
  then show "((node, s'\<lparr>mapv_params := (mapv_params s')(node_id node := gparams'\<lparr>height := mapv_dir_height\<rparr>)\<rparr>), (dnode, s0))
               \<in> measure (\<lambda>(dnode, s). size dnode)"
    by simp
qed

declare mapv_init_recursive.simps [simp del]

text \<open>
  \<^verbatim>\<open>mapv_init\<close>. The dimensions of the root directory come from the subtree size of the
  metanode.
\<close>

definition mapv_init :: "fsv_state \<Rightarrow> fsv_state" where
  "mapv_init s0 =
     (let root_dims_y = sqrt (real_of_int (subtree_size (fstree_desc s0)) / MAPV_ROOT_ASPECT_RATIO);
          root_dims_x = MAPV_ROOT_ASPECT_RATIO * root_dims_y;
          fs = nid (fstree_desc s0);
          rt = node_id (root_dnode s0);
          s1 = s0\<lparr>mapv_params := (mapv_params s0)(fs := (mapv_params s0 fs)\<lparr>height := 0\<rparr>)\<rparr>;
          s2 = s1\<lparr>mapv_params := (mapv_params s1)
                  (rt := \<lparr>c0 = \<lparr>vx = - 0.5 * root_dims_x, vy = - 0.5 * root_dims_y\<rparr>,
                          c1 = \<lparr>vx = 0.5 * root_dims_x, vy = 0.5 * root_dims_y\<rparr>,
                          height = mapv_dir_height\<rparr>)\<rparr>;
          s3 = mapv_init_recursive (root_dnode s2) s2;
          k = (if current_node s3 = node_id (root_dnode s3) then 4 else 1.25);
          gp = mapv_params s3 (node_id (root_dnode s3))
      in s3\<lparr>mapv_cursor_prev_c0 :=
               \<lparr>vx = k * vx (c0 gp), vy = k * vy (c0 gp), vz = - 0.25 * k * MAPV_NODE_DEPTH gp\<rparr>,
             mapv_cursor_prev_c1 :=
               \<lparr>vx = k * vx (c1 gp), vy = k * vy (c1 gp), vz = 0.25 * k * MAPV_NODE_DEPTH gp\<rparr>\<rparr>)"

section \<open>geometry.c: reshaping a TreeV platform\<close>

definition TREEV_MIN_ARC_WIDTH :: real where
  "TREEV_MIN_ARC_WIDTH = 90"

definition TREEV_MAX_ARC_WIDTH :: real where
  "TREEV_MAX_ARC_WIDTH = 225"

definition TREEV_MIN_CORE_RADIUS :: real where
  "TREEV_MIN_CORE_RADIUS = 8192"

definition TREEV_CORE_GROW_FACTOR :: real where
  "TREEV_CORE_GROW_FACTOR = 1.25"

definition TREEV_CURVE_GRANULARITY :: real where
  "TREEV_CURVE_GRANULARITY = 5"

definition TREEV_PLATFORM_HEIGHT :: real where
  "TREEV_PLATFORM_HEIGHT = 158.2"

definition TREEV_PLATFORM_SPACING_WIDTH :: real where
  "TREEV_PLATFORM_SPACING_WIDTH = 512"

definition TREEV_LEAF_HEIGHT_MULTIPLIER :: real where
  "TREEV_LEAF_HEIGHT_MULTIPLIER = 1"

definition TREEV_LEAF_NODE_EDGE :: real where
  "TREEV_LEAF_NODE_EDGE = 256"

definition TREEV_PLATFORM_SPACING_DEPTH :: real where
  "TREEV_PLATFORM_SPACING_DEPTH = 2048"

definition TREEV_LEAF_PADDING :: real where
  "TREEV_LEAF_PADDING = 0.125 * TREEV_LEAF_NODE_EDGE"

definition TREEV_PLATFORM_PADDING :: real where
  "TREEV_PLATFORM_PADDING = 0.5 * TREEV_PLATFORM_SPACING_WIDTH"

text \<open>
  The functions of the C library that the reshaping uses, on real numbers:
  \<^verbatim>\<open>atan2( y, x )\<close> is the angle of the point \<open>(x, y)\<close> in \<open>(-pi, pi]\<close>, \<^verbatim>\<open>cbrt\<close> the real
  cube root, \<^verbatim>\<open>hypot\<close> the length of the hypotenuse and \<^verbatim>\<open>fmod( x, y )\<close> the remainder
  of \<open>x / y\<close> with the quotient truncated toward zero (for \<open>y\<close> other than zero).
\<close>

definition atan2 :: "real \<Rightarrow> real \<Rightarrow> real" where
  "atan2 y x =
     (if 0 < x then arctan (y / x)
      else if x < 0 then (if 0 \<le> y then arctan (y / x) + pi else arctan (y / x) - pi)
      else if 0 < y then pi / 2
      else if y < 0 then - pi / 2
      else 0)"

definition cbrt :: "real \<Rightarrow> real" where
  "cbrt v = root 3 v"

definition hypot :: "real \<Rightarrow> real \<Rightarrow> real" where
  "hypot a b = sqrt (a * a + b * b)"

definition trunc :: "real \<Rightarrow> int" where
  "trunc v = (if 0 \<le> v then \<lfloor>v\<rfloor> else \<lceil>v\<rceil>)"

definition fmod :: "real \<Rightarrow> real \<Rightarrow> real" where
  "fmod a b = a - b * of_int (trunc (a / b))"

text \<open>
  The estimated area of a platform with \<open>n\<close> children:
  \<^verbatim>\<open>k = edge15 * ceil( sqrt( (double)MAX(1, n) ) ) + edge05; area = SQR(k)\<close>.
\<close>

definition edge05 :: real where
  "edge05 = 0.5 * TREEV_LEAF_NODE_EDGE"

definition edge15 :: real where
  "edge15 = 1.5 * TREEV_LEAF_NODE_EDGE"

definition treev_platform_area :: "nat \<Rightarrow> real" where
  "treev_platform_area n =
     SQR (edge15 * of_int \<lceil>sqrt (real (max 1 n))\<rceil> + edge05)"

text \<open>
  The solution \<open>d\<close> of the cubic
  \<^verbatim>\<open>d^3 + (2*r + w)*d^2 + (2*w*r - 2*A - w)*d - 2*A*r = 0\<close>, as the code computes it.
\<close>

definition treev_cubic_ka :: "real \<Rightarrow> real \<Rightarrow> real" where
  "treev_cubic_ka A r =
     (let w = TREEV_PLATFORM_SPACING_WIDTH;
          w_2 = SQR TREEV_PLATFORM_SPACING_WIDTH;
          w_3 = SQR TREEV_PLATFORM_SPACING_WIDTH * TREEV_PLATFORM_SPACING_WIDTH;
          r_2 = SQR r;
          r_3 = r * r_2
      in 72 * (A * r - w * (A + r)) - 64 * r_3 + 48 * r_2 * w - 36 * w_2 + 24 * r * w_2 - 8 * w_3)"

definition treev_cubic_radicand :: "real \<Rightarrow> real \<Rightarrow> real" where
  "treev_cubic_radicand A r =
     (let w = TREEV_PLATFORM_SPACING_WIDTH;
          w_2 = SQR TREEV_PLATFORM_SPACING_WIDTH;
          w_3 = SQR TREEV_PLATFORM_SPACING_WIDTH * TREEV_PLATFORM_SPACING_WIDTH;
          w_4 = SQR TREEV_PLATFORM_SPACING_WIDTH * SQR TREEV_PLATFORM_SPACING_WIDTH;
          A_2 = SQR A;
          A_3 = A * A_2;
          r_2 = SQR r;
          r_3 = r * r_2;
          r_4 = SQR r_2
      in 72 * A * w_2 - 132 * A * r * w_2 - 240 * A * w * r_3 + 120 * A * w_2 * r_2
           - 24 * A_2 * w * r - 60 * w_3 * r
         + 12 * (w_2 * r_2 + A_2 * w_2 - w_4 * r + w_4 * r_2 + A * w_3 + w_3)
         + 48 * (w_2 * r_4 - w_2 * r_3 - w_3 * r_3) + 96 * (A_3 + w_3 * r_2)
         + 192 * A * r_4 + 156 * A_2 * r_2 + 3 * w_4 + 144 * A_2 * w + 264 * A * w * r_2)"

definition treev_cubic_d :: "real \<Rightarrow> real \<Rightarrow> real" where
  "treev_cubic_d A r =
     (let w = TREEV_PLATFORM_SPACING_WIDTH;
          w_2 = SQR TREEV_PLATFORM_SPACING_WIDTH;
          r_2 = SQR r;
          ka = treev_cubic_ka A r;
          kb = 12 * sqrt (treev_cubic_radicand A r);
          kc = cos (atan2 kb ka / 3);
          kd = cbrt (hypot ka kb)
      in (- w - 2 * r) / 3 + ((8 * r_2 - 4 * w * r + 2 * w_2) / 3 + 4 * A + 2 * w) * kc / kd
         + kc * kd / 6)"

definition treev_cubic_theta :: "real \<Rightarrow> real \<Rightarrow> real" where
  "treev_cubic_theta A r =
     180 * (treev_cubic_d A r + TREEV_PLATFORM_SPACING_WIDTH) / (pi * (r + treev_cubic_d A r))"

definition treev_min_arc_width :: "real \<Rightarrow> real" where
  "treev_min_arc_width r0 =
     (180 * (2 * TREEV_LEAF_NODE_EDGE + TREEV_PLATFORM_SPACING_WIDTH) / pi) / r0"

text \<open>
  \<^verbatim>\<open>g_list_length( (GList *)dnode->children )\<close> counts the children of the node.
\<close>

definition treev_reshape_platform :: "GNode \<Rightarrow> real \<Rightarrow> fsv_state \<Rightarrow> fsv_state" where
  "treev_reshape_platform dnode r0 s =
     (let n = length (children dnode);
          area = treev_platform_area n;
          d = treev_cubic_d area r0;
          theta = treev_cubic_theta area r0;
          depth0 = d;
          arc_width0 = theta;
          depth1 = depth0 + (edge15 - fmod (depth0 - edge05) edge15) + edge05;
          min_arc_width = treev_min_arc_width r0;
          gparams = treev_params s (node_id dnode);
          s1 = s\<lparr>treev_params := (treev_params s)
                 (node_id dnode :=
                    gparams\<lparr>platform := (platform gparams)
                              \<lparr>arc_width := max min_arc_width arc_width0,
                               platform_depth := depth1\<rparr>\<rparr>)\<rparr>
      in geometry_queue_rebuild dnode s1)"

section \<open>geometry.c: initializing DiscV mode\<close>

definition DISCV_CURVE_GRANULARITY :: real where
  "DISCV_CURVE_GRANULARITY = 15"

definition DISCV_LEAF_RANGE_ARC_WIDTH :: real where
  "DISCV_LEAF_RANGE_ARC_WIDTH = 315"

definition DISCV_LEAF_STEM_PROPORTION :: real where
  "DISCV_LEAF_STEM_PROPORTION = 0.5"

definition DEG :: "real \<Rightarrow> real" where
  "DEG angleRad = angleRad * (180 / pi)"

definition RAD :: "real \<Rightarrow> real" where
  "RAD angle360 = angle360 * (pi / 180)"

text \<open>\<^verbatim>\<open>strcmp\<close>: the sign of the first difference, the characters compared by their codes.\<close>

fun strcmp :: "string \<Rightarrow> string \<Rightarrow> int" where
  "strcmp [] [] = 0"
| "strcmp [] (b # bs) = - 1"
| "strcmp (a # as) [] = 1"
| "strcmp (a # as) (b # bs) =
     (if a = b then strcmp as bs
      else if (of_char a :: nat) < of_char b then - 1 else 1)"

definition discv_node_compare :: "GNode \<Rightarrow> GNode \<Rightarrow> int" where
  "discv_node_compare a b =
     (let a_size = nsize (node_desc a) + (if NODE_IS_DIR a then subtree_size (node_desc a) else 0);
          b_size = nsize (node_desc b) + (if NODE_IS_DIR b then subtree_size (node_desc b) else 0)
      in if a_size < b_size then 1
         else if a_size > b_size then - 1
         else strcmp (nname (node_desc a)) (nname (node_desc b)))"

text \<open>
  \<^verbatim>\<open>g_list_sort\<close> is a stable sort: elements that compare equal keep their order. Here it
  is the insertion sort that puts each element before the first one it does not come
  after.
\<close>

fun g_list_insert_sorted :: "('a \<Rightarrow> 'a \<Rightarrow> int) \<Rightarrow> 'a \<Rightarrow> 'a list \<Rightarrow> 'a list" where
  "g_list_insert_sorted cmp v [] = [v]"
| "g_list_insert_sorted cmp v (y # ys) =
     (if cmp v y \<le> 0 then v # y # ys else y # g_list_insert_sorted cmp v ys)"

definition g_list_sort :: "('a \<Rightarrow> 'a \<Rightarrow> int) \<Rightarrow> 'a list \<Rightarrow> 'a list" where
  "g_list_sort cmp xs = foldr (g_list_insert_sorted cmp) xs []"

lemma g_list_insert_sorted_set: "set (g_list_insert_sorted cmp v ys) = insert v (set ys)"
  by (induction ys) auto

lemma g_list_sort_set: "set (g_list_sort cmp xs) = set xs"
  unfolding g_list_sort_def by (induction xs) (simp_all add: g_list_insert_sorted_set)

lemma size_child: "node \<in> set (children dnode) \<Longrightarrow> size node < size dnode"
  by (cases dnode) (auto simp: less_Suc_eq_le size_list_estimation')

text \<open>
  The first loop of \<^verbatim>\<open>discv_init_recursive\<close>: radius, arc width and distance of each
  child (the latter two kept in \<^verbatim>\<open>theta\<close> and \<^verbatim>\<open>pos.x\<close> for the time being), and the sum
  of the arc widths.
\<close>

definition discv_leaf_pass :: "real \<Rightarrow> GNode \<Rightarrow> fsv_state \<times> real \<Rightarrow> fsv_state \<times> real" where
  "discv_leaf_pass dir_radius node st =
     (let s = fst st;
          total_arc_width = snd st;
          node_size = max 64 (nsize (node_desc node))
                        + (if NODE_IS_DIR node then subtree_size (node_desc node) else 0);
          radius' = sqrt (real_of_int node_size / pi);
          dist = dir_radius + radius' * (1 + DISCV_LEAF_STEM_PROPORTION);
          arc_width' = 2 * DEG (arcsin (radius' / dist));
          gparams = discv_params s (node_id node)
      in (s\<lparr>discv_params := (discv_params s)
              (node_id node := gparams\<lparr>radius := radius', disc_theta := arc_width',
                                       disc_pos := (disc_pos gparams)\<lparr>vx := dist\<rparr>\<rparr>)\<rparr>,
          total_arc_width + arc_width'))"

text \<open>
  The state of the third loop next to the program state: whether the entry is the first
  of the list, \<^verbatim>\<open>even\<close>, \<^verbatim>\<open>out\<close>, \<^verbatim>\<open>theta0\<close> and \<^verbatim>\<open>theta1\<close>.
\<close>

record discv_sweep =
  sw_first :: bool
  sw_even :: bool
  sw_out :: bool
  sw_theta0 :: real
  sw_theta1 :: real

text \<open>
  One entry of the third loop up to the recursive call: the new parameters of the node
  and the new loop state.
\<close>

definition discv_place :: "real \<Rightarrow> bool \<Rightarrow> GNode \<Rightarrow> discv_sweep \<Rightarrow> fsv_state
    \<Rightarrow> fsv_state \<times> discv_sweep" where
  "discv_place k stagger node sw s =
     (let gparams = discv_params s (node_id node);
          arc_width' = k * disc_theta gparams;
          dist0 = vx (disc_pos gparams);
          dist = (if stagger \<and> sw_out sw then dist0 + 2 * radius gparams else dist0);
          theta' = (if sw_first sw then sw_theta0 sw
                    else if sw_even sw then sw_theta0 sw + 0.5 * arc_width'
                    else sw_theta1 sw - 0.5 * arc_width');
          sw' = (if sw_first sw then
                   sw\<lparr>sw_theta0 := sw_theta0 sw + 0.5 * arc_width',
                      sw_theta1 := sw_theta1 sw - 0.5 * arc_width',
                      sw_out := \<not> sw_out sw\<rparr>
                 else if sw_even sw then
                   sw\<lparr>sw_theta0 := sw_theta0 sw + arc_width', sw_out := \<not> sw_out sw\<rparr>
                 else sw\<lparr>sw_theta1 := sw_theta1 sw - arc_width'\<rparr>)
      in (s\<lparr>discv_params := (discv_params s)
              (node_id node := gparams\<lparr>disc_theta := theta',
                 disc_pos := \<lparr>vx = dist * cos (RAD theta'), vy = dist * sin (RAD theta')\<rparr>\<rparr>)\<rparr>,
          sw'\<lparr>sw_first := False, sw_even := \<not> sw_even sw\<rparr>))"

function discv_init_recursive :: "GNode \<Rightarrow> real \<Rightarrow> fsv_state \<Rightarrow> fsv_state" where
  "discv_init_recursive dnode stem_theta s0 =
     (let s3 = (if NODE_IS_DIR dnode then
                  (let s1 = morph_break (Deployment (node_id dnode)) s0;
                       s2 = (if dirtree_entry_expanded s1 dnode then set_deployment dnode 1 s1
                             else set_deployment dnode 0 s1)
                   in geometry_queue_rebuild dnode s2)
                else s0)
      in if children dnode = [] then s3
         else
           (let dir_radius = radius (discv_params s3 (node_id dnode));
                (s4, total_arc_width) = fold (discv_leaf_pass dir_radius) (children dnode) (s3, 0);
                node_list = g_list_sort discv_node_compare (rev (children dnode));
                k = DISCV_LEAF_RANGE_ARC_WIDTH / total_arc_width;
                stagger = (k \<le> 1)
            in fst (fold (\<lambda>node (s, sw).
                      (let (s', sw') = discv_place k stagger node sw s
                       in (if NODE_IS_DIR node
                           then discv_init_recursive node
                                  (disc_theta (discv_params s' (node_id node)) + 180) s'
                           else s',
                           sw')))
                    node_list
                    (s4, \<lparr>sw_first = True, sw_even = True, sw_out = True,
                          sw_theta0 = stem_theta - 180, sw_theta1 = stem_theta + 180\<rparr>))))"
  by pat_completeness auto
termination
  apply (relation "measure (\<lambda>(dnode, stem_theta, s). size dnode)")
   apply simp
  apply (simp add: g_list_sort_set size_child)
  done

declare discv_init_recursive.simps [simp del]

definition discv_init :: "fsv_state \<Rightarrow> fsv_state" where
  "discv_init s0 =
     (let fs = nid (fstree_desc s0);
          s1 = s0\<lparr>discv_params := (discv_params s0)
                  (fs := (discv_params s0 fs)\<lparr>radius := 0, disc_theta := 0\<rparr>)\<rparr>;
          s2 = discv_init_recursive (fstree s1) 270 s1;
          gparams = discv_params s2 fs;
          s3 = s2\<lparr>discv_params := (discv_params s2)
                  (fs := gparams\<lparr>disc_pos :=
                     \<lparr>vx = 0, vy = - radius (discv_params s2 (node_id (root_dnode s2)))\<rparr>\<rparr>)\<rparr>
      in gl_emit [GlNormal3d 0 0 1] s3)"

section \<open>geometry.c: initializing and arranging TreeV mode\<close>

definition geometry_treev_is_leaf :: "fsv_state \<Rightarrow> GNode \<Rightarrow> bool" where
  "geometry_treev_is_leaf s node =
     (if NODE_IS_DIR node \<and> dirtree_entry_expanded s node then False else True)"

text \<open>Writing the platform part of the TreeV parameters of a node.\<close>

definition set_platform :: "nat \<Rightarrow> (TreeVPlatform \<Rightarrow> TreeVPlatform) \<Rightarrow> fsv_state \<Rightarrow> fsv_state" where
  "set_platform i f s =
     s\<lparr>treev_params := (treev_params s)
         (i := (treev_params s i)\<lparr>platform := f (platform (treev_params s i))\<rparr>)\<rparr>"

definition set_leaf :: "nat \<Rightarrow> (TreeVLeaf \<Rightarrow> TreeVLeaf) \<Rightarrow> fsv_state \<Rightarrow> fsv_state" where
  "set_leaf i f s =
     s\<lparr>treev_params := (treev_params s)
         (i := (treev_params s i)\<lparr>leaf := f (leaf (treev_params s i))\<rparr>)\<rparr>"

definition get_platform :: "fsv_state \<Rightarrow> nat \<Rightarrow> TreeVPlatform" where
  "get_platform s i = platform (treev_params s i)"

text \<open>
  \<^verbatim>\<open>geometry_treev_platform_r0\<close> and \<^verbatim>\<open>geometry_treev_platform_theta\<close> walk up the
  \<^verbatim>\<open>parent\<close> pointers.
\<close>

definition geometry_treev_platform_r0 :: "fsv_state \<Rightarrow> gptr \<Rightarrow> real" where
  "geometry_treev_platform_r0 s dnode =
     (if NODE_IS_METANODE (fst dnode) then treev_core_radius s
      else fold (\<lambda>up r0. r0 + TREEV_PLATFORM_SPACING_DEPTH
                            + platform_depth (get_platform s (nid (up_desc up))))
             (snd dnode) 0
           + treev_core_radius s)"

definition geometry_treev_platform_theta :: "fsv_state \<Rightarrow> gptr \<Rightarrow> real" where
  "geometry_treev_platform_theta s dnode =
     fold (\<lambda>up theta. theta + platform_theta (get_platform s (nid (up_desc up))))
       (snd dnode) (0 + platform_theta (get_platform s (node_id (fst dnode))))"

definition treev_get_corners :: "fsv_state \<Rightarrow> gptr \<Rightarrow> fsv_error + RTZvec \<times> RTZvec" where
  "treev_get_corners s node =
     (if geometry_treev_is_leaf s (fst node) then
        (case parent node of
           None \<Rightarrow> Inl Null_parent
         | Some up \<Rightarrow>
             (let gp = treev_params s (node_id (fst node));
                  pos_r = geometry_treev_platform_r0 s up + leaf_distance (leaf gp);
                  pos_theta = geometry_treev_platform_theta s up + leaf_theta (leaf gp);
                  pos_z = platform_height (get_platform s (node_id (fst up)));
                  leaf_arc_width = (180 * TREEV_LEAF_NODE_EDGE / pi) / pos_r;
                  padding_arc_width = (180 * TREEV_LEAF_PADDING / pi) / pos_r
              in Inr (\<lparr>rtz_r = pos_r - 0.5 * TREEV_LEAF_NODE_EDGE - TREEV_LEAF_PADDING,
                        rtz_theta = pos_theta - 0.5 * leaf_arc_width - padding_arc_width,
                        rtz_z = pos_z - 0.5 * TREEV_LEAF_PADDING\<rparr>,
                      \<lparr>rtz_r = pos_r + 0.5 * TREEV_LEAF_NODE_EDGE + TREEV_LEAF_PADDING,
                        rtz_theta = pos_theta + 0.5 * leaf_arc_width + padding_arc_width,
                        rtz_z = pos_z + leaf_height (leaf gp) + 0.5 * TREEV_LEAF_PADDING\<rparr>)))
      else
        (let p = get_platform s (node_id (fst node));
             pos_r = geometry_treev_platform_r0 s node;
             pos_theta = geometry_treev_platform_theta s node
         in Inr (\<lparr>rtz_r = pos_r - TREEV_PLATFORM_PADDING,
                   rtz_theta = pos_theta - 0.5 * arc_width p,
                   rtz_z = 0\<rparr>,
                 \<lparr>rtz_r = pos_r + platform_depth p + TREEV_PLATFORM_PADDING,
                   rtz_theta = pos_theta + 0.5 * arc_width p,
                   rtz_z = platform_height p\<rparr>)))"

text \<open>
  \<^verbatim>\<open>treev_arrange_recursive\<close>. Both loops over the children stop at the first child that
  is not a directory. The first loop recurses into each subdirectory, keeps its arc width
  in \<^verbatim>\<open>platform.theta\<close> for the time being and sums the arc widths; the second loop
  spreads the subdirectories. The \<^verbatim>\<open>flags\<close> of a node descriptor hold the one flag
  \<^verbatim>\<open>TREEV_NEED_REARRANGE\<close>.
\<close>

definition treev_spread :: "GNode \<Rightarrow> fsv_state \<times> real \<Rightarrow> fsv_state \<times> real" where
  "treev_spread node st =
     (let s = fst st;
          theta = snd st;
          arc_width' = platform_theta (get_platform s (node_id node))
      in (set_platform (node_id node) (\<lambda>p. p\<lparr>platform_theta := theta + 0.5 * arc_width'\<rparr>) s,
          theta + arc_width'))"

function treev_arrange_recursive :: "GNode \<Rightarrow> real \<Rightarrow> bool \<Rightarrow> fsv_state \<Rightarrow> fsv_state" where
  "treev_arrange_recursive dnode r0 reshape_tree s0 =
     (if \<not> reshape_tree \<and> \<not> treev_need_rearrange s0 (node_id dnode) then s0
      else if reshape_tree \<and> NODE_IS_DIR dnode \<and> geometry_treev_is_leaf s0 dnode
      then geometry_queue_rebuild dnode s0
      else
        (let s1 = (if reshape_tree \<and> NODE_IS_DIR dnode then treev_reshape_platform dnode r0 s0
                   else s0);
             subtree_r0 = r0 + platform_depth (get_platform s1 (node_id dnode))
                            + TREEV_PLATFORM_SPACING_DEPTH;
             (s2, subtree_arc_width') =
               fold (\<lambda>node (s, acc).
                       (let s' = treev_arrange_recursive node subtree_r0 reshape_tree s;
                            arc_width' = deployment s' node
                              * max (arc_width (get_platform s' (node_id node)))
                                    (subtree_arc_width (get_platform s' (node_id node)))
                        in (set_platform (node_id node) (\<lambda>p. p\<lparr>platform_theta := arc_width'\<rparr>) s',
                            acc + arc_width')))
                 (takeWhile NODE_IS_DIR (children dnode)) (s1, 0);
             s3 = set_platform (node_id dnode)
                    (\<lambda>p. p\<lparr>subtree_arc_width := subtree_arc_width'\<rparr>) s2;
             s4 = fst (fold treev_spread (takeWhile NODE_IS_DIR (children dnode))
                         (s3, - 0.5 * subtree_arc_width'))
         in s4\<lparr>treev_need_rearrange := (treev_need_rearrange s4)(node_id dnode := False)\<rparr>))"
  apply pat_completeness
  apply (elim Pair_inject)
  apply (simp only:)
  done
termination
  apply (relation "measure (\<lambda>(dnode, r0, reshape_tree, s). size dnode)")
   apply (rule wf_measure)
  apply (simp only: in_measure split_conv)
  apply (rule size_child)
  apply (drule set_takeWhileD)
  apply (erule conjunct1)
  done

declare treev_arrange_recursive.simps [simp del]

text \<open>\<^verbatim>\<open>camera_pan_break\<close> of camera.c.\<close>

definition camera_pan_break :: "fsv_state \<Rightarrow> fsv_error + fsv_state" where
  "camera_pan_break s0 =
     (let s1 = morph_break (CameraVar Cam_theta) s0;
          s2 = morph_break (CameraVar Cam_phi) s1;
          s3 = morph_break (CameraVar Cam_distance) s2;
          s4 = morph_break (CameraVar Cam_fov) s3;
          s5 = morph_break (CameraVar Cam_near_clip) s4;
          s6 = morph_break (CameraVar Cam_far_clip) s5;
          s7 = morph_break (CameraVar Cam_pan_part) s6
      in case fsv_mode s7 of
           FSV_DISCV \<Rightarrow>
             Inr (morph_break (CameraVar Cam_target_1) (morph_break (CameraVar Cam_target_0) s7))
         | FSV_MAPV \<Rightarrow>
             Inr (morph_break (CameraVar Cam_target_2)
                   (morph_break (CameraVar Cam_target_1) (morph_break (CameraVar Cam_target_0) s7)))
         | FSV_TREEV \<Rightarrow>
             Inr (morph_break (CameraVar Cam_target_2)
                   (morph_break (CameraVar Cam_target_1) (morph_break (CameraVar Cam_target_0) s7)))
         | _ \<Rightarrow> Inl Switch_fail)"

definition camera_moving :: "fsv_state \<Rightarrow> bool" where
  "camera_moving s = camera_currently_moving s"

text \<open>
  The loop of \<^verbatim>\<open>treev_arrange\<close> that grows or shrinks the core radius until the arc
  width of the whole tree is within bounds. The result is the \<^verbatim>\<open>resized\<close> flag and the
  state; the loop has no bound on the number of its rounds in the code.
\<close>

definition treev_grow :: "fsv_state \<Rightarrow> fsv_state" where
  "treev_grow s =
     (let s1 = s\<lparr>treev_core_radius := treev_core_radius s * TREEV_CORE_GROW_FACTOR\<rparr>
      in treev_arrange_recursive (fstree s1) (treev_core_radius s1) True s1)"

definition treev_shrink :: "fsv_state \<Rightarrow> fsv_state" where
  "treev_shrink s =
     (let s1 = s\<lparr>treev_core_radius :=
                   max TREEV_MIN_CORE_RADIUS (treev_core_radius s / TREEV_CORE_GROW_FACTOR)\<rparr>
      in treev_arrange_recursive (fstree s1) (treev_core_radius s1) True s1)"

partial_function (option) treev_arrange_loop :: "bool \<Rightarrow> fsv_state \<Rightarrow> (bool \<times> fsv_state) option" where
  "treev_arrange_loop resized s =
     (if subtree_arc_width (get_platform s (nid (fstree_desc s))) > TREEV_MAX_ARC_WIDTH
      then treev_arrange_loop True (treev_grow s)
      else if subtree_arc_width (get_platform s (nid (fstree_desc s))) < TREEV_MIN_ARC_WIDTH
              \<and> platform_depth (get_platform s (nid (fstree_desc s))) > TREEV_MIN_CORE_RADIUS
      then treev_arrange_loop True (treev_shrink s)
      else Some (resized, s))"

text \<open>
  \<^verbatim>\<open>treev_arrange\<close>. \<open>None\<close>: the loop does not end. \<^verbatim>\<open>camera_look_at_full\<close> belongs to
  the camera module; it starts morphs of the camera variables only, and is recorded as a
  call (the pan time \<open>-1\<close> asks for the default duration).
\<close>

definition treev_arrange :: "bool \<Rightarrow> fsv_state \<Rightarrow> (fsv_error + fsv_state) option" where
  "treev_arrange initial_arrange s0 =
     (let s1 = treev_arrange_recursive (fstree s0) (treev_core_radius s0) initial_arrange s0
      in case treev_arrange_loop False s1 of
           None \<Rightarrow> None
         | Some (resized, s2) \<Rightarrow>
             (if resized \<and> camera_moving s2 then
                (case camera_pan_break s2 of
                   Inl e \<Rightarrow> Some (Inl e)
                 | Inr s3 \<Rightarrow>
                     Some (Inr (s3\<lparr>calls := calls s3
                        @ [Camera_look_at_full (current_node s3) MORPH_INV_QUADRATIC (- 1)]\<rparr>)))
              else Some (Inr s2)))"

text \<open>\<^verbatim>\<open>treev_init_recursive\<close>.\<close>

function treev_init_recursive :: "GNode \<Rightarrow> fsv_state \<Rightarrow> fsv_state" where
  "treev_init_recursive dnode s0 =
     (let s3 = (if NODE_IS_DIR dnode then
                  (let s1 = morph_break (Deployment (node_id dnode)) s0;
                       s2 = (if dirtree_entry_expanded s1 dnode then set_deployment dnode 1 s1
                             else set_deployment dnode 0 s1)
                   in geometry_queue_rebuild dnode s2)
                else s0);
          s4 = s3\<lparr>treev_need_rearrange := (treev_need_rearrange s3)(node_id dnode := False)\<rparr>
      in fold (\<lambda>node s.
                 (let size0 = max 64 (nsize (node_desc node));
                      size1 = (if NODE_IS_DIR node then size0 + subtree_size (node_desc node)
                               else size0);
                      s' = (if NODE_IS_DIR node then
                              treev_init_recursive node
                                (set_platform (node_id node)
                                   (\<lambda>p. p\<lparr>platform_height := TREEV_PLATFORM_HEIGHT\<rparr>) s)
                            else s)
                  in set_leaf (node_id node)
                       (\<lambda>l. l\<lparr>leaf_height := sqrt (real_of_int size1) * TREEV_LEAF_HEIGHT_MULTIPLIER\<rparr>)
                       s'))
           (children dnode) s4)"
  by pat_completeness auto
termination
  apply (relation "measure (\<lambda>(dnode, s). size dnode)")
   apply simp
  apply (simp add: size_child)
  done

declare treev_init_recursive.simps [simp del]

text \<open>
  \<^verbatim>\<open>treev_init\<close>. The two point buffers it allocates are used by the drawing code only.
  \<^verbatim>\<open>root_dnode\<close> is the child of the metanode.
\<close>

definition treev_init :: "fsv_state \<Rightarrow> (fsv_error + fsv_state) option" where
  "treev_init s0 =
     (let fs = nid (fstree_desc s0);
          rt = node_id (root_dnode s0);
          s1 = s0\<lparr>treev_core_radius := TREEV_MIN_CORE_RADIUS\<rparr>;
          s2 = set_platform fs
                 (\<lambda>p. p\<lparr>platform_theta := 90, platform_depth := 0,
                         arc_width := TREEV_MAX_ARC_WIDTH, platform_height := 0\<rparr>) s1;
          s3 = set_leaf rt
                 (\<lambda>l. l\<lparr>leaf_theta := 0, leaf_distance := 0.5 * TREEV_PLATFORM_SPACING_DEPTH\<rparr>) s2;
          s4 = set_platform rt (\<lambda>p. p\<lparr>platform_theta := 0\<rparr>) s3;
          s5 = treev_init_recursive (fstree s4) s4
      in case treev_arrange True s5 of
           None \<Rightarrow> None
         | Some (Inl e) \<Rightarrow> Some (Inl e)
         | Some (Inr s6) \<Rightarrow>
             (case treev_get_corners s6 (root_dnode s6, [Crumb (fstree_desc s6) [] []]) of
                Inl e \<Rightarrow> Some (Inl e)
              | Inr (c0', c1') \<Rightarrow>
                  (let p = get_platform s6 (node_id (root_dnode s6))
                   in Some (Inr (s6\<lparr>treev_cursor_prev_c0 :=
                                      \<lparr>rtz_r = rtz_r c0' * 0.875,
                                       rtz_theta = rtz_theta c0' - arc_width p,
                                       rtz_z = 0\<rparr>,
                                    treev_cursor_prev_c1 :=
                                      \<lparr>rtz_r = rtz_r c1' * 1.125,
                                       rtz_theta = rtz_theta c1' + arc_width p,
                                       rtz_z = platform_height p\<rparr>\<rparr>)))))"

section \<open>color.c, geometry.c: assigning colors and initializing a mode\<close>

text \<open>
  \<^verbatim>\<open>node_type_color\<close>, \<^verbatim>\<open>time_color\<close> and \<^verbatim>\<open>wpattern_color\<close>: the latter two give a
  directory the color of its node type.
\<close>

definition time_color :: "fsv_state \<Rightarrow> GNode \<Rightarrow> fsv_error + nat" where
  "time_color s node =
     (if NODE_IS_DIR node then Inr (node_type_color s (ntype (node_desc node)))
      else time_color_file s (node_id node))"

definition wpattern_color :: "fsv_state \<Rightarrow> GNode \<Rightarrow> nat" where
  "wpattern_color s node =
     (if NODE_IS_DIR node then node_type_color s (ntype (node_desc node))
      else wpattern_color_file s (nname (node_desc node)))"

definition color_of_node :: "fsv_state \<Rightarrow> GNode \<Rightarrow> fsv_error + nat" where
  "color_of_node s node =
     (case color_mode s of
        COLOR_BY_NODETYPE \<Rightarrow> Inr (node_type_color s (ntype (node_desc node)))
      | COLOR_BY_TIMESTAMP \<Rightarrow> time_color s node
      | COLOR_BY_WPATTERN \<Rightarrow> Inr (wpattern_color s node)
      | COLOR_NONE \<Rightarrow> Inl Switch_fail)"

function color_assign_recursive :: "GNode \<Rightarrow> fsv_state \<Rightarrow> fsv_error + fsv_state" where
  "color_assign_recursive dnode s0 =
     fold (\<lambda>node r.
             (case r of
                Inl e \<Rightarrow> Inl e
              | Inr s \<Rightarrow>
                  (case color_of_node s node of
                     Inl e \<Rightarrow> Inl e
                   | Inr color \<Rightarrow>
                       (let s' = s\<lparr>node_color := (node_color s)(node_id node := color)\<rparr>
                        in if NODE_IS_DIR node then color_assign_recursive node s'
                           else Inr s'))))
       (children dnode) (Inr (geometry_queue_rebuild dnode s0))"
  apply pat_completeness
  apply (elim Pair_inject)
  apply (simp only:)
  done
termination
  apply (relation "measure (\<lambda>(dnode, s). size dnode)")
   apply (rule wf_measure)
  apply (simp only: in_measure split_conv)
  apply (erule size_child)
  done

declare color_assign_recursive.simps [simp del]

text \<open>
  \<^verbatim>\<open>geometry_init\<close>. \<open>None\<close>: the loop of \<^verbatim>\<open>treev_arrange\<close> does not end. The
  deployment of the metanode is the variable named by its id, like that of a directory.
\<close>

definition geometry_init :: "FsvMode \<Rightarrow> fsv_state \<Rightarrow> (fsv_error + fsv_state) option" where
  "geometry_init mode s0 =
     (let s1 = (if fstree_low_dlist s0 = 0
                then (let (l, s') = glGenLists s0 in s'\<lparr>fstree_low_dlist := l\<rparr>) else s0);
          s2 = (if fstree_high_dlist s1 = 0
                then (let (l, s') = glGenLists s1 in s'\<lparr>fstree_high_dlist := l\<rparr>) else s1);
          s3 = set_deployment (fstree s2) 1 s2;
          s4 = geometry_queue_rebuild (fstree s3) s3
      in case (case mode of
                 FSV_DISCV \<Rightarrow> Some (Inr (discv_init s4))
               | FSV_MAPV \<Rightarrow> Some (Inr (mapv_init s4))
               | FSV_TREEV \<Rightarrow> treev_init s4
               | _ \<Rightarrow> Some (Inl Switch_fail)) of
           None \<Rightarrow> None
         | Some (Inl e) \<Rightarrow> Some (Inl e)
         | Some (Inr s5) \<Rightarrow> Some (color_assign_recursive (fstree s5) s5))"

section \<open>colexp.c, dirtree.c: collapsing and expanding directories\<close>
























text \<open>The state at program start: both queues empty, nothing animated, all variables 0.\<close>

definition anim_init :: anim_state where
  "anim_init = \<lparr>schevent_queue = [], morph_queue = [], animation_active = False,
                need_redraw = False, idle_handlers = 0, next_ptr = 0,
                dvars = (\<lambda>v. 0), clock = (\<lambda>n. real n), clock_reads = 0, calls = []\<rparr>"

subsection \<open>Notions used to state the properties\<close>

text \<open>
  The allocator hands out fresh addresses: the records of the event queue have distinct
  addresses, all below the next address to be given out.
\<close>

definition evq_ok :: "'a anim_state_scheme \<Rightarrow> bool" where
  "evq_ok s = (distinct (map ev_ptr (schevent_queue s)) \<and>
               list_all (\<lambda>e. ev_ptr e < next_ptr s) (schevent_queue s))"

text \<open>The record at address \<open>p\<close>, while it is in the event queue.\<close>

definition pending :: "nat \<Rightarrow> 'a anim_state_scheme \<Rightarrow> ScheduledEvent option" where
  "pending p s = find (\<lambda>e. ev_ptr e = p) (schevent_queue s)"

text \<open>How often the callback of the record at address \<open>p\<close> has been invoked.\<close>

fun is_call_of :: "nat \<Rightarrow> call \<Rightarrow> bool" where
  "is_call_of p (EventCall q c d) = (q = p)"
| "is_call_of p _ = False"

definition fired :: "nat \<Rightarrow> 'a anim_state_scheme \<Rightarrow> nat" where
  "fired p s = length (filter (is_call_of p) (calls s))"

text \<open>An event is due in the coming tick when its decremented counter is at most zero.\<close>

definition due :: "ScheduledEvent \<Rightarrow> bool" where
  "due e = (sint (nframes e - 1) \<le> 0)"

definition dec :: "ScheduledEvent \<Rightarrow> ScheduledEvent" where
  "dec e = e\<lparr>nframes := nframes e - 1\<rparr>"

definition call_of :: "ScheduledEvent \<Rightarrow> call" where
  "call_of e = EventCall (ev_ptr e) (cb_name (event_cb e)) (ev_data e)"

text \<open>
  The records that a list of \<^verbatim>\<open>schedule_event\<close> calls creates from address \<open>p\<close> on, as
  they stand in the queue afterwards (latest first), and the calls that the callbacks of
  the due events of a queue make.
\<close>

fun created :: "nat \<Rightarrow> (event_cb \<times> nat \<times> 32 word) list \<Rightarrow> ScheduledEvent list" where
  "created p [] = []"
| "created p ((cb, d, n) # reqs) =
     created (Suc p) reqs @ [\<lparr>ev_ptr = p, nframes = n, event_cb = cb, ev_data = d\<rparr>]"

definition requests :: "ScheduledEvent list \<Rightarrow> (event_cb \<times> nat \<times> 32 word) list" where
  "requests es = concat (map (\<lambda>e. cb_schedules (event_cb e)) (filter due es))"

text \<open>
  The state after a tick and after \<open>k\<close> ticks, for the ticks that have a result (as they
  do when the records of the queue have distinct addresses, lemma \<open>tick_some\<close>).
\<close>

definition tickf :: "'a anim_state_scheme \<Rightarrow> 'a anim_state_scheme" where
  "tickf s = (case tick s of None \<Rightarrow> s | Some s' \<Rightarrow> s')"

fun ticksf :: "nat \<Rightarrow> 'a anim_state_scheme \<Rightarrow> 'a anim_state_scheme" where
  "ticksf 0 s = s"
| "ticksf (Suc k) s = ticksf k (tickf s)"

text \<open>The variables of the records of a morph queue, and the completion calls on a variable.\<close>

definition heads :: "Morph list \<Rightarrow> dvar list" where
  "heads q = map (\<lambda>m. m_var (m_stage m)) q"

fun is_end_call_on :: "dvar \<Rightarrow> call \<Rightarrow> bool" where
  "is_end_call_on v (EndCall cb st) = (m_var st = v)"
| "is_end_call_on v _ = False"

definition end_calls_on :: "dvar \<Rightarrow> 'a anim_state_scheme \<Rightarrow> nat" where
  "end_calls_on v s = length (filter (is_end_call_on v) (calls s))"

text \<open>
  An example state: one event is queued for the next tick, and its callback schedules
  another event one frame ahead.
\<close>

definition nested_example :: anim_state where
  "nested_example = schedule_event (EventCb 1 [(EventCb 2 [], 5, 1)]) 4 1 anim_init"

text \<open>
  What a draw does not touch: the stage counters, the two aggregate display lists, the
  tree and the animated variables.
\<close>

definition draw_frame ::
  "fsv_state \<Rightarrow> int \<times> int \<times> nat \<times> nat \<times> NodeDesc \<times> GNode \<times> (dvar \<Rightarrow> real)" where
  "draw_frame s =
     (fstree_low_draw_stage s, fstree_high_draw_stage s, fstree_low_dlist s, fstree_high_dlist s,
      fstree_desc s, root_dnode s, dvars s)"

text \<open>
  A state to run examples in: a filesystem that is one empty directory, in MapV mode,
  nothing queued, all variables 0, the tree drawn and cached (both stages 2).
\<close>

definition example_root :: GNode where
  "example_root =
     GNode \<lparr>ntype = NODE_DIRECTORY, nid = 1, nname = ''/'', nsize = 4096, subtree_size = 0\<rparr> []"

definition fsv_example :: fsv_state where
  "fsv_example =
     \<lparr>schevent_queue = [], morph_queue = [], animation_active = False,
      need_redraw = False, idle_handlers = 0, next_ptr = 0,
      dvars = (\<lambda>v. 0), clock = (\<lambda>n. real n), clock_reads = 0, calls = [],
      fsv_mode = FSV_MAPV,
      fstree_desc = \<lparr>ntype = NODE_METANODE, nid = 0, nname = [], nsize = 0, subtree_size = 4096\<rparr>,
      root_dnode = example_root,
      current_node = 1,
      ctree_expanded = (\<lambda>i. True),
      a_dlist = (\<lambda>i. 0), b_dlist = (\<lambda>i. 0), c_dlist = (\<lambda>i. 0),
      geom_expanded = (\<lambda>i. False),
      a_dlist_stale = (\<lambda>i. False), b_dlist_stale = (\<lambda>i. False), c_dlist_stale = (\<lambda>i. False),
      treev_need_rearrange = (\<lambda>i. False),
      discv_params = (\<lambda>i. \<lparr>radius = 0, disc_theta = 0, disc_pos = \<lparr>vx = 0, vy = 0\<rparr>\<rparr>),
      mapv_params = (\<lambda>i. \<lparr>c0 = \<lparr>vx = 0, vy = 0\<rparr>, c1 = \<lparr>vx = 0, vy = 0\<rparr>, height = 0\<rparr>),
      treev_params = (\<lambda>i. \<lparr>leaf = \<lparr>leaf_distance = 0, leaf_theta = 0, leaf_height = 0\<rparr>,
               platform = \<lparr>platform_theta = 0, platform_depth = 0, arc_width = 0,
                            platform_height = 0, subtree_arc_width = 0\<rparr>\<rparr>),
      fstree_low_dlist = 1, fstree_high_dlist = 2,
      fstree_low_draw_stage = 2, fstree_high_draw_stage = 2,
      gl_lists = 2, gl = [],
      treev_core_radius = 8192,
      mapv_cursor_prev_c0 = \<lparr>vx = 0, vy = 0, vz = 0\<rparr>,
      mapv_cursor_prev_c1 = \<lparr>vx = 0, vy = 0, vz = 0\<rparr>,
      treev_cursor_prev_c0 = \<lparr>rtz_r = 0, rtz_theta = 0, rtz_z = 0\<rparr>,
      treev_cursor_prev_c1 = \<lparr>rtz_r = 0, rtz_theta = 0, rtz_z = 0\<rparr>,
      colexp_time = 0, colexp_depth = 0, colexp_max_depth = 0,
      scrollbars_colexp_adjust = False,
      camera_manual_control = False, camera_currently_moving = False,
      color_mode = COLOR_BY_NODETYPE, node_type_color = (\<lambda>t. 0),
      time_color_file = (\<lambda>i. Inr 0), wpattern_color_file = (\<lambda>n. 0),
      node_color = (\<lambda>i. 0)\<rparr>"

text \<open>
  The body of the loop by which \<^verbatim>\<open>mapv_init_recursive\<close> assigns the corners and the
  height of one child and recurses into it.
\<close>

definition mapv_place :: "GNode \<times> XYvec \<times> XYvec \<Rightarrow> fsv_state \<Rightarrow> fsv_state" where
  "mapv_place = (\<lambda>(node, p0, p1) s.
                 (let gparams = mapv_params s (node_id node);
                      s' = s\<lparr>mapv_params := (mapv_params s)(node_id node := gparams\<lparr>c0 := p0, c1 := p1\<rparr>)\<rparr>;
                      gparams' = mapv_params s' (node_id node)
                  in if NODE_IS_DIR node
                     then mapv_init_recursive node
                            (s'\<lparr>mapv_params := (mapv_params s')(node_id node := gparams'\<lparr>height := mapv_dir_height\<rparr>)\<rparr>)
                     else s'\<lparr>mapv_params := (mapv_params s')(node_id node := gparams'\<lparr>height := mapv_leaf_height\<rparr>)\<rparr>))"

text \<open>
  A directory of 100 by 100 with two regular files of 900 and 100 bytes, to be laid out
  in MapV mode.
\<close>

definition two_files_dir :: GNode where
  "two_files_dir =
     GNode \<lparr>ntype = NODE_DIRECTORY, nid = 1, nname = ''/'', nsize = 4096, subtree_size = 1000\<rparr>
       [GNode \<lparr>ntype = NODE_REGFILE, nid = 2, nname = ''a'', nsize = 900, subtree_size = 0\<rparr> [],
        GNode \<lparr>ntype = NODE_REGFILE, nid = 3, nname = ''b'', nsize = 100, subtree_size = 0\<rparr> []]"

definition mapv_example :: fsv_state where
  "mapv_example =
     fsv_example\<lparr>root_dnode := two_files_dir,
                 mapv_params := (\<lambda>i. \<lparr>c0 = \<lparr>vx = 0, vy = 0\<rparr>, c1 = \<lparr>vx = 100, vy = 100\<rparr>,
                                      height = 384\<rparr>)\<rparr>"

section \<open>Auxiliary definitions: the cubic of the platform depth\<close>

text \<open>
  The cubic that \<^verbatim>\<open>treev_reshape_platform\<close> solves, as its comment gives it:
  \<^verbatim>\<open>d^3 + (2*r + w)*d^2 + (2*w*r - 2*A - w)*d - 2*A*r = 0\<close>; and the depressed cubic
  \<open>t^3 - N/3 * t + q\<close> obtained from it by the shift \<open>t = d + (2*r + w)/3\<close>, with the spacing
  width \<open>w = 512\<close> written out.
\<close>

definition treev_cubic :: "real \<Rightarrow> real \<Rightarrow> real \<Rightarrow> real" where
  "treev_cubic A r d =
     d ^ 3 + (2 * r + TREEV_PLATFORM_SPACING_WIDTH) * d\<^sup>2
       + (2 * TREEV_PLATFORM_SPACING_WIDTH * r - 2 * A - TREEV_PLATFORM_SPACING_WIDTH) * d
       - 2 * A * r"

definition cubic_N :: "real \<Rightarrow> real \<Rightarrow> real" where
  "cubic_N A r = 4 * r * r + 512 * 512 - 2 * 512 * r + 6 * A + 3 * 512"

definition cubic_q :: "real \<Rightarrow> real \<Rightarrow> real" where
  "cubic_q A r =
     2 * (2 * r + 512) ^ 3 / 27 - (2 * r + 512) * (2 * 512 * r - 2 * A - 512) / 3 - 2 * A * r"

definition cubic_g :: "real \<Rightarrow> real \<Rightarrow> real \<Rightarrow> real" where
  "cubic_g A r t = t ^ 3 - cubic_N A r / 3 * t + cubic_q A r"

section \<open>Auxiliary definitions: initializing a mode\<close>

text \<open>
  The deployment of directory \<open>i\<close> has been reset: it is 1 or 0 as the entry of the
  directory tree is expanded or not, the three display lists of the directory are stale,
  and no morph of the queue is on the deployment.
\<close>

definition deployment_reset :: "(nat \<Rightarrow> bool) \<Rightarrow> fsv_state \<Rightarrow> nat \<Rightarrow> bool" where
  "deployment_reset expanded s i =
     (dvars s (Deployment i) = (if expanded i then 1 else 0)
      \<and> a_dlist_stale s i \<and> b_dlist_stale s i \<and> c_dlist_stale s i
      \<and> Deployment i \<notin> set (heads (morph_queue s)))"

text \<open>Only directories have children, as in a scanned filesystem.\<close>

fun tree_ok :: "GNode \<Rightarrow> bool" where
  "tree_ok (GNode d cs) = ((ntype d = NODE_DIRECTORY \<or> cs = []) \<and> list_all tree_ok cs)"

text \<open>
  The tree as the scanner builds it: a metanode above the root directory, only
  directories have children, and no two nodes have the same id.
\<close>

definition fstree_ok :: "fsv_state \<Rightarrow> bool" where
  "fstree_ok s =
     (ntype (fstree_desc s) = NODE_METANODE \<and> NODE_IS_DIR (root_dnode s)
      \<and> tree_ok (root_dnode s) \<and> distinct (ids (fstree s)))"

text \<open>
  A step from \<open>s\<close> to \<open>s'\<close> that keeps a reset deployment reset: the tree and the expanded
  flags stay, a deployment stays or becomes the value of a reset, no morph is added to
  the queue, a well-formed queue stays so, stale flags stay set, and the color
  configuration, the mode and the camera's moving flag stay.
\<close>

definition steady :: "fsv_state \<Rightarrow> fsv_state \<Rightarrow> bool" where
  "steady s s' =
     (ctree_expanded s' = ctree_expanded s
      \<and> fstree_desc s' = fstree_desc s \<and> root_dnode s' = root_dnode s
      \<and> (\<forall>i. dvars s' (Deployment i) = dvars s (Deployment i)
              \<or> dvars s' (Deployment i) = (if ctree_expanded s i then 1 else 0))
      \<and> set (heads (morph_queue s')) \<subseteq> set (heads (morph_queue s))
      \<and> (queue_ok (morph_queue s) \<longrightarrow> queue_ok (morph_queue s'))
      \<and> (\<forall>i. a_dlist_stale s i \<longrightarrow> a_dlist_stale s' i)
      \<and> (\<forall>i. b_dlist_stale s i \<longrightarrow> b_dlist_stale s' i)
      \<and> (\<forall>i. c_dlist_stale s i \<longrightarrow> c_dlist_stale s' i)
      \<and> color_mode s' = color_mode s \<and> node_type_color s' = node_type_color s
      \<and> time_color_file s' = time_color_file s \<and> wpattern_color_file s' = wpattern_color_file s
      \<and> fsv_mode s' = fsv_mode s \<and> camera_currently_moving s' = camera_currently_moving s)"

text \<open>The reset of one directory, as the three initializations do it.\<close>

definition reset_dir :: "GNode \<Rightarrow> fsv_state \<Rightarrow> fsv_state" where
  "reset_dir dnode s0 =
     (let s1 = morph_break (Deployment (node_id dnode)) s0;
          s2 = (if dirtree_entry_expanded s1 dnode then set_deployment dnode 1 s1
                else set_deployment dnode 0 s1)
      in geometry_queue_rebuild dnode s2)"

text \<open>
  The color configuration lets \<^verbatim>\<open>color_assign_recursive\<close> pass: the coloring mode is one
  of the three modes, and the timestamp color of every node of the tree is defined.
\<close>

definition time_colors_ok :: "fsv_state \<Rightarrow> nat list \<Rightarrow> bool" where
  "time_colors_ok s is =
     list_all (\<lambda>i. case time_color_file s i of Inl e \<Rightarrow> False | Inr c \<Rightarrow> True) is"

definition color_config_ok :: "fsv_state \<Rightarrow> bool" where
  "color_config_ok s = (color_mode s \<noteq> COLOR_NONE \<and> time_colors_ok s (ids (root_dnode s)))"

text \<open>
  \<^verbatim>\<open>camera_pan_break\<close> is called only while the camera moves; then it needs one of the
  three modes in \<^verbatim>\<open>globals.fsv_mode\<close>.
\<close>

definition camera_mode_ok :: "fsv_state \<Rightarrow> bool" where
  "camera_mode_ok s =
     (if camera_currently_moving s then fsv_mode s \<in> set [FSV_DISCV, FSV_MAPV, FSV_TREEV] else True)"

text \<open>
  What arranging the tree keeps: it is steady, changes no variable, morph, call or core
  radius, and writes the TreeV parameters of the nodes with an id in \<open>I\<close> only.
\<close>

definition arrange_frame :: "nat set \<Rightarrow> fsv_state \<Rightarrow> fsv_state \<Rightarrow> bool" where
  "arrange_frame I s s' =
     (steady s s' \<and> dvars s' = dvars s \<and> morph_queue s' = morph_queue s
      \<and> treev_core_radius s' = treev_core_radius s \<and> calls s' = calls s
      \<and> (\<forall>i. i \<notin> I \<longrightarrow> treev_params s' i = treev_params s i))"

text \<open>The body of the first loop of \<^verbatim>\<open>treev_arrange_recursive\<close>.\<close>

definition treev_arrange_child :: "real \<Rightarrow> bool \<Rightarrow> GNode \<Rightarrow> fsv_state \<times> real \<Rightarrow> fsv_state \<times> real" where
  "treev_arrange_child subtree_r0 reshape_tree node st =
     (let s' = treev_arrange_recursive node subtree_r0 reshape_tree (fst st);
          arc_width' = deployment s' node
            * max (arc_width (get_platform s' (node_id node)))
                  (subtree_arc_width (get_platform s' (node_id node)))
      in (set_platform (node_id node) (\<lambda>p. p\<lparr>platform_theta := arc_width'\<rparr>) s',
          snd st + arc_width'))"

text \<open>
  A bound on the arc width of a platform with \<open>n\<close> children times its inner radius, and on
  the arc width of a subtree times the core radius.
\<close>

definition treev_platform_bound :: "nat \<Rightarrow> real" where
  "treev_platform_bound n =
     180 / pi * max (2 * TREEV_LEAF_NODE_EDGE + TREEV_PLATFORM_SPACING_WIDTH)
                    (sqrt (2 * treev_platform_area n + TREEV_PLATFORM_SPACING_WIDTH)
                       + TREEV_PLATFORM_SPACING_WIDTH)"

fun treev_arc_bound :: "GNode \<Rightarrow> real" where
  "treev_arc_bound (GNode d cs) =
     max (treev_platform_bound (length cs)) (sum_list (map treev_arc_bound cs))"

text \<open>What \<^verbatim>\<open>treev_init_recursive\<close> keeps: the core radius and the depth of every platform.\<close>

definition treev_init_frame :: "fsv_state \<Rightarrow> fsv_state \<Rightarrow> bool" where
  "treev_init_frame s s' =
     (treev_core_radius s' = treev_core_radius s
      \<and> (\<forall>i. platform_depth (get_platform s' i) = platform_depth (get_platform s i)))"

text \<open>
  The state in which \<^verbatim>\<open>treev_arrange\<close> is called by \<^verbatim>\<open>treev_init\<close>, and what its loop keeps
  from that state \<open>s0\<close>: the depth of the metanode's platform is 0, the core radius is at
  least its minimum, and the arc width of the whole tree is bounded by the bound of the
  tree over the core radius.
\<close>

definition treev_ready :: "fsv_state \<Rightarrow> bool" where
  "treev_ready s0 =
     (ntype (fstree_desc s0) = NODE_METANODE \<and> distinct (ids (fstree s0))
      \<and> (\<forall>i \<in> set (dir_ids (fstree s0)).
            dvars s0 (Deployment i) = (if ctree_expanded s0 i then 1 else 0)))"

definition treev_loop_inv :: "fsv_state \<Rightarrow> fsv_state \<Rightarrow> bool" where
  "treev_loop_inv s0 s =
     (steady s0 s \<and> dvars s = dvars s0 \<and> morph_queue s = morph_queue s0 \<and> calls s = calls s0
      \<and> platform_depth (get_platform s (nid (fstree_desc s0))) = 0
      \<and> TREEV_MIN_CORE_RADIUS \<le> treev_core_radius s
      \<and> subtree_arc_width (get_platform s (nid (fstree_desc s0)))
          \<le> treev_arc_bound (root_dnode s0) / treev_core_radius s)"

text \<open>
  An example: the root directory (expanded) holds a collapsed directory and a file; the
  deployment of the collapsed directory is halfway through a morph.
\<close>

definition init_example :: fsv_state where
  "init_example =
     fsv_example\<lparr>
       morph_queue :=
         [Morph \<lparr>m_type = MORPH_INV_QUADRATIC, m_var = Deployment 2, start_value = 0,
                 end_value = 1, t_start = 0, t_end = 2, step_cb = Some 0, end_cb = Some 0,
                 m_data = 2\<rparr> None],
       dvars := (\<lambda>v. if v = Deployment 2 then 0.5 else if v = Deployment 1 then 1 else 0),
       root_dnode :=
         GNode \<lparr>ntype = NODE_DIRECTORY, nid = 1, nname = ''/'', nsize = 4096, subtree_size = 5000\<rparr>
           [GNode \<lparr>ntype = NODE_DIRECTORY, nid = 2, nname = ''d'', nsize = 4096, subtree_size = 0\<rparr> [],
            GNode \<lparr>ntype = NODE_REGFILE, nid = 3, nname = ''f'', nsize = 904, subtree_size = 0\<rparr> []],
       ctree_expanded := (\<lambda>i. i = 1)\<rparr>"

subsection \<open>Notions used to state the properties of the collapses and expansions\<close>


text \<open>What \<^verbatim>\<open>colexp\<close> leaves alone while it queues its morphs.\<close>

definition colexp_keeps :: "fsv_state \<Rightarrow> fsv_state \<Rightarrow> bool" where
  "colexp_keeps s s' =
     (dvars s' = dvars s \<and> clock s' = clock s
      \<and> colexp_depth s' = colexp_depth s \<and> colexp_max_depth s' = colexp_max_depth s
      \<and> colexp_time s' = colexp_time s \<and> fsv_mode s' = fsv_mode s)"










section \<open>Properties of the event queue\<close>

lemma created_append: "created p (xs @ ys) = created (p + length xs) ys @ created p xs"
  by (induction p xs rule: created.induct) auto

lemma created_ptrs: "e \<in> set (created p reqs) \<Longrightarrow> p \<le> ev_ptr e \<and> ev_ptr e < p + length reqs"
  by (induction p reqs rule: created.induct) auto

lemma created_distinct: "distinct (map ev_ptr (created p reqs))"
proof (induction p reqs rule: created.induct)
  case (1 p)
  then show ?case by simp
next
  case (2 p cb d n reqs)
  have "\<And>e. e \<in> set (created (Suc p) reqs) \<Longrightarrow> ev_ptr e \<noteq> p"
    using created_ptrs[of _ "Suc p" reqs] by fastforce
  with 2 show ?case by auto
qed

lemma created_length: "length (created p reqs) = length reqs"
  by (induction p reqs rule: created.induct) auto

lemma created_triples:
  "map (\<lambda>e. (event_cb e, ev_data e, nframes e)) (created p reqs) = rev reqs"
  by (induction p reqs rule: created.induct) auto

lemma schedule_event_fields:
  "schevent_queue (schedule_event cb d n s) =
     \<lparr>ev_ptr = next_ptr s, nframes = n, event_cb = cb, ev_data = d\<rparr> # schevent_queue s"
  "next_ptr (schedule_event cb d n s) = Suc (next_ptr s)"
  "calls (schedule_event cb d n s) = calls s"
  "morph_queue (schedule_event cb d n s) = morph_queue s"
  "dvars (schedule_event cb d n s) = dvars s"
  by (simp_all add: schedule_event_def redraw_def Let_def)

lemma fold_schedule_fields:
  "schevent_queue (fold (\<lambda>(cb, d, n). schedule_event cb d n) reqs s) =
     created (next_ptr s) reqs @ schevent_queue s \<and>
   next_ptr (fold (\<lambda>(cb, d, n). schedule_event cb d n) reqs s) = next_ptr s + length reqs \<and>
   calls (fold (\<lambda>(cb, d, n). schedule_event cb d n) reqs s) = calls s"
proof (induction reqs arbitrary: s)
  case Nil
  then show ?case by simp
next
  case (Cons r reqs)
  obtain cb d n where r: "r = (cb, d, n)" by (cases r) auto
  show ?case using Cons[of "schedule_event cb d n s"]
    by (simp add: r schedule_event_fields)
qed

lemma run_event_cb_fields:
  "schevent_queue (run_event_cb e s) =
     created (next_ptr s) (cb_schedules (event_cb e)) @ schevent_queue s"
  "next_ptr (run_event_cb e s) = next_ptr s + length (cb_schedules (event_cb e))"
  "calls (run_event_cb e s) = calls s @ [call_of e]"
  by (simp_all add: run_event_cb_def fold_schedule_fields call_of_def)

lemma decrement_at_middle:
  "ev_ptr e \<notin> ev_ptr ` set pre \<Longrightarrow>
   decrement_at (ev_ptr e) (pre @ e # rest) = pre @ dec e # rest"
  by (induction pre) (auto simp: dec_def)

lemma g_list_remove_middle:
  "ev_ptr e \<notin> ev_ptr ` set pre \<Longrightarrow> g_list_remove (pre @ e # rest) (ev_ptr e) = pre @ rest"
  by (induction pre) auto

lemma distinct_ptr_append:
  "distinct (map f xs) \<Longrightarrow> distinct (map f ys) \<Longrightarrow>
   \<forall>x\<in>set xs. \<forall>y\<in>set ys. f x \<noteq> f y \<Longrightarrow> distinct (map f (xs @ ys))"
  by auto

lemma sint_dec:
  fixes w :: "32 word"
  assumes "- (2 ^ 31) < sint w"
  shows "sint (w - 1) = sint w - 1"
proof -
  have "sint w < 2 ^ 31" using sint_lt[of w] by simp
  thus ?thesis using assms
    by (simp add: sint_word_ariths signed_take_bit_int_eq_self)
qed

lemma link_data_middle:
  "ev_ptr e \<notin> ev_ptr ` set pre \<Longrightarrow> link_data (pre @ e # rest) (ev_ptr e) = Some e"
  unfolding link_data_def by (induction pre) auto

lemma link_next_middle:
  "ev_ptr e \<notin> ev_ptr ` set pre \<Longrightarrow> link_next (pre @ e # rest) (ev_ptr e) = link_of rest"
  unfolding link_next_def by (induction pre) auto

lemma seq_loop_None: "seq_loop None sx = Some sx"
  by (subst seq_loop.simps) simp

lemma seq_loop_Some:
  "seq_loop (Some p) (s, ex) =
     (case link_data (schevent_queue s) p of
        None \<Rightarrow> None
      | Some schevent \<Rightarrow>
          if sint (nframes schevent - 1) \<le> 0 then
            seq_loop
              (link_next (schevent_queue (run_event_cb (schevent\<lparr>nframes := nframes schevent - 1\<rparr>)
                 (s\<lparr>schevent_queue := decrement_at p (schevent_queue s)\<rparr>))) p)
              ((run_event_cb (schevent\<lparr>nframes := nframes schevent - 1\<rparr>)
                  (s\<lparr>schevent_queue := decrement_at p (schevent_queue s)\<rparr>))
                 \<lparr>schevent_queue := g_list_remove
                    (schevent_queue (run_event_cb (schevent\<lparr>nframes := nframes schevent - 1\<rparr>)
                       (s\<lparr>schevent_queue := decrement_at p (schevent_queue s)\<rparr>))) p\<rparr>, True)
          else seq_loop (link_next (decrement_at p (schevent_queue s)) p)
                 (s\<lparr>schevent_queue := decrement_at p (schevent_queue s)\<rparr>, ex))"
  by (subst seq_loop.simps) (simp add: Let_def split: option.splits)

lemma seq_loop_char:
  assumes "schevent_queue s = pre @ rest"
      and "distinct (map ev_ptr (pre @ rest))"
      and "\<forall>e\<in>set (pre @ rest). ev_ptr e < next_ptr s"
  shows "\<exists>s'. seq_loop (link_of rest) (s, ex) = Some (s', ex \<or> filter due rest \<noteq> []) \<and>
         schevent_queue s' =
           created (next_ptr s) (requests rest) @ pre @ map dec (filter (\<lambda>e. \<not> due e) rest) \<and>
         next_ptr s' = next_ptr s + length (requests rest) \<and>
         calls s' = calls s @ map call_of (filter due rest)"
  using assms
proof (induction rest arbitrary: s pre ex)
  case Nil
  then show ?case by (simp add: requests_def seq_loop_None)
next
  case (Cons e rest)
  have notin: "ev_ptr e \<notin> ev_ptr ` set pre" using Cons.prems(2) by auto
  define s1 where "s1 = s\<lparr>schevent_queue := decrement_at (ev_ptr e) (schevent_queue s)\<rparr>"
  have q1: "schevent_queue s1 = pre @ dec e # rest"
    using Cons.prems(1) notin by (simp add: s1_def decrement_at_middle)
  have n1: "next_ptr s1 = next_ptr s" and c1: "calls s1 = calls s"
    by (simp_all add: s1_def)
  have old: "\<forall>y\<in>set (pre @ rest). ev_ptr y < next_ptr s" using Cons.prems(3) by simp
  have dold: "distinct (map ev_ptr (pre @ rest))" using Cons.prems(2) by simp
  have data: "link_data (schevent_queue s) (ev_ptr e) = Some e"
    unfolding Cons.prems(1) using notin by (rule link_data_middle)
  have notin1: "ev_ptr (dec e) \<notin> ev_ptr ` set pre" using notin by (simp add: dec_def)
  have next1: "link_next (schevent_queue s1) (ev_ptr e) = link_of rest"
    unfolding q1 using link_next_middle[OF notin1, of rest] by (simp add: dec_def)
  show ?case
  proof (cases "due e")
    case True
    define reqs where "reqs = cb_schedules (event_cb e)"
    define new where "new = created (next_ptr s) reqs"
    define s2 where "s2 = run_event_cb (e\<lparr>nframes := nframes e - 1\<rparr>) s1"
    define s3 where "s3 = s2\<lparr>schevent_queue := g_list_remove (schevent_queue s2) (ev_ptr e)\<rparr>"
    have newp: "\<forall>x\<in>set new. next_ptr s \<le> ev_ptr x \<and> ev_ptr x < next_ptr s + length reqs"
      unfolding new_def using created_ptrs by blast
    have q2: "schevent_queue s2 = (new @ pre) @ dec e # rest"
      using q1 by (simp add: s2_def run_event_cb_fields n1 new_def reqs_def)
    have pe: "ev_ptr e < next_ptr s" using Cons.prems(3) by simp
    have notin2: "ev_ptr (dec e) \<notin> ev_ptr ` set (new @ pre)"
      using notin newp pe by (auto simp: dec_def)
    have next2: "link_next (schevent_queue s2) (ev_ptr e) = link_of rest"
      unfolding q2 using link_next_middle[OF notin2, of rest] by (simp add: dec_def)
    have q3: "schevent_queue s3 = (new @ pre) @ rest"
      using q2 g_list_remove_middle[OF notin2, of rest] by (simp add: s3_def dec_def)
    have n3: "next_ptr s3 = next_ptr s + length reqs"
      by (simp add: s3_def s2_def run_event_cb_fields n1 reqs_def)
    have c3: "calls s3 = calls s @ [call_of e]"
      by (simp add: s3_def s2_def run_event_cb_fields c1 call_of_def)
    have d3': "distinct (map ev_ptr (new @ (pre @ rest)))"
    proof (rule distinct_ptr_append)
      show "distinct (map ev_ptr new)" unfolding new_def by (rule created_distinct)
      show "distinct (map ev_ptr (pre @ rest))" by (rule dold)
      show "\<forall>x\<in>set new. \<forall>y\<in>set (pre @ rest). ev_ptr x \<noteq> ev_ptr y"
        using newp old by fastforce
    qed
    have d3: "distinct (map ev_ptr ((new @ pre) @ rest))" using d3' by simp
    have b3': "\<forall>x\<in>set ((new @ pre) @ rest). ev_ptr x < next_ptr s + length reqs"
    proof
      fix x assume "x \<in> set ((new @ pre) @ rest)"
      then consider "x \<in> set new" | "x \<in> set (pre @ rest)" by auto
      then show "ev_ptr x < next_ptr s + length reqs"
      proof cases
        case 1 then show ?thesis using newp by blast
      next
        case 2 then have "ev_ptr x < next_ptr s" using old by blast
        then show ?thesis by simp
      qed
    qed
    have b3: "\<forall>x\<in>set ((new @ pre) @ rest). ev_ptr x < next_ptr s3"
      unfolding n3 by (rule b3')
    have step: "seq_loop (link_of (e # rest)) (s, ex) = seq_loop (link_of rest) (s3, True)"
      using True
      by (simp add: seq_loop_Some data due_def s1_def[symmetric] s2_def[symmetric] next2
          s3_def[symmetric])
    have req: "requests (e # rest) = reqs @ requests rest"
      using True by (simp add: requests_def reqs_def)
    from Cons.IH[OF q3 d3 b3, of True]
    obtain s' where r: "seq_loop (link_of rest) (s3, True) = Some (s', True \<or> filter due rest \<noteq> [])"
      and qs: "schevent_queue s' =
           created (next_ptr s3) (requests rest) @ (new @ pre) @ map dec (filter (\<lambda>e. \<not> due e) rest)"
      and ns: "next_ptr s' = next_ptr s3 + length (requests rest)"
      and cs: "calls s' = calls s3 @ map call_of (filter due rest)"
      by blast
    have "seq_loop (link_of (e # rest)) (s, ex) = Some (s', ex \<or> filter due (e # rest) \<noteq> [])"
      unfolding step r using True by simp
    moreover have "schevent_queue s' =
           created (next_ptr s) (requests (e # rest)) @ pre @ map dec (filter (\<lambda>e. \<not> due e) (e # rest))"
      unfolding qs req using True by (simp add: n3 created_append new_def)
    moreover have "next_ptr s' = next_ptr s + length (requests (e # rest))"
      unfolding ns req by (simp add: n3)
    moreover have "calls s' = calls s @ map call_of (filter due (e # rest))"
      unfolding cs using True by (simp add: c3)
    ultimately show ?thesis by blast
  next
    case False
    have next1': "link_next (decrement_at (ev_ptr e) (schevent_queue s)) (ev_ptr e) = link_of rest"
      using next1 by (simp add: s1_def)
    have step: "seq_loop (link_of (e # rest)) (s, ex) = seq_loop (link_of rest) (s1, ex)"
      using False by (simp add: seq_loop_Some data due_def next1' s1_def[symmetric])
    have q1': "schevent_queue s1 = (pre @ [dec e]) @ rest" using q1 by simp
    have d1: "distinct (map ev_ptr ((pre @ [dec e]) @ rest))"
      using Cons.prems(2) by (auto simp: dec_def)
    have b1: "\<forall>x\<in>set ((pre @ [dec e]) @ rest). ev_ptr x < next_ptr s1"
      using Cons.prems(3) by (auto simp: dec_def n1)
    have req: "requests (e # rest) = requests rest"
      using False by (simp add: requests_def)
    from Cons.IH[OF q1' d1 b1, of ex]
    obtain s' where r: "seq_loop (link_of rest) (s1, ex) = Some (s', ex \<or> filter due rest \<noteq> [])"
      and qs: "schevent_queue s' =
           created (next_ptr s1) (requests rest) @ (pre @ [dec e]) @ map dec (filter (\<lambda>e. \<not> due e) rest)"
      and ns: "next_ptr s' = next_ptr s1 + length (requests rest)"
      and cs: "calls s' = calls s1 @ map call_of (filter due rest)"
      by blast
    have "seq_loop (link_of (e # rest)) (s, ex) = Some (s', ex \<or> filter due (e # rest) \<noteq> [])"
      unfolding step r using False by simp
    moreover have "schevent_queue s' =
           created (next_ptr s) (requests (e # rest)) @ pre @ map dec (filter (\<lambda>e. \<not> due e) (e # rest))"
      unfolding qs req using False by (simp add: n1)
    moreover have "next_ptr s' = next_ptr s + length (requests (e # rest))"
      unfolding ns req by (simp add: n1)
    moreover have "calls s' = calls s @ map call_of (filter due (e # rest))"
      unfolding cs using False by (simp add: c1)
    ultimately show ?thesis by blast
  qed
qed

lemma tick_some:
  assumes "evq_ok s"
  shows "tick s = Some (tickf s)"
proof -
  have d: "distinct (map ev_ptr ([] @ schevent_queue s))"
    and b: "\<forall>e\<in>set ([] @ schevent_queue s). ev_ptr e < next_ptr s"
    using assms by (simp_all add: evq_ok_def list_all_iff)
  have q: "schevent_queue s = [] @ schevent_queue s" by simp
  from seq_loop_char[OF q d b, of False]
  obtain s' where "seq_loop (link_of (schevent_queue s)) (s, False) =
      Some (s', False \<or> filter due (schevent_queue s) \<noteq> [])" by blast
  hence "tick s = Some s'"
    by (simp add: tick_def scheduled_event_iteration_def)
  thus ?thesis by (simp add: tickf_def)
qed

lemma tick_char:
  assumes "evq_ok s"
  shows "schevent_queue (tickf s) =
           created (next_ptr s) (requests (schevent_queue s)) @
           map dec (filter (\<lambda>e. \<not> due e) (schevent_queue s))"
    and "next_ptr (tickf s) = next_ptr s + length (requests (schevent_queue s))"
    and "calls (tickf s) = calls s @ map call_of (filter due (schevent_queue s))"
proof -
  have d: "distinct (map ev_ptr ([] @ schevent_queue s))"
    and b: "\<forall>e\<in>set ([] @ schevent_queue s). ev_ptr e < next_ptr s"
    using assms by (simp_all add: evq_ok_def list_all_iff)
  have q: "schevent_queue s = [] @ schevent_queue s" by simp
  from seq_loop_char[OF q d b, of False]
  obtain s' where r: "seq_loop (link_of (schevent_queue s)) (s, False) =
      Some (s', False \<or> filter due (schevent_queue s) \<noteq> [])"
    and ch: "schevent_queue s' =
           created (next_ptr s) (requests (schevent_queue s)) @ [] @
           map dec (filter (\<lambda>e. \<not> due e) (schevent_queue s))"
      "next_ptr s' = next_ptr s + length (requests (schevent_queue s))"
      "calls s' = calls s @ map call_of (filter due (schevent_queue s))"
    by blast
  have t: "tickf s = s'"
    using r by (simp add: tickf_def tick_def scheduled_event_iteration_def)
  show "schevent_queue (tickf s) =
           created (next_ptr s) (requests (schevent_queue s)) @
           map dec (filter (\<lambda>e. \<not> due e) (schevent_queue s))"
    unfolding t using ch by simp
  show "next_ptr (tickf s) = next_ptr s + length (requests (schevent_queue s))"
    unfolding t using ch by simp
  show "calls (tickf s) = calls s @ map call_of (filter due (schevent_queue s))"
    unfolding t using ch by simp
qed

lemma tick_evq_ok:
  assumes "evq_ok s"
  shows "evq_ok (tickf s)"
proof -
  let ?new = "created (next_ptr s) (requests (schevent_queue s))"
  let ?old = "map dec (filter (\<lambda>e. \<not> due e) (schevent_queue s))"
  have dq: "distinct (map ev_ptr (schevent_queue s))"
    and bq: "\<forall>e\<in>set (schevent_queue s). ev_ptr e < next_ptr s"
    using assms by (simp_all add: evq_ok_def list_all_iff)
  have mp: "map ev_ptr ?old = map ev_ptr (filter (\<lambda>e. \<not> due e) (schevent_queue s))"
    by (simp add: dec_def)
  have dold: "distinct (map ev_ptr ?old)"
    unfolding mp using dq by (rule distinct_map_filter)
  have bold: "\<forall>y\<in>set ?old. ev_ptr y < next_ptr s"
    using bq by (auto simp: dec_def)
  have newp: "\<forall>x\<in>set ?new. next_ptr s \<le> ev_ptr x \<and>
                ev_ptr x < next_ptr s + length (requests (schevent_queue s))"
    using created_ptrs by blast
  have "distinct (map ev_ptr (?new @ ?old))"
  proof (rule distinct_ptr_append)
    show "distinct (map ev_ptr ?new)" by (rule created_distinct)
    show "distinct (map ev_ptr ?old)" by (rule dold)
    show "\<forall>x\<in>set ?new. \<forall>y\<in>set ?old. ev_ptr x \<noteq> ev_ptr y"
      using newp bold by fastforce
  qed
  moreover have "\<forall>x\<in>set (?new @ ?old). ev_ptr x < next_ptr s + length (requests (schevent_queue s))"
  proof
    fix x assume "x \<in> set (?new @ ?old)"
    then consider "x \<in> set ?new" | "x \<in> set ?old" by auto
    then show "ev_ptr x < next_ptr s + length (requests (schevent_queue s))"
    proof cases
      case 1 then show ?thesis using newp by blast
    next
      case 2 then have "ev_ptr x < next_ptr s" using bold by blast
      then show ?thesis by simp
    qed
  qed
  ultimately show ?thesis
    unfolding evq_ok_def list_all_iff tick_char[OF assms] by blast
qed

lemma find_append_none:
  "\<forall>x\<in>set xs. \<not> P x \<Longrightarrow> find P (xs @ ys) = find P ys"
  by (induction xs) auto

lemma dec_simps [simp]:
  "ev_ptr (dec e) = ev_ptr e" "nframes (dec e) = nframes e - 1"
  "event_cb (dec e) = event_cb e" "ev_data (dec e) = ev_data e"
  by (simp_all add: dec_def)

lemma is_call_of_call_of [simp]: "is_call_of p (call_of e) = (ev_ptr e = p)"
  by (simp add: call_of_def)

lemma find_none_ptr:
  "p \<notin> ev_ptr ` set q \<Longrightarrow> find (\<lambda>e. ev_ptr e = p) (map dec (filter P q)) = None"
  by (induction q) auto

lemma filter_calls_none:
  "p \<notin> ev_ptr ` set q \<Longrightarrow> filter (is_call_of p) (map call_of (filter P q)) = []"
  by (induction q) auto

lemma find_survivor:
  "distinct (map ev_ptr q) \<Longrightarrow>
   find (\<lambda>e. ev_ptr e = p) (map dec (filter (\<lambda>e. \<not> due e) q)) =
     (case find (\<lambda>e. ev_ptr e = p) q of
        None \<Rightarrow> None
      | Some e \<Rightarrow> if due e then None else Some (dec e))"
proof (induction q)
  case Nil
  then show ?case by simp
next
  case (Cons a q)
  show ?case
  proof (cases "ev_ptr a = p")
    case True
    then have "p \<notin> ev_ptr ` set q" using Cons.prems by auto
    then have "find (\<lambda>e. ev_ptr e = p) (map dec (filter (\<lambda>e. \<not> due e) q)) = None"
      by (rule find_none_ptr)
    then show ?thesis using True by simp
  next
    case False
    then show ?thesis using Cons by simp
  qed
qed

lemma count_due_ptr:
  "distinct (map ev_ptr q) \<Longrightarrow>
   length (filter (\<lambda>e. due e \<and> ev_ptr e = p) q) =
     (case find (\<lambda>e. ev_ptr e = p) q of
        None \<Rightarrow> 0
      | Some e \<Rightarrow> if due e then 1 else 0)"
proof (induction q)
  case Nil
  then show ?case by simp
next
  case (Cons a q)
  show ?case
  proof (cases "ev_ptr a = p")
    case True
    then have "p \<notin> ev_ptr ` set q" using Cons.prems by auto
    then have "filter (\<lambda>e. due e \<and> ev_ptr e = p) q = []"
      by (auto simp: filter_empty_conv)
    then show ?thesis using True by simp
  next
    case False
    then show ?thesis using Cons by simp
  qed
qed

lemma count_due_calls:
  "distinct (map ev_ptr q) \<Longrightarrow>
   length (filter (is_call_of p) (map call_of (filter due q))) =
     (case find (\<lambda>e. ev_ptr e = p) q of
        None \<Rightarrow> 0
      | Some e \<Rightarrow> if due e then 1 else 0)"
  using count_due_ptr[of q p] by (simp add: filter_map comp_def)

lemma find_distinct_ptr:
  "distinct (map ev_ptr q) \<Longrightarrow> e \<in> set q \<Longrightarrow> find (\<lambda>x. ev_ptr x = ev_ptr e) q = Some e"
proof (induction q)
  case Nil
  then show ?case by simp
next
  case (Cons a q)
  show ?case
  proof (cases "a = e")
    case True
    then show ?thesis by simp
  next
    case False
    then have "e \<in> set q" using Cons.prems by simp
    then have "ev_ptr a \<noteq> ev_ptr e" using Cons.prems(1) by auto
    then show ?thesis using Cons \<open>e \<in> set q\<close> by simp
  qed
qed

lemma tick_pending:
  assumes ok: "evq_ok s" and pend: "pending p s = Some e"
  shows "\<not> due e \<Longrightarrow> pending p (tickf s) = Some (dec e) \<and> fired p (tickf s) = fired p s"
    and "due e \<Longrightarrow>
           pending p (tickf s) = None \<and> fired p (tickf s) = Suc (fired p s) \<and>
           call_of e \<in> set (calls (tickf s))"
proof -
  have e: "find (\<lambda>e. ev_ptr e = p) (schevent_queue s) = Some e"
    using pend by (simp add: pending_def)
  have ein: "e \<in> set (schevent_queue s)" and pe: "ev_ptr e = p"
    using e by (auto simp: find_Some_iff)
  have dq: "distinct (map ev_ptr (schevent_queue s))"
    and bq: "\<forall>e\<in>set (schevent_queue s). ev_ptr e < next_ptr s"
    using ok by (simp_all add: evq_ok_def list_all_iff)
  have plt: "p < next_ptr s" using bq ein pe by blast
  have nonew: "\<forall>x\<in>set (created (next_ptr s) (requests (schevent_queue s))). \<not> ev_ptr x = p"
    using created_ptrs plt by fastforce
  have f: "find (\<lambda>e. ev_ptr e = p) (schevent_queue (tickf s)) =
             (if due e then None else Some (dec e))"
    unfolding tick_char[OF ok] find_append_none[OF nonew] find_survivor[OF dq] e by simp
  have n: "fired p (tickf s) = fired p s + (if due e then 1 else 0)"
    unfolding fired_def tick_char[OF ok] filter_append length_append count_due_calls[OF dq] e
    by simp
  have c: "due e \<Longrightarrow> call_of e \<in> set (calls (tickf s))"
    unfolding tick_char[OF ok] using ein by simp
  show "\<not> due e \<Longrightarrow> pending p (tickf s) = Some (dec e) \<and> fired p (tickf s) = fired p s"
    using f n by (simp add: pending_def)
  show "due e \<Longrightarrow>
           pending p (tickf s) = None \<and> fired p (tickf s) = Suc (fired p s) \<and>
           call_of e \<in> set (calls (tickf s))"
    using f n c by (simp add: pending_def)
qed

lemma tick_absent:
  assumes ok: "evq_ok s" and lt: "p < next_ptr s" and pend: "pending p s = None"
  shows "pending p (tickf s) = None \<and> fired p (tickf s) = fired p s \<and> p < next_ptr (tickf s)"
proof -
  have e: "find (\<lambda>e. ev_ptr e = p) (schevent_queue s) = None"
    using pend by (simp add: pending_def)
  have dq: "distinct (map ev_ptr (schevent_queue s))"
    using ok by (simp_all add: evq_ok_def)
  have nonew: "\<forall>x\<in>set (created (next_ptr s) (requests (schevent_queue s))). \<not> ev_ptr x = p"
    using created_ptrs lt by fastforce
  have f: "find (\<lambda>e. ev_ptr e = p) (schevent_queue (tickf s)) = None"
    unfolding tick_char[OF ok] find_append_none[OF nonew] find_survivor[OF dq] e by simp
  have n: "fired p (tickf s) = fired p s"
    unfolding fired_def tick_char[OF ok] filter_append length_append count_due_calls[OF dq] e
    by simp
  show ?thesis using f n lt by (simp add: pending_def tick_char[OF ok])
qed

lemma ticks_evq_ok: "evq_ok s \<Longrightarrow> evq_ok (ticksf k s)"
  by (induction k arbitrary: s) (auto simp: tick_evq_ok)

lemma ticks_absent:
  "evq_ok s \<Longrightarrow> p < next_ptr s \<Longrightarrow> pending p s = None \<Longrightarrow>
   pending p (ticksf k s) = None \<and> fired p (ticksf k s) = fired p s"
proof (induction k arbitrary: s)
  case 0
  then show ?case by simp
next
  case (Suc k)
  have a: "pending p (tickf s) = None \<and> fired p (tickf s) = fired p s \<and> p < next_ptr (tickf s)"
    using tick_absent[OF Suc.prems] .
  show ?case using Suc.IH[of "tickf s"] a tick_evq_ok[OF Suc.prems(1)] by simp
qed

lemma calls_kept: "evq_ok s \<Longrightarrow> c \<in> set (calls s) \<Longrightarrow> c \<in> set (calls (ticksf k s))"
proof (induction k arbitrary: s)
  case 0
  then show ?case by simp
next
  case (Suc k)
  have "c \<in> set (calls (tickf s))" using Suc.prems by (simp add: tick_char)
  then show ?case using Suc.IH[OF tick_evq_ok[OF Suc.prems(1)]] by simp
qed

lemma pending_lt: "evq_ok s \<Longrightarrow> pending p s = Some e \<Longrightarrow> p < next_ptr s"
  by (auto simp: pending_def evq_ok_def list_all_iff find_Some_iff)

lemma due_iff:
  "- (2 ^ 31) < sint (nframes e) \<Longrightarrow> due e = (sint (nframes e) \<le> 1)"
  by (simp add: due_def sint_dec)

lemma ticks_before:
  "evq_ok s \<Longrightarrow> pending p s = Some e \<Longrightarrow> int k < max 1 (sint (nframes e)) \<Longrightarrow>
   pending p (ticksf k s) = Some (e\<lparr>nframes := nframes e - of_nat k\<rparr>) \<and>
   fired p (ticksf k s) = fired p s"
proof (induction k arbitrary: s e)
  case 0
  then show ?case by simp
next
  case (Suc k)
  have c2: "2 \<le> sint (nframes e)" using Suc.prems(3) by simp
  hence gt: "- (2 ^ 31) < sint (nframes e)" by simp
  have nd: "\<not> due e" using c2 by (simp add: due_iff[OF gt])
  have a: "pending p (tickf s) = Some (dec e) \<and> fired p (tickf s) = fired p s"
    using tick_pending(1)[OF Suc.prems(1,2) nd] .
  have k: "int k < max 1 (sint (nframes (dec e)))"
    using Suc.prems(3) by (simp add: sint_dec[OF gt])
  have "(dec e)\<lparr>nframes := nframes (dec e) - of_nat k\<rparr> = e\<lparr>nframes := nframes e - of_nat (Suc k)\<rparr>"
    by (simp add: dec_def)
  then show ?case
    using Suc.IH[OF tick_evq_ok[OF Suc.prems(1)] conjunct1[OF a] k] a by simp
qed

lemma ticks_Suc_right: "ticksf (Suc k) s = tickf (ticksf k s)"
  by (induction k arbitrary: s) auto

lemma ticks_add: "ticksf (a + b) s = ticksf b (ticksf a s)"
  by (induction a arbitrary: s) auto

lemma sint_sub_of_nat:
  fixes w :: "32 word"
  assumes "0 \<le> sint w" and "int j \<le> sint w"
  shows "sint (w - of_nat j) = sint w - int j"
  using assms
proof (induction j)
  case 0
  then show ?case by simp
next
  case (Suc j)
  have ih: "sint (w - of_nat j) = sint w - int j" using Suc by simp
  have gt: "- (2 ^ 31) < sint (w - of_nat j)" unfolding ih using Suc.prems by simp
  have "w - of_nat (Suc j) = (w - of_nat j) - 1" by simp
  hence "sint (w - of_nat (Suc j)) = sint ((w - of_nat j) - 1)" by (rule arg_cong)
  also have "\<dots> = sint (w - of_nat j) - 1" using gt by (rule sint_dec)
  finally show ?case using ih by simp
qed

lemma ticks_from:
  assumes ok: "evq_ok s" and pend: "pending p s = Some e"
    and gt: "- (2 ^ 31) < sint (nframes e)" and k: "max 1 (sint (nframes e)) \<le> int k"
  shows "pending p (ticksf k s) = None \<and> fired p (ticksf k s) = Suc (fired p s) \<and>
         call_of e \<in> set (calls (ticksf k s))"
proof -
  define j where "j = nat (max 1 (sint (nframes e))) - 1"
  have one: "(1::int) \<le> max 1 (sint (nframes e))" by simp
  have jlt: "int j < max 1 (sint (nframes e))" using one unfolding j_def by linarith
  have b: "pending p (ticksf j s) = Some (e\<lparr>nframes := nframes e - of_nat j\<rparr>) \<and>
           fired p (ticksf j s) = fired p s"
    using ticks_before[OF ok pend jlt] .
  have okj: "evq_ok (ticksf j s)" using ok by (rule ticks_evq_ok)
  have dj: "due (e\<lparr>nframes := nframes e - of_nat j\<rparr>)"
  proof (cases "1 \<le> sint (nframes e)")
    case True
    hence j: "int j = sint (nframes e) - 1" unfolding j_def by simp
    have "sint (nframes e - of_nat j) = sint (nframes e) - int j"
      using True j by (intro sint_sub_of_nat) simp_all
    hence v: "sint (nframes e - of_nat j) = 1" using j by simp
    show ?thesis using v by (simp add: due_def sint_dec)
  next
    case False
    hence "j = 0" unfolding j_def by simp
    thus ?thesis using False gt by (simp add: due_iff)
  qed
  have t: "pending p (tickf (ticksf j s)) = None \<and>
           fired p (tickf (ticksf j s)) = Suc (fired p s) \<and>
           call_of e \<in> set (calls (tickf (ticksf j s)))"
    using tick_pending(2)[OF okj conjunct1[OF b] dj] b by (simp add: call_of_def)
  have lt: "p < next_ptr (tickf (ticksf j s))"
    using pending_lt[OF okj conjunct1[OF b]] by (simp add: tick_char[OF okj])
  have "j + 1 \<le> k" using k one unfolding j_def by linarith
  then obtain r where r: "k = (j + 1) + r"
    using le_Suc_ex by blast
  have s1: "ticksf (j + 1) s = tickf (ticksf j s)"
    using ticks_Suc_right[of j s] by simp
  have ok1: "evq_ok (tickf (ticksf j s))" using okj by (rule tick_evq_ok)
  show ?thesis
    unfolding r ticks_add[of "j + 1" r] s1
    using ticks_absent[OF ok1 lt conjunct1[OF t], of r] t calls_kept[OF ok1, of "call_of e" r]
    by simp
qed

lemma ticks_some: "evq_ok s \<Longrightarrow> ticks k s = Some (ticksf k s)"
proof (induction k arbitrary: s)
  case 0
  then show ?case by simp
next
  case (Suc k)
  show ?case using Suc.IH[OF tick_evq_ok[OF Suc.prems]] by (simp add: tick_some[OF Suc.prems])
qed

lemma schedule_event_evq_ok:
  assumes "evq_ok s"
  shows "evq_ok (schedule_event cb d n s)"
    and "pending (next_ptr s) (schedule_event cb d n s) =
           Some \<lparr>ev_ptr = next_ptr s, nframes = n, event_cb = cb, ev_data = d\<rparr>"
    and "fired p (schedule_event cb d n s) = fired p s"
proof -
  have "\<forall>e\<in>set (schevent_queue s). ev_ptr e < next_ptr s"
    using assms by (simp add: evq_ok_def list_all_iff)
  then show "evq_ok (schedule_event cb d n s)"
    using assms by (auto simp: evq_ok_def list_all_iff schedule_event_fields)
  show "pending (next_ptr s) (schedule_event cb d n s) =
           Some \<lparr>ev_ptr = next_ptr s, nframes = n, event_cb = cb, ev_data = d\<rparr>"
    by (simp add: pending_def schedule_event_fields)
  show "fired p (schedule_event cb d n s) = fired p s"
    by (simp add: fired_def schedule_event_fields)
qed

text \<open>
  Claim C4, as the code has it. Every tick of a queue whose records have distinct
  addresses has a result; it lowers the counter of every pending record by one, and
  invokes the callback of a record and removes the record exactly when the lowered
  counter is at most zero. An event registered with \<^verbatim>\<open>schedule_event\<close> and a counter
  \<open>n \<ge> 0\<close> stays in the queue, its counter one lower after each tick and its callback
  not invoked, for the first \<open>max 1 n - 1\<close> ticks; tick number \<open>max 1 n\<close> invokes
  \<^verbatim>\<open>callback(payload)\<close> once and removes the record, and no later tick invokes it again.
  For \<open>n \<ge> 1\<close> the callback runs during exactly the \<open>n\<close>-th tick; for \<open>n = 0\<close> during the
  first.
\<close>

theorem schedule_event_fires_in_tick:
  assumes "evq_ok s" and "0 \<le> sint n"
  shows "(\<exists>s'. ticks k (schedule_event cb d n s) = Some s' \<and>
           (int k < max 1 (sint n) \<longrightarrow>
              pending (next_ptr s) s' =
                Some \<lparr>ev_ptr = next_ptr s, nframes = n - of_nat k, event_cb = cb, ev_data = d\<rparr> \<and>
              fired (next_ptr s) s' = fired (next_ptr s) s) \<and>
           (max 1 (sint n) \<le> int k \<longrightarrow>
              pending (next_ptr s) s' = None \<and>
              fired (next_ptr s) s' = Suc (fired (next_ptr s) s) \<and>
              EventCall (next_ptr s) (cb_name cb) d \<in> set (calls s'))) \<and>
         (pending p s = Some e \<longrightarrow>
            (\<exists>s'. tick s = Some s' \<and>
               (if sint (nframes e - 1) \<le> 0
                then pending p s' = None \<and> fired p s' = Suc (fired p s)
                else pending p s' = Some (e\<lparr>nframes := nframes e - 1\<rparr>) \<and>
                     fired p s' = fired p s)))"
proof -
  let ?e = "\<lparr>ev_ptr = next_ptr s, nframes = n, event_cb = cb, ev_data = d\<rparr>"
  note se = schedule_event_evq_ok[OF assms(1), where cb = cb and d = d and n = n]
  have gt: "- (2 ^ 31) < sint (nframes ?e)" using assms(2) by simp
  have r: "ticks k (schedule_event cb d n s) = Some (ticksf k (schedule_event cb d n s))"
    using se(1) by (rule ticks_some)
  have a: "int k < max 1 (sint n) \<Longrightarrow>
            pending (next_ptr s) (ticksf k (schedule_event cb d n s)) =
              Some \<lparr>ev_ptr = next_ptr s, nframes = n - of_nat k, event_cb = cb, ev_data = d\<rparr> \<and>
            fired (next_ptr s) (ticksf k (schedule_event cb d n s)) = fired (next_ptr s) s"
    using ticks_before[OF se(1) se(2), where k = k] se(3)[where p = "next_ptr s"] by simp
  have b: "max 1 (sint n) \<le> int k \<Longrightarrow>
            pending (next_ptr s) (ticksf k (schedule_event cb d n s)) = None \<and>
            fired (next_ptr s) (ticksf k (schedule_event cb d n s)) = Suc (fired (next_ptr s) s) \<and>
            EventCall (next_ptr s) (cb_name cb) d \<in> set (calls (ticksf k (schedule_event cb d n s)))"
    using ticks_from[OF se(1) se(2) gt, where k = k] se(3)[where p = "next_ptr s"]
    by (simp add: call_of_def)
  have c: "\<exists>s'. tick s = Some s' \<and>
               (if sint (nframes e - 1) \<le> 0
                then pending p s' = None \<and> fired p s' = Suc (fired p s)
                else pending p s' = Some (e\<lparr>nframes := nframes e - 1\<rparr>) \<and>
                     fired p s' = fired p s)"
    if pend: "pending p s = Some e"
  proof -
    have "if sint (nframes e - 1) \<le> 0
          then pending p (tickf s) = None \<and> fired p (tickf s) = Suc (fired p s)
          else pending p (tickf s) = Some (e\<lparr>nframes := nframes e - 1\<rparr>) \<and>
               fired p (tickf s) = fired p s"
      using tick_pending[OF assms(1) pend] by (simp add: due_def dec_def)
    thus ?thesis using tick_some[OF assms(1)] by blast
  qed
  show ?thesis using r a b c by blast
qed

lemma evq_ok_init: "evq_ok anim_init"
  by (simp add: evq_ok_def anim_init_def)

lemmas event_eval =
  tick_def scheduled_event_iteration_def seq_loop_Some seq_loop_None link_data_def
  link_next_def schedule_event_def run_event_cb_def redraw_def
  anim_init_def fired_def pending_def Let_def

theorem schedule_event_fires_in_tick_witness:
  "evq_ok anim_init \<and> 0 \<le> sint (2 :: 32 word) \<and>
   map_option (fired 0) (ticks 1 (schedule_event (EventCb 7 []) 3 2 anim_init)) = Some 0 \<and>
   map_option (pending 0) (ticks 1 (schedule_event (EventCb 7 []) 3 2 anim_init)) =
     Some (Some \<lparr>ev_ptr = 0, nframes = 1, event_cb = EventCb 7 [], ev_data = 3\<rparr>) \<and>
   map_option (fired 0) (ticks 2 (schedule_event (EventCb 7 []) 3 2 anim_init)) = Some 1 \<and>
   map_option (pending 0) (ticks 2 (schedule_event (EventCb 7 []) 3 2 anim_init)) = Some None \<and>
   pending 0 (schedule_event (EventCb 7 []) 3 1 anim_init) =
     Some \<lparr>ev_ptr = 0, nframes = 1, event_cb = EventCb 7 [], ev_data = 3\<rparr> \<and>
   map_option (fired 0) (tick (schedule_event (EventCb 7 []) 3 1 anim_init)) = Some 1"
proof -
  have h: "evq_ok anim_init" by (rule evq_ok_init)
  have h2: "0 \<le> sint (2 :: 32 word)" by simp
  have n0: "next_ptr anim_init = 0" and f0: "fired 0 anim_init = 0"
    by (simp_all add: anim_init_def fired_def)
  define s1 where "s1 = schedule_event (EventCb 7 []) 3 (1 :: 32 word) anim_init"
  have h1: "evq_ok s1" unfolding s1_def using h by (rule schedule_event_evq_ok(1))
  have p1: "pending 0 s1 = Some \<lparr>ev_ptr = 0, nframes = 1, event_cb = EventCb 7 [], ev_data = 3\<rparr>"
    and f1: "fired 0 s1 = 0"
    by (simp_all add: s1_def event_eval)
  from schedule_event_fires_in_tick[OF h h2, where k = 1 and cb = "EventCb 7 []" and d = 3]
  have a: "map_option (fired 0) (ticks 1 (schedule_event (EventCb 7 []) 3 2 anim_init)) = Some 0 \<and>
    map_option (pending 0) (ticks 1 (schedule_event (EventCb 7 []) 3 2 anim_init)) =
     Some (Some \<lparr>ev_ptr = 0, nframes = 1, event_cb = EventCb 7 [], ev_data = 3\<rparr>)"
    by (auto simp: n0 f0)
  from schedule_event_fires_in_tick[OF h h2, where k = 2 and cb = "EventCb 7 []" and d = 3]
  have b: "map_option (fired 0) (ticks 2 (schedule_event (EventCb 7 []) 3 2 anim_init)) = Some 1 \<and>
    map_option (pending 0) (ticks 2 (schedule_event (EventCb 7 []) 3 2 anim_init)) = Some None"
    by (auto simp: n0 f0)
  note per_tick = schedule_event_fires_in_tick[OF h1 h2, where p = 0 and k = 0
      and cb = "EventCb 7 []" and d = 3
      and e = "\<lparr>ev_ptr = 0, nframes = 1, event_cb = EventCb 7 [], ev_data = 3\<rparr>",
      THEN conjunct2, rule_format, OF p1]
  have c: "map_option (fired 0) (tick s1) = Some 1"
    using per_tick by (auto simp: f1)
  show ?thesis using h h2 a b c p1 unfolding s1_def by simp
qed

text \<open>
  Claim C4 as stated fails at \<open>n_frames = 0\<close>: after zero ticks the callback has not
  been invoked and the record is still queued; the first tick takes the counter to
  \<open>-1\<close> and invokes the callback.
\<close>

theorem schedule_event_zero_frames_counterexample:
  "map_option (fired 0) (ticks 0 (schedule_event (EventCb 7 []) 3 0 anim_init)) = Some 0 \<and>
   map_option (pending 0) (ticks 0 (schedule_event (EventCb 7 []) 3 0 anim_init)) =
     Some (Some \<lparr>ev_ptr = 0, nframes = 0, event_cb = EventCb 7 [], ev_data = 3\<rparr>) \<and>
   map_option (fired 0) (ticks 1 (schedule_event (EventCb 7 []) 3 0 anim_init)) = Some 1 \<and>
   map_option calls (ticks 1 (schedule_event (EventCb 7 []) 3 0 anim_init)) = Some [EventCall 0 7 3]"
  by (simp add: event_eval)

text \<open>
  The least counter: the decrement of the first tick wraps around to the greatest value,
  so the callback is not invoked in that tick and the record stays queued.
\<close>

lemma schedule_event_least_counter_wraps:
  "map_option (fired 0) (ticks 1 (schedule_event (EventCb 7 []) 3 (- (2 ^ 31)) anim_init)) = Some 0 \<and>
   map_option (pending 0) (ticks 1 (schedule_event (EventCb 7 []) 3 (- (2 ^ 31)) anim_init)) =
     Some (Some \<lparr>ev_ptr = 0, nframes = 2 ^ 31 - 1, event_cb = EventCb 7 [], ev_data = 3\<rparr>)"
  by (simp add: event_eval)

text \<open>
  Claim C10. A tick of a queue whose records have distinct addresses has a result. The
  records allocated during the tick (by the \<^verbatim>\<open>schedule_event\<close> calls of the callbacks that
  ran) are in the queue afterwards with exactly the callback, data and counter they were
  scheduled with, latest first: none was decremented, whatever its counter. No callback
  of such a record is invoked in that tick. Unless its counter is the least \<^verbatim>\<open>int\<close>, it is
  invoked once, in tick number \<open>max 1 n\<close> after the one that created it, so no sooner
  than the next tick.
\<close>

theorem nested_event_waits_for_later_tick:
  assumes "evq_ok s"
  shows "\<exists>s'. tick s = Some s' \<and>
         map (\<lambda>e. (event_cb e, ev_data e, nframes e))
           (filter (\<lambda>e. next_ptr s \<le> ev_ptr e) (schevent_queue s')) =
         rev (concat (map (\<lambda>e. cb_schedules (event_cb e))
                (filter (\<lambda>e. sint (nframes e - 1) \<le> 0) (schevent_queue s)))) \<and>
         (\<forall>p. next_ptr s \<le> p \<longrightarrow> fired p s' = fired p s) \<and>
         (\<forall>e k. e \<in> set (schevent_queue s') \<and> next_ptr s \<le> ev_ptr e \<and>
                 - (2 ^ 31) < sint (nframes e) \<longrightarrow>
            (\<exists>s''. ticks k s' = Some s'' \<and>
               fired (ev_ptr e) s'' =
                 fired (ev_ptr e) s + (if int k < max 1 (sint (nframes e)) then 0 else 1)))"
proof -
  let ?new = "created (next_ptr s) (requests (schevent_queue s))"
  let ?old = "map dec (filter (\<lambda>e. \<not> due e) (schevent_queue s))"
  have bq: "\<forall>e\<in>set (schevent_queue s). ev_ptr e < next_ptr s"
    using assms by (simp add: evq_ok_def list_all_iff)
  have fnew: "filter (\<lambda>e. next_ptr s \<le> ev_ptr e) ?new = ?new"
    using created_ptrs by (fastforce simp: filter_id_conv)
  have fold: "filter (\<lambda>e. next_ptr s \<le> ev_ptr e) ?old = []"
    using bq by (fastforce simp: filter_empty_conv)
  have due_fun: "due = (\<lambda>e. sint (nframes e - 1) \<le> 0)"
    by (simp add: due_def fun_eq_iff)
  have one: "map (\<lambda>e. (event_cb e, ev_data e, nframes e))
           (filter (\<lambda>e. next_ptr s \<le> ev_ptr e) (schevent_queue (tickf s))) =
         rev (concat (map (\<lambda>e. cb_schedules (event_cb e))
                (filter (\<lambda>e. sint (nframes e - 1) \<le> 0) (schevent_queue s))))"
    unfolding tick_char[OF assms] filter_append fnew fold due_fun[symmetric]
    by (simp add: created_triples requests_def)
  have two: "fired q (tickf s) = fired q s" if q: "next_ptr s \<le> q" for q
  proof -
    have "filter (is_call_of q) (map call_of (filter due (schevent_queue s))) = []"
      using bq q by (fastforce simp: filter_empty_conv)
    then show ?thesis
      unfolding fired_def tick_char[OF assms] by simp
  qed
  have ok1: "evq_ok (tickf s)" using assms by (rule tick_evq_ok)
  have three: "\<exists>s''. ticks k (tickf s) = Some s'' \<and>
               fired (ev_ptr e) s'' =
                 fired (ev_ptr e) s + (if int k < max 1 (sint (nframes e)) then 0 else 1)"
    if e: "e \<in> set (schevent_queue (tickf s))" and p: "next_ptr s \<le> ev_ptr e"
      and gt: "- (2 ^ 31) < sint (nframes e)" for e k
  proof -
    have "distinct (map ev_ptr (schevent_queue (tickf s)))" using ok1 by (simp add: evq_ok_def)
    then have pend: "pending (ev_ptr e) (tickf s) = Some e"
      unfolding pending_def using e by (rule find_distinct_ptr)
    have "fired (ev_ptr e) (ticksf k (tickf s)) =
                 fired (ev_ptr e) s + (if int k < max 1 (sint (nframes e)) then 0 else 1)"
    proof (cases "int k < max 1 (sint (nframes e))")
      case True
      thus ?thesis using ticks_before[OF ok1 pend True] two[OF p] by simp
    next
      case False
      hence "max 1 (sint (nframes e)) \<le> int k" by linarith
      from ticks_from[OF ok1 pend gt this] show ?thesis using False two[OF p] by simp
    qed
    thus ?thesis using ticks_some[OF ok1, of k] by blast
  qed
  show ?thesis using tick_some[OF assms] one two three by blast
qed

text \<open>
  In the example state the new record is in the queue after the tick, its counter still
  1, and its callback runs in the tick after.
\<close>

theorem nested_event_waits_for_later_tick_witness:
  "evq_ok nested_example \<and>
   map_option schevent_queue (tick nested_example) =
     Some [\<lparr>ev_ptr = 1, nframes = 1, event_cb = EventCb 2 [], ev_data = 5\<rparr>] \<and>
   map_option calls (tick nested_example) = Some [EventCall 0 1 4] \<and>
   map_option (fired 1) (tick nested_example) = Some 0 \<and>
   map_option (fired 1) (ticks 2 nested_example) = Some 1"
proof -
  have h: "evq_ok nested_example"
    unfolding nested_example_def using evq_ok_init by (rule schedule_event_evq_ok(1))
  have t: "tick nested_example = Some (tickf nested_example)" using h by (rule tick_some)
  have q: "schevent_queue (tickf nested_example) =
     [\<lparr>ev_ptr = 1, nframes = 1, event_cb = EventCb 2 [], ev_data = 5\<rparr>]"
    and c: "calls (tickf nested_example) = [EventCall 0 1 4]"
    and n: "next_ptr nested_example = 1" and f: "fired (Suc 0) nested_example = 0"
    by (simp_all add: tickf_def nested_example_def event_eval)
  from nested_event_waits_for_later_tick[OF h]
  obtain s' where s': "tick nested_example = Some s'"
    and a: "\<forall>p. next_ptr nested_example \<le> p \<longrightarrow> fired p s' = fired p nested_example"
    and b: "\<forall>e k. e \<in> set (schevent_queue s') \<and> next_ptr nested_example \<le> ev_ptr e \<and>
                 - (2 ^ 31) < sint (nframes e) \<longrightarrow>
            (\<exists>s''. ticks k s' = Some s'' \<and>
               fired (ev_ptr e) s'' =
                 fired (ev_ptr e) nested_example + (if int k < max 1 (sint (nframes e)) then 0 else 1))"
    by blast
  have eq: "s' = tickf nested_example" using s' t by simp
  have f1: "fired 1 (tickf nested_example) = 0" using a[rule_format, of 1] by (simp add: eq n f)
  from b[rule_format, of "\<lparr>ev_ptr = 1, nframes = 1, event_cb = EventCb 2 [], ev_data = 5\<rparr>" 1]
  have "\<exists>s''. ticks 1 (tickf nested_example) = Some s'' \<and> fired 1 s'' = 1"
    by (simp add: eq q n f)
  hence f2: "map_option (fired 1) (ticks 2 nested_example) = Some 1"
    by (auto simp: t numeral_2_eq_2)
  show ?thesis using h t q c f1 f2 by simp
qed

section \<open>Properties of the morph queue\<close>

lemma stages_set_last_next: "stages (set_last_next m n) = stages m @ stages n"
  by (induction m n rule: set_last_next.induct) auto

lemma stages_nonempty: "stages m \<noteq> []"
  by (induction m rule: stages.induct) auto

lemma last_morph_stage_last: "last_morph_stage m = last (stages m)"
  by (induction m rule: stages.induct) (auto simp: stages_nonempty)

lemma m_stage_set_last_next: "m_stage (set_last_next m n) = m_stage m"
  by (induction m n rule: set_last_next.induct) auto

lemma morph_full_chained:
  assumes "g_list_find_custom (morph_queue s) v = Some i"
  shows "morph_queue (morph_full v ty target d scb ecb data s) =
           (morph_queue s)[i := set_last_next (morph_queue s ! i)
              (Morph \<lparr>m_type = ty, m_var = v,
                      start_value = end_value (last_morph_stage (morph_queue s ! i)),
                      end_value = target,
                      t_start = t_end (last_morph_stage (morph_queue s ! i)),
                      t_end = t_end (last_morph_stage (morph_queue s ! i)) + d,
                      step_cb = scb, end_cb = ecb, m_data = data\<rparr> None)]"
  using assms by (simp add: morph_full_def xgettime_def Let_def)

lemma find_None_heads: "g_list_find_custom q v = None \<longleftrightarrow> v \<notin> set (heads q)"
  by (induction q) (auto simp: heads_def)

lemma find_Some_take:
  "g_list_find_custom q v = Some i \<Longrightarrow>
     i < length q \<and> m_var (m_stage (q ! i)) = v \<and> v \<notin> set (heads (take i q))"
proof (induction q arbitrary: i)
  case Nil
  then show ?case by simp
next
  case (Cons m ms)
  show ?case
  proof (cases "m_var (m_stage m) = v")
    case True
    then show ?thesis using Cons.prems by (simp add: heads_def)
  next
    case False
    then obtain j where j: "g_list_find_custom ms v = Some j" and i: "i = Suc j"
      using Cons.prems by auto
    show ?thesis using Cons.IH[OF j] False by (simp add: i heads_def)
  qed
qed

lemma chain_ok_set_last_next:
  "chain_ok m \<Longrightarrow> m_var st = m_var (m_stage m) \<Longrightarrow> chain_ok (set_last_next m (Morph st None))"
  by (simp add: chain_ok_def stages_set_last_next m_stage_set_last_next)

lemma heads_update_same:
  "i < length q \<Longrightarrow> m_var (m_stage m) = m_var (m_stage (q ! i)) \<Longrightarrow> heads (q[i := m]) = heads q"
  by (simp add: heads_def map_update list_update_same_conv)

lemma queue_ok_update:
  "queue_ok q \<Longrightarrow> i < length q \<Longrightarrow> chain_ok m \<Longrightarrow>
   m_var (m_stage m) = m_var (m_stage (q ! i)) \<Longrightarrow> queue_ok (q[i := m])"
  unfolding queue_ok_def
  using heads_update_same[of i q m]
  by (auto simp: heads_def list_all_length nth_list_update)

lemma morph_full_queue_ok:
  assumes "queue_ok (morph_queue s)"
  shows "queue_ok (morph_queue (morph_full v ty target d scb ecb data s))"
proof (cases "g_list_find_custom (morph_queue s) v")
  case None
  then have "v \<notin> set (heads (morph_queue s))" by (simp add: find_None_heads)
  then show ?thesis using assms None
    by (simp add: morph_full_def xgettime_def Let_def redraw_def queue_ok_def chain_ok_def heads_def)
next
  case (Some i)
  have i: "i < length (morph_queue s)" and vi: "m_var (m_stage (morph_queue s ! i)) = v"
    using find_Some_take[OF Some] by simp_all
  have ck: "chain_ok (morph_queue s ! i)"
    using assms i by (simp add: queue_ok_def list_all_length)
  show ?thesis
    unfolding morph_full_chained[OF Some]
    by (rule queue_ok_update[OF assms i])
       (simp_all add: chain_ok_set_last_next[OF ck] vi m_stage_set_last_next)
qed

lemma morph_finish_queue_ok:
  assumes "queue_ok (morph_queue s)"
  shows "queue_ok (morph_queue (morph_finish v s))"
proof (cases "g_list_find_custom (morph_queue s) v")
  case None
  then show ?thesis using assms by (simp add: morph_finish_def)
next
  case (Some i)
  have i: "i < length (morph_queue s)"
    using find_Some_take[OF Some] by simp
  obtain st nx where m: "morph_queue s ! i = Morph st nx" by (cases "morph_queue s ! i") auto
  have ck: "chain_ok (Morph st nx)"
    using assms i m by (simp add: queue_ok_def list_all_length) metis
  have ck': "chain_ok (Morph (st\<lparr>t_end := 0\<rparr>) nx)"
    using ck by (cases nx) (simp_all add: chain_ok_def)
  have "queue_ok ((morph_queue s)[i := Morph (st\<lparr>t_end := 0\<rparr>) nx])"
    by (rule queue_ok_update[OF assms i ck']) (simp add: m)
  then show ?thesis by (simp add: morph_finish_def Some m)
qed

lemma filter_distinct_head:
  "distinct (heads q) \<Longrightarrow> g_list_find_custom q v = Some i \<Longrightarrow>
   take i q @ drop (Suc i) q = filter (\<lambda>m. m_var (m_stage m) \<noteq> v) q"
proof (induction q arbitrary: i)
  case Nil
  then show ?case by simp
next
  case (Cons m ms)
  show ?case
  proof (cases "m_var (m_stage m) = v")
    case True
    then have "v \<notin> set (heads ms)" using Cons.prems(1) by (simp add: heads_def)
    then have "filter (\<lambda>m. m_var (m_stage m) \<noteq> v) ms = ms"
      by (auto simp: heads_def filter_id_conv)
    then show ?thesis using True Cons.prems(2) by simp
  next
    case False
    then obtain j where j: "g_list_find_custom ms v = Some j" and i: "i = Suc j"
      using Cons.prems by auto
    have "distinct (heads ms)" using Cons.prems(1) by (simp add: heads_def)
    from Cons.IH[OF this j] show ?thesis using False by (simp add: i)
  qed
qed

lemma filter_absent_head:
  "g_list_find_custom q v = None \<Longrightarrow> filter (\<lambda>m. m_var (m_stage m) \<noteq> v) q = q"
  by (auto simp: find_None_heads heads_def filter_id_conv)

lemma morph_break_eq:
  assumes "queue_ok (morph_queue s)"
  shows "morph_break v s = s\<lparr>morph_queue := filter (\<lambda>m. m_var (m_stage m) \<noteq> v) (morph_queue s)\<rparr>"
proof (cases "g_list_find_custom (morph_queue s) v")
  case None
  then show ?thesis by (simp add: morph_break_def filter_absent_head)
next
  case (Some i)
  have "distinct (heads (morph_queue s))" using assms by (simp add: queue_ok_def heads_def)
  from filter_distinct_head[OF this Some] show ?thesis
    by (simp add: morph_break_def Some)
qed

lemma queue_ok_filter: "queue_ok q \<Longrightarrow> queue_ok (filter P q)"
  by (auto simp: queue_ok_def list_all_iff distinct_map_filter)

lemma morph_break_queue_ok:
  "queue_ok (morph_queue s) \<Longrightarrow> queue_ok (morph_queue (morph_break v s))"
  by (simp add: morph_break_eq queue_ok_filter)

lemma chain_ok_stage_var:
  "chain_ok m \<Longrightarrow> st \<in> set (stages m) \<Longrightarrow> m_var st = m_var (m_stage m)"
  by (simp add: chain_ok_def list_all_iff)

lemma m_stage_in_stages: "m_stage m \<in> set (stages m)"
  by (induction m rule: stages.induct) auto

lemma chain_ok_next:
  assumes "chain_ok (Morph st (Some m'))"
  shows "chain_ok m' \<and> m_var (m_stage m') = m_var st"
proof -
  have all: "\<forall>x\<in>set (stages m'). m_var x = m_var st"
    using assms by (simp add: chain_ok_def list_all_iff)
  then have "m_var (m_stage m') = m_var st" using m_stage_in_stages by blast
  then show ?thesis using all by (simp add: chain_ok_def list_all_iff)
qed

lemma morph_link_other:
  "chain_ok m \<Longrightarrow> m_var (m_stage m) \<noteq> v \<Longrightarrow>
   dvars (snd (morph_link t m s)) v = dvars s v \<and>
   filter (is_end_call_on v) (calls (snd (morph_link t m s))) = filter (is_end_call_on v) (calls s)"
proof (induction t m s rule: morph_link.induct)
  case (1 t_now st nx s)
  show ?case
  proof (cases "t_now \<ge> t_end st")
    case False
    then show ?thesis using "1.prems" by (simp add: Let_def split: option.splits)
  next
    case True
    note due = True
    show ?thesis
    proof (cases nx)
      case None
      then show ?thesis using "1.prems" due by (simp add: Let_def split: option.splits)
    next
      case (Some m')
      have ck: "chain_ok m'" and hv: "m_var (m_stage m') = m_var st"
        using chain_ok_next "1.prems"(1) Some by blast+
      define s1 where "s1 = s\<lparr>dvars := (dvars s)(m_var st := end_value st)\<rparr>"
      define s2 where "s2 = (case end_cb st of None \<Rightarrow> s1 | Some cb \<Rightarrow> s1\<lparr>calls := calls s1 @ [EndCall cb st]\<rparr>)"
      have ih: "dvars (snd (morph_link t_now m' s2)) v = dvars s2 v \<and>
        filter (is_end_call_on v) (calls (snd (morph_link t_now m' s2))) = filter (is_end_call_on v) (calls s2)"
        using "1.IH"[OF due s1_def s2_def Some ck] hv "1.prems"(2) by simp
      have step: "morph_link t_now (Morph st nx) s = morph_link t_now m' s2"
        using due Some by (simp add: Let_def s1_def s2_def split: option.splits)
      have d2: "dvars s2 v = dvars s v" using "1.prems"(2)
        by (simp add: s2_def s1_def split: option.splits)
      have c2: "filter (is_end_call_on v) (calls s2) = filter (is_end_call_on v) (calls s)"
        using "1.prems"(2) by (simp add: s2_def s1_def split: option.splits)
      show ?thesis unfolding step using ih d2 c2 by simp
    qed
  qed
qed

lemma morph_link_result:
  "chain_ok m \<Longrightarrow> fst (morph_link t m s) = Some m' \<Longrightarrow>
   chain_ok m' \<and> m_var (m_stage m') = m_var (m_stage m)"
proof (induction t m s rule: morph_link.induct)
  case (1 t_now st nx s)
  show ?case
  proof (cases "t_now \<ge> t_end st")
    case False
    then show ?thesis using "1.prems" by (auto simp: Let_def split: option.splits)
  next
    case True
    note due = True
    show ?thesis
    proof (cases nx)
      case None
      then show ?thesis using "1.prems" due by (simp add: Let_def split: option.splits)
    next
      case (Some n)
      have ck: "chain_ok n" and hv: "m_var (m_stage n) = m_var st"
        using chain_ok_next "1.prems"(1) Some by blast+
      define s1 where "s1 = s\<lparr>dvars := (dvars s)(m_var st := end_value st)\<rparr>"
      define s2 where "s2 = (case end_cb st of None \<Rightarrow> s1 | Some cb \<Rightarrow> s1\<lparr>calls := calls s1 @ [EndCall cb st]\<rparr>)"
      have step: "morph_link t_now (Morph st nx) s = morph_link t_now n s2"
        using due Some by (simp add: Let_def s1_def s2_def split: option.splits)
      have "fst (morph_link t_now n s2) = Some m'" using "1.prems"(2) step by simp
      from "1.IH"[OF due s1_def s2_def Some ck this] show ?thesis using hv by simp
    qed
  qed
qed

lemma morph_loop_Cons:
  "morph_loop t (m # ms) s =
     (case fst (morph_link t m s) of
        None \<Rightarrow> fst (morph_loop t ms (snd (morph_link t m s)))
      | Some m' \<Rightarrow> m' # fst (morph_loop t ms (snd (morph_link t m s))),
      snd (morph_loop t ms (snd (morph_link t m s))))"
  by (simp add: split_beta Let_def)

lemma morph_loop_other:
  "list_all chain_ok q \<Longrightarrow> v \<notin> set (heads q) \<Longrightarrow>
   dvars (snd (morph_loop t q s)) v = dvars s v \<and>
   filter (is_end_call_on v) (calls (snd (morph_loop t q s))) = filter (is_end_call_on v) (calls s)"
proof (induction q arbitrary: s)
  case Nil
  then show ?case by simp
next
  case (Cons m ms)
  have ck: "chain_ok m" and hv: "m_var (m_stage m) \<noteq> v"
    and rest: "list_all chain_ok ms" "v \<notin> set (heads ms)"
    using Cons.prems by (auto simp: heads_def)
  show ?case
    unfolding morph_loop_Cons
    using Cons.IH[OF rest, of "snd (morph_link t m s)"] morph_link_other[OF ck hv, of t s]
    by simp
qed

lemma morph_loop_heads:
  "list_all chain_ok q \<Longrightarrow>
   list_all chain_ok (fst (morph_loop t q s)) \<and>
   set (heads (fst (morph_loop t q s))) \<subseteq> set (heads q) \<and>
   (distinct (heads q) \<longrightarrow> distinct (heads (fst (morph_loop t q s))))"
proof (induction q arbitrary: s)
  case Nil
  then show ?case by (simp add: heads_def)
next
  case (Cons m ms)
  have ck: "chain_ok m" and rest: "list_all chain_ok ms"
    using Cons.prems by auto
  note ih = Cons.IH[OF rest, of "snd (morph_link t m s)"]
  show ?case
  proof (cases "fst (morph_link t m s)")
    case None
    then show ?thesis unfolding morph_loop_Cons using ih by (auto simp: heads_def)
  next
    case (Some m')
    have "chain_ok m' \<and> m_var (m_stage m') = m_var (m_stage m)"
      using morph_link_result[OF ck Some] .
    then show ?thesis unfolding morph_loop_Cons using ih Some by (auto simp: heads_def)
  qed
qed

lemma morph_iteration_queue_ok:
  assumes "queue_ok (morph_queue s)"
  shows "queue_ok (morph_queue (snd (morph_iteration s)))"
proof -
  have ck: "list_all chain_ok (morph_queue s)" and d: "distinct (heads (morph_queue s))"
    using assms by (simp_all add: queue_ok_def heads_def)
  show ?thesis
    using morph_loop_heads[OF ck, of "clock s (clock_reads s)" "s\<lparr>clock_reads := Suc (clock_reads s)\<rparr>"] d
    by (simp add: morph_iteration_def xgettime_def split_beta queue_ok_def heads_def)
qed

text \<open>
  Claim C2. When the variable is already being morphed, \<^verbatim>\<open>morph_full\<close> leaves every
  record of the queue and every existing stage as it is and appends one stage to the
  record on that variable: it starts when the last existing stage ends and at the value
  that stage ends with, and lasts \<open>duration\<close>. The variable itself is not written and no
  callback is invoked.
\<close>

theorem morph_full_appends_stage:
  assumes "g_list_find_custom (morph_queue s) v = Some i"
  shows "length (morph_queue (morph_full v ty target d scb ecb data s)) = length (morph_queue s) \<and>
         (j \<noteq> i \<longrightarrow> morph_queue (morph_full v ty target d scb ecb data s) ! j = morph_queue s ! j) \<and>
         stages (morph_queue (morph_full v ty target d scb ecb data s) ! i) =
           stages (morph_queue s ! i) @
           [\<lparr>m_type = ty, m_var = v,
             start_value = end_value (last (stages (morph_queue s ! i))),
             end_value = target,
             t_start = t_end (last (stages (morph_queue s ! i))),
             t_end = t_end (last (stages (morph_queue s ! i))) + d,
             step_cb = scb, end_cb = ecb, m_data = data\<rparr>] \<and>
         dvars (morph_full v ty target d scb ecb data s) = dvars s \<and>
         calls (morph_full v ty target d scb ecb data s) = calls s"
proof -
  have i: "i < length (morph_queue s)" using find_Some_take[OF assms] by simp
  have "dvars (morph_full v ty target d scb ecb data s) = dvars s"
       "calls (morph_full v ty target d scb ecb data s) = calls s"
    using assms by (simp_all add: morph_full_def xgettime_def Let_def)
  then show ?thesis
    unfolding morph_full_chained[OF assms]
    using i by (simp add: stages_set_last_next last_morph_stage_last)
qed

text \<open>
  An example: a second morph on a variable that is being morphed from 0 to 1 over two
  seconds (clock reading 0) becomes the second stage, from 1 to 5 between the times 2
  and 5.
\<close>

theorem morph_full_appends_stage_witness:
  "g_list_find_custom (morph_queue (morph (GlobalVar 0) MORPH_LINEAR 1 2 anim_init)) (GlobalVar 0) = Some 0 \<and>
   stages (morph_queue (morph_full (GlobalVar 0) MORPH_SIGMOID 5 3 None (Some 1) 0
             (morph (GlobalVar 0) MORPH_LINEAR 1 2 anim_init)) ! 0) =
     [\<lparr>m_type = MORPH_LINEAR, m_var = GlobalVar 0, start_value = 0, end_value = 1,
        t_start = 0, t_end = 2, step_cb = None, end_cb = None, m_data = 0\<rparr>,
      \<lparr>m_type = MORPH_SIGMOID, m_var = GlobalVar 0, start_value = 1, end_value = 5,
        t_start = 2, t_end = 5, step_cb = None, end_cb = Some 1, m_data = 0\<rparr>]"
proof -
  have q: "morph_queue (morph (GlobalVar 0) MORPH_LINEAR 1 2 anim_init) =
     [Morph \<lparr>m_type = MORPH_LINEAR, m_var = GlobalVar 0, start_value = 0, end_value = 1,
        t_start = 0, t_end = 2, step_cb = None, end_cb = None, m_data = 0\<rparr> None]"
    by (simp add: morph_def morph_full_def xgettime_def redraw_def anim_init_def Let_def)
  have h: "g_list_find_custom (morph_queue (morph (GlobalVar 0) MORPH_LINEAR 1 2 anim_init)) (GlobalVar 0) = Some 0"
    by (simp add: q)
  show ?thesis
    using h morph_full_appends_stage[OF h, where j = 0 and ty = MORPH_SIGMOID and target = 5
        and d = 3 and scb = None and ecb = "Some 1" and data = 0]
    by (simp add: q)
qed

text \<open>
  Claim C3. In a well-formed queue, \<^verbatim>\<open>morph_break\<close> changes nothing but the morph
  queue, from which the record on the variable is gone with all its stages: no stage on
  the variable remains, the variable keeps its value and no callback is invoked. When
  the variable is not being morphed the state is unchanged.
\<close>

theorem morph_break_discards:
  assumes "queue_ok (morph_queue s)"
  shows "morph_break v s = s\<lparr>morph_queue := filter (\<lambda>m. m_var (m_stage m) \<noteq> v) (morph_queue s)\<rparr> \<and>
         (\<forall>m\<in>set (morph_queue (morph_break v s)). \<forall>st\<in>set (stages m). m_var st \<noteq> v) \<and>
         dvars (morph_break v s) = dvars s \<and>
         calls (morph_break v s) = calls s \<and>
         (g_list_find_custom (morph_queue s) v = None \<longrightarrow> morph_break v s = s)"
proof -
  have eq: "morph_break v s = s\<lparr>morph_queue := filter (\<lambda>m. m_var (m_stage m) \<noteq> v) (morph_queue s)\<rparr>"
    using assms by (rule morph_break_eq)
  have "\<forall>m\<in>set (filter (\<lambda>m. m_var (m_stage m) \<noteq> v) (morph_queue s)). \<forall>st\<in>set (stages m). m_var st \<noteq> v"
  proof (intro ballI)
    fix m st
    assume m: "m \<in> set (filter (\<lambda>m. m_var (m_stage m) \<noteq> v) (morph_queue s))"
       and st: "st \<in> set (stages m)"
    have "chain_ok m" using assms m by (simp add: queue_ok_def list_all_iff)
    then have "m_var st = m_var (m_stage m)" using st by (rule chain_ok_stage_var)
    then show "m_var st \<noteq> v" using m by simp
  qed
  moreover have "g_list_find_custom (morph_queue s) v = None \<longrightarrow> morph_break v s = s"
    by (simp add: morph_break_def)
  moreover have "dvars (morph_break v s) = dvars s" "calls (morph_break v s) = calls s"
    unfolding eq by simp_all
  ultimately show ?thesis
    using eq by simp
qed

lemma queue_ok_init: "queue_ok (morph_queue anim_init)"
  by (simp add: queue_ok_def anim_init_def)

theorem morph_break_discards_witness:
  "queue_ok (morph_queue (morph (GlobalVar 0) MORPH_LINEAR 1 2 anim_init)) \<and>
   morph_queue (morph_break (GlobalVar 0) (morph (GlobalVar 0) MORPH_LINEAR 1 2 anim_init)) = [] \<and>
   dvars (morph_break (GlobalVar 0) (morph (GlobalVar 0) MORPH_LINEAR 1 2 anim_init)) (GlobalVar 0) = 0 \<and>
   calls (morph_break (GlobalVar 0) (morph (GlobalVar 0) MORPH_LINEAR 1 2 anim_init)) = []"
proof -
  have h: "queue_ok (morph_queue (morph (GlobalVar 0) MORPH_LINEAR 1 2 anim_init))"
    unfolding morph_def using queue_ok_init by (rule morph_full_queue_ok)
  have q: "morph_queue (morph (GlobalVar 0) MORPH_LINEAR 1 2 anim_init) =
     [Morph \<lparr>m_type = MORPH_LINEAR, m_var = GlobalVar 0, start_value = 0, end_value = 1,
        t_start = 0, t_end = 2, step_cb = None, end_cb = None, m_data = 0\<rparr> None]"
    and d: "dvars (morph (GlobalVar 0) MORPH_LINEAR 1 2 anim_init) = (\<lambda>v. 0)"
    and c: "calls (morph (GlobalVar 0) MORPH_LINEAR 1 2 anim_init) = []"
    by (simp_all add: morph_def morph_full_def xgettime_def redraw_def anim_init_def Let_def)
  show ?thesis
    using h morph_break_discards[OF h, of "GlobalVar 0"]
    by (simp add: q d c)
qed

text \<open>
  What \<^verbatim>\<open>morph_finish\<close> does. For a variable that is not being morphed it changes
  nothing. After a morph on the variable has been started and \<^verbatim>\<open>morph_finish\<close> called, it
  takes one run of \<^verbatim>\<open>morph_iteration\<close> (at a clock reading that is not negative) to leave
  the variable at the target, invoke the completion callback (once if there is one, not
  at all if there is none, as for \<^verbatim>\<open>morph\<close>) and remove the record.
\<close>

lemma morph_finish_completes_at_next_iteration:
  assumes ok: "queue_ok (morph_queue s)"
      and fresh: "g_list_find_custom (morph_queue s) v = None"
      and clk: "0 \<le> clock s (Suc (clock_reads s))"
  shows "morph_finish v s = s \<and>
         (let s1 = morph_full v ty target d scb ecb data s;
              s2 = morph_finish v s1;
              s3 = snd (morph_iteration s2)
          in dvars s3 v = target \<and>
             end_calls_on v s3 = end_calls_on v s + (if ecb = None then 0 else 1) \<and>
             g_list_find_custom (morph_queue s3) v = None)"
proof -
  define st where "st = \<lparr>m_type = ty, m_var = v, start_value = dvars s v,
                       end_value = target, t_start = clock s (clock_reads s),
                       t_end = clock s (clock_reads s) + d,
                       step_cb = scb, end_cb = ecb, m_data = data\<rparr>"
  define s1 where "s1 = morph_full v ty target d scb ecb data s"
  define s2 where "s2 = morph_finish v s1"
  define t where "t = clock s (Suc (clock_reads s))"
  have q1: "morph_queue s1 = Morph st None # morph_queue s"
    and r1: "clock_reads s1 = Suc (clock_reads s)" and k1: "clock s1 = clock s"
    and d1: "dvars s1 = dvars s" and c1: "calls s1 = calls s"
    using fresh by (simp_all add: s1_def morph_full_def xgettime_def Let_def redraw_def st_def)
  have vst: "m_var st = v" by (simp add: st_def)
  have f1: "g_list_find_custom (morph_queue s1) v = Some 0"
    by (simp add: q1 vst)
  have q2: "morph_queue s2 = Morph (st\<lparr>t_end := 0\<rparr>) None # morph_queue s"
    and r2: "clock_reads s2 = Suc (clock_reads s)" and k2: "clock s2 = clock s"
    and d2: "dvars s2 = dvars s" and c2: "calls s2 = calls s"
    unfolding s2_def morph_finish_def f1 by (simp_all add: q1 r1 k1 d1 c1)
  define s2' where "s2' = s2\<lparr>clock_reads := Suc (clock_reads s2)\<rparr>"
  define sa where "sa = s2'\<lparr>dvars := (dvars s2')(v := target)\<rparr>"
  define sb where "sb = (case ecb of None \<Rightarrow> sa | Some cb \<Rightarrow> sa\<lparr>calls := calls sa @ [EndCall cb (st\<lparr>t_end := 0\<rparr>)]\<rparr>)"
  have link: "morph_link t (Morph (st\<lparr>t_end := 0\<rparr>) None) s2' = (None, sb)"
    using clk by (simp add: t_def Let_def sb_def sa_def st_def split: option.splits)
  have ck: "list_all chain_ok (morph_queue s)" and vq: "v \<notin> set (heads (morph_queue s))"
    using ok fresh by (simp_all add: queue_ok_def find_None_heads)
  note other = morph_loop_other[OF ck vq, of t sb]
  note hds = morph_loop_heads[OF ck, of t sb]
  have loop: "morph_loop t (morph_queue s2) s2' = morph_loop t (morph_queue s) sb"
    unfolding q2 morph_loop_Cons link by simp
  have it0: "snd (morph_iteration s2) =
              (snd (morph_loop t (morph_queue s2) s2'))\<lparr>morph_queue := fst (morph_loop t (morph_queue s2) s2')\<rparr>"
    by (simp add: morph_iteration_def xgettime_def split_beta s2'_def t_def r2 k2)
  have it: "snd (morph_iteration s2) =
              (snd (morph_loop t (morph_queue s) sb))\<lparr>morph_queue := fst (morph_loop t (morph_queue s) sb)\<rparr>"
    unfolding it0 loop ..
  have dsb: "dvars sb v = target"
    by (simp add: sb_def sa_def split: option.splits)
  have csb: "filter (is_end_call_on v) (calls sb) =
             filter (is_end_call_on v) (calls s) @ (case ecb of None \<Rightarrow> [] | Some cb \<Rightarrow> [EndCall cb (st\<lparr>t_end := 0\<rparr>)])"
    by (simp add: sb_def sa_def s2'_def c2 st_def split: option.splits)
  have a: "dvars (snd (morph_iteration s2)) v = target"
    unfolding it using other dsb by simp
  have b: "end_calls_on v (snd (morph_iteration s2)) = end_calls_on v s + (if ecb = None then 0 else 1)"
    unfolding it end_calls_on_def using other csb by (simp split: option.splits)
  have c: "g_list_find_custom (morph_queue (snd (morph_iteration s2))) v = None"
    unfolding it find_None_heads using hds vq by auto
  have "morph_finish v s = s" using fresh by (simp add: morph_finish_def)
  then show ?thesis using a b c by (simp add: Let_def s1_def s2_def)
qed

lemma morph_finish_completes_at_next_iteration_example:
  "queue_ok (morph_queue anim_init) \<and>
   g_list_find_custom (morph_queue anim_init) (GlobalVar 0) = None \<and>
   0 \<le> clock anim_init (Suc (clock_reads anim_init)) \<and>
   dvars (snd (morph_iteration (morph_finish (GlobalVar 0)
            (morph_full (GlobalVar 0) MORPH_LINEAR 1 2 None (Some 7) 0 anim_init)))) (GlobalVar 0) = 1 \<and>
   end_calls_on (GlobalVar 0) (snd (morph_iteration (morph_finish (GlobalVar 0)
            (morph_full (GlobalVar 0) MORPH_LINEAR 1 2 None (Some 7) 0 anim_init)))) = 1"
proof -
  have h1: "queue_ok (morph_queue anim_init)" by (rule queue_ok_init)
  have h2: "g_list_find_custom (morph_queue anim_init) (GlobalVar 0) = None"
    by (simp add: anim_init_def)
  have h3: "0 \<le> clock anim_init (Suc (clock_reads anim_init))"
    by (simp add: anim_init_def)
  have e0: "end_calls_on (GlobalVar 0) anim_init = 0"
    by (simp add: end_calls_on_def anim_init_def)
  show ?thesis
    using h1 h2 h3
      morph_finish_completes_at_next_iteration[OF h1 h2 h3, where ty = MORPH_LINEAR
        and target = 1 and d = 2 and scb = None and ecb = "Some 7" and data = 0]
    by (simp add: Let_def e0)
qed

text \<open>
  Claim C1. The comment above \<^verbatim>\<open>morph_finish\<close> says that the ongoing morph finishes
  immediately: the variable is set to its final value, and the end callback is called.
  The body only writes \<^verbatim>\<open>t_end = 0.0\<close> into the queued record. At program start, after
  \<^verbatim>\<open>morph\<close> (or \<^verbatim>\<open>morph_full\<close> with a completion callback) on a variable with target 1 and
  duration 1, followed by \<^verbatim>\<open>morph_finish\<close> on it: when \<^verbatim>\<open>morph_finish\<close> returns, the
  variable still has its old value 0, no callback has been invoked, and the record is
  still in the queue.
\<close>

theorem morph_finish_not_immediate:
  "dvars (morph_finish (GlobalVar 0) (morph (GlobalVar 0) MORPH_LINEAR 1 1 anim_init)) (GlobalVar 0) \<noteq> 1 \<and>
   calls (morph_finish (GlobalVar 0) (morph (GlobalVar 0) MORPH_LINEAR 1 1 anim_init)) = [] \<and>
   calls (morph_finish (GlobalVar 0)
            (morph_full (GlobalVar 0) MORPH_LINEAR 1 1 None (Some 7) 0 anim_init)) = [] \<and>
   dvars (morph_finish (GlobalVar 0)
            (morph_full (GlobalVar 0) MORPH_LINEAR 1 1 None (Some 7) 0 anim_init)) (GlobalVar 0) = 0 \<and>
   g_list_find_custom (morph_queue (morph_finish (GlobalVar 0)
            (morph_full (GlobalVar 0) MORPH_LINEAR 1 1 None (Some 7) 0 anim_init))) (GlobalVar 0) = Some 0"
  by (simp add: morph_def morph_finish_def morph_full_def xgettime_def redraw_def anim_init_def Let_def)

section \<open>Properties of the draw stages\<close>

lemma gl_emit_frame [simp]: "draw_frame (gl_emit cs s) = draw_frame s"
  by (simp add: draw_frame_def gl_emit_def)

lemma dlist_a_frame [simp]: "draw_frame (mapv_draw_dlist_a dnode c s) = draw_frame s"
  by (simp add: mapv_draw_dlist_a_def draw_frame_def gl_emit_def glGenLists_def Let_def)

lemma dlist_b_frame [simp]: "draw_frame (mapv_draw_dlist_b dnode c s) = draw_frame s"
  by (simp add: mapv_draw_dlist_b_def draw_frame_def gl_emit_def glGenLists_def Let_def)

lemma geom_expanded_frame [simp]: "draw_frame (s\<lparr>geom_expanded := g\<rparr>) = draw_frame s"
  by (simp add: draw_frame_def)





lemma gl_emit_fields [simp]:
  "fstree_low_draw_stage (gl_emit cs s) = fstree_low_draw_stage s"
  "fstree_high_draw_stage (gl_emit cs s) = fstree_high_draw_stage s"
  "fstree_low_dlist (gl_emit cs s) = fstree_low_dlist s"
  "fstree_high_dlist (gl_emit cs s) = fstree_high_dlist s"
  "fstree (gl_emit cs s) = fstree s"
  "dvars (gl_emit cs s) = dvars s"
  by (simp_all add: gl_emit_def fstree_def)







lemma fstree_stage_update [simp]:
  "fstree (s\<lparr>fstree_low_draw_stage := x\<rparr>) = fstree s"
  "fstree (s\<lparr>fstree_high_draw_stage := x\<rparr>) = fstree s"
  by (simp_all add: fstree_def)



section \<open>Properties of the MapV layout\<close>

lemma border_quadratic:
  fixes y A a :: real
  assumes y: "0 < y" and a: "0 < a"
  defines "x \<equiv> A / y"
  defines "k \<equiv> x + y"
  defines "b \<equiv> 0.25 * (k - sqrt (SQR k - 4 * (A - a)))"
  shows "(x - 2 * b) * (y - 2 * b) = a" and "0 < x - 2 * b" and "0 < y - 2 * b"
proof -
  have xy: "x * y = A" using y by (simp add: x_def)
  define D where "D = SQR k - 4 * (A - a)"
  have D: "D = (x - y)\<^sup>2 + 4 * a"
    unfolding D_def k_def SQR_def xy[symmetric] by (simp add: power2_eq_square algebra_simps)
  have Dpos: "0 < D" unfolding D using a by (simp add: add_nonneg_pos)
  define s where "s = sqrt D"
  have s2: "s * s = D" unfolding s_def using Dpos by simp
  have spos: "0 < s" unfolding s_def using Dpos by simp
  have sgt: "\<bar>x - y\<bar> < s"
  proof -
    have "\<bar>x - y\<bar>\<^sup>2 < D" unfolding D using a by simp
    then show ?thesis unfolding s_def by (rule real_less_rsqrt)
  qed
  have b': "b = 0.25 * (k - s)" unfolding b_def s_def D_def ..
  have bx: "x - 2 * b = (x - y + s) / 2" and bw: "y - 2 * b = (y - x + s) / 2"
    unfolding b' k_def by (simp_all add: field_simps)
  have "(x - 2 * b) * (y - 2 * b) = ((x - y + s) / 2) * ((y - x + s) / 2)"
    by (simp only: bx bw)
  also have "\<dots> = (s * s - (x - y) * (x - y)) / 4"
    by (simp add: algebra_simps)
  also have "\<dots> = a" unfolding s2 D by (simp add: power2_eq_square)
  finally show "(x - 2 * b) * (y - 2 * b) = a" .
  show "0 < x - 2 * b" using sgt unfolding bx by simp
  show "0 < y - 2 * b" using sgt unfolding bw by simp
qed

lemma mapv_output_row_footprint:
  assumes "0 < dy" and "0 < sf"
      and "list_all (\<lambda>b. 0 < block_area b \<and> 0 < mapv_node_size (block_node b)) bs"
      and "(node, p0, p1) \<in> set (mapv_output_row sf dy px py bs)"
  shows "0 < vx p1 - vx p0 \<and> 0 < vy p1 - vy p0 \<and>
         (vx p1 - vx p0) * (vy p1 - vy p0) = sf * real_of_int (mapv_node_size node)"
  using assms(3,4)
proof (induction bs arbitrary: px)
  case Nil
  then show ?case by simp
next
  case (Cons block bs)
  define a where "a = sf * real_of_int (mapv_node_size (block_node block))"
  have apos: "0 < a" using Cons.prems(1) assms(2) by (simp add: a_def)
  note q = border_quadratic[OF assms(1) apos, of "block_area block"]
  show ?case
  proof (cases "(node, p0, p1) \<in> set (mapv_output_row sf dy (px - block_area block / dy) py bs)")
    case True
    then show ?thesis using Cons.IH[of "px - block_area block / dy"] Cons.prems(1) by simp
  next
    case False
    then have eq: "node = block_node block"
      "p0 = \<lparr>vx = px - block_area block / dy +
                 0.25 * (block_area block / dy + dy -
                   sqrt (SQR (block_area block / dy + dy) - 4 * (block_area block - a))),
             vy = py - dy +
                 0.25 * (block_area block / dy + dy -
                   sqrt (SQR (block_area block / dy + dy) - 4 * (block_area block - a)))\<rparr>"
      "p1 = \<lparr>vx = px - 0.25 * (block_area block / dy + dy -
                   sqrt (SQR (block_area block / dy + dy) - 4 * (block_area block - a))),
             vy = py - 0.25 * (block_area block / dy + dy -
                   sqrt (SQR (block_area block / dy + dy) - 4 * (block_area block - a)))\<rparr>"
      using Cons.prems(2) by (simp_all add: Let_def a_def)
    have w: "vx p1 - vx p0 = block_area block / dy - 2 * (0.25 * (block_area block / dy + dy -
                   sqrt (SQR (block_area block / dy + dy) - 4 * (block_area block - a))))"
      and d: "vy p1 - vy p0 = dy - 2 * (0.25 * (block_area block / dy + dy -
                   sqrt (SQR (block_area block / dy + dy) - 4 * (block_area block - a))))"
      unfolding eq by simp_all
    show ?thesis unfolding w d using q unfolding eq(1) a_def by blast
  qed
qed

lemma mapv_fourth_pass_footprint:
  assumes "0 < w" and "0 < sf"
      and "list_all (\<lambda>r. 0 < row_area r \<and>
              list_all (\<lambda>b. 0 < block_area b \<and> 0 < mapv_node_size (block_node b)) (row_blocks r)) rows"
      and "(node, p0, p1) \<in> set (mapv_fourth_pass sf w sx py rows)"
  shows "0 < vx p1 - vx p0 \<and> 0 < vy p1 - vy p0 \<and>
         (vx p1 - vx p0) * (vy p1 - vy p0) = sf * real_of_int (mapv_node_size node)"
  using assms(3,4)
proof (induction rows arbitrary: py)
  case Nil
  then show ?case by simp
next
  case (Cons row rows)
  have dy: "0 < row_area row / w" using Cons.prems(1) assms(1) by simp
  have bs: "list_all (\<lambda>b. 0 < block_area b \<and> 0 < mapv_node_size (block_node b)) (row_blocks row)"
    using Cons.prems(1) by simp
  from Cons.prems(2) consider
    "(node, p0, p1) \<in> set (mapv_output_row sf (row_area row / w) sx py (row_blocks row))" |
    "(node, p0, p1) \<in> set (mapv_fourth_pass sf w sx (py - row_area row / w) rows)"
    by (auto simp: Let_def)
  then show ?case
  proof cases
    case 1
    then show ?thesis using mapv_output_row_footprint[OF dy assms(2) bs] by blast
  next
    case 2
    then show ?thesis using Cons.IH[of "py - row_area row / w"] Cons.prems(1) by simp
  qed
qed

lemma mapv_second_pass_rows:
  assumes "0 < sf"
      and "list_all (\<lambda>b. 0 < block_area b \<and> 0 < mapv_node_size (block_node b)) bs"
      and "list_all (\<lambda>r. 0 < row_area r \<and>
              list_all (\<lambda>b. 0 < block_area b \<and> 0 < mapv_node_size (block_node b)) (row_blocks r))
             (row_list @ (case row of None \<Rightarrow> [] | Some r \<Rightarrow> [r]))"
  shows "list_all (\<lambda>r. 0 < row_area r \<and>
              list_all (\<lambda>b. 0 < block_area b \<and> 0 < mapv_node_size (block_node b)) (row_blocks r))
           (mapv_second_pass sf w bs row_list row)"
  using assms(2,3)
proof (induction bs arbitrary: row_list row)
  case Nil
  then show ?case by simp
next
  case (Cons b bs)
  define block where "block = b\<lparr>block_area := block_area b * sf\<rparr>"
  define r0 where "r0 = (case row of None \<Rightarrow> \<lparr>row_blocks = [], row_area = 0\<rparr> | Some r \<Rightarrow> r)"
  define r1 where "r1 = r0\<lparr>row_blocks := row_blocks r0 @ [block], row_area := row_area r0 + block_area block\<rparr>"
  have bpos: "0 < block_area block \<and> 0 < mapv_node_size (block_node block)"
    using Cons.prems(1) assms(1) by (simp add: block_def)
  have r0ok: "0 \<le> row_area r0 \<and> list_all (\<lambda>b. 0 < block_area b \<and> 0 < mapv_node_size (block_node b)) (row_blocks r0)"
    using Cons.prems(2) by (cases row) (auto simp: r0_def)
  have r1ok: "0 < row_area r1 \<and> list_all (\<lambda>b. 0 < block_area b \<and> 0 < mapv_node_size (block_node b)) (row_blocks r1)"
    using r0ok bpos by (simp add: r1_def)
  have rl: "list_all (\<lambda>r. 0 < row_area r \<and>
              list_all (\<lambda>b. 0 < block_area b \<and> 0 < mapv_node_size (block_node b)) (row_blocks r)) row_list"
    using Cons.prems(2) by simp
  have bs: "list_all (\<lambda>b. 0 < block_area b \<and> 0 < mapv_node_size (block_node b)) bs"
    using Cons.prems(1) by simp
  have step: "mapv_second_pass sf w (b # bs) row_list row =
     (if (block_area block / (row_area r1 / w)) / (row_area r1 / w) < 1
      then mapv_second_pass sf w bs (row_list @ [r1]) None
      else mapv_second_pass sf w bs row_list (Some r1))"
    by (simp add: Let_def block_def r0_def r1_def)
  show ?case
    unfolding step
    using Cons.IH[OF bs, of "row_list @ [r1]" None] Cons.IH[OF bs, of row_list "Some r1"] rl r1ok
    by simp
qed

lemma mapv_dir_dims_pos:
  assumes "0 < MAPV_NODE_WIDTH gp" and "0 < MAPV_NODE_DEPTH gp"
  shows "0 < vx (mapv_dir_dims gp)" and "0 < vy (mapv_dir_dims gp)"
    and "0 \<le> mapv_nominal_border gp"
proof -
  have tx: "0 < vx (mapv_top_face gp)" and ty: "0 < vy (mapv_top_face gp)"
    using assms by (simp_all add: mapv_top_face_def Let_def min_def)
  have nb: "mapv_nominal_border gp \<le> min (vx (mapv_top_face gp)) (vy (mapv_top_face gp)) / 3"
    unfolding mapv_nominal_border_def Let_def by (rule min.cobounded2)
  show "0 < vx (mapv_dir_dims gp)" using nb tx ty by (simp add: mapv_dir_dims_def min_def split: if_splits)
  show "0 < vy (mapv_dir_dims gp)" using nb tx ty by (simp add: mapv_dir_dims_def min_def split: if_splits)
  show "0 \<le> mapv_nominal_border gp"
    using tx ty by (simp add: mapv_nominal_border_def Let_def MAPV_BORDER_PROPORTION_def)
qed

lemma sum_list_pos_real:
  fixes xs :: "real list"
  shows "xs \<noteq> [] \<Longrightarrow> list_all (\<lambda>x. 0 < x) xs \<Longrightarrow> 0 < sum_list xs"
  by (induction xs) (auto simp: add_pos_nonneg sum_list_nonneg list_all_iff less_imp_le)

lemma mapv_first_pass_pos:
  assumes "0 \<le> nb" and "list_all (\<lambda>n. 0 < mapv_node_size n) nodes"
  shows "list_all (\<lambda>b. 0 < block_area b \<and> 0 < mapv_node_size (block_node b)) (mapv_first_pass nb nodes)"
proof -
  have "0 < SQR (sqrt (real_of_int (mapv_node_size n)) + nb)" if "0 < mapv_node_size n" for n
  proof -
    have "0 < sqrt (real_of_int (mapv_node_size n))" using that by simp
    then have "0 < sqrt (real_of_int (mapv_node_size n)) + nb" using assms(1) by (rule add_pos_nonneg)
    then show ?thesis by (simp add: SQR_def)
  qed
  then show ?thesis using assms(2) by (simp add: mapv_first_pass_def list_all_iff)
qed

lemma mapv_scale_factor_pos:
  assumes "0 < MAPV_NODE_WIDTH gp" and "0 < MAPV_NODE_DEPTH gp"
      and "nodes \<noteq> []" and "list_all (\<lambda>n. 0 < mapv_node_size n) nodes"
  shows "0 < mapv_scale_factor gp nodes"
proof -
  note d = mapv_dir_dims_pos[OF assms(1,2)]
  have "list_all (\<lambda>x. 0 < x) (map block_area (mapv_first_pass (mapv_nominal_border gp) nodes))"
    using mapv_first_pass_pos[OF d(3) assms(4)] by (simp add: list_all_iff)
  moreover have "map block_area (mapv_first_pass (mapv_nominal_border gp) nodes) \<noteq> []"
    using assms(3) by (simp add: mapv_first_pass_def)
  ultimately have "0 < sum_list (map block_area (mapv_first_pass (mapv_nominal_border gp) nodes))"
    using sum_list_pos_real by blast
  then show ?thesis using d(1,2) by (simp add: mapv_scale_factor_def Let_def)
qed

lemma mapv_layout_footprint:
  assumes w: "0 < MAPV_NODE_WIDTH gp" and d: "0 < MAPV_NODE_DEPTH gp"
      and sz: "list_all (\<lambda>n. 0 < mapv_node_size n) nodes"
      and mem: "(node, p0, p1) \<in> set (mapv_layout gp nodes)"
  shows "0 < vx p1 - vx p0 \<and> 0 < vy p1 - vy p0 \<and>
         (vx p1 - vx p0) * (vy p1 - vy p0) =
           mapv_scale_factor gp nodes * real_of_int (mapv_node_size node)"
proof -
  have ne: "nodes \<noteq> []"
    using mem mapv_layout_nodes[of gp nodes] by (cases nodes) auto
  note dd = mapv_dir_dims_pos[OF w d]
  have sf: "0 < mapv_scale_factor gp nodes" using mapv_scale_factor_pos[OF w d ne sz] .
  have rows: "list_all (\<lambda>r. 0 < row_area r \<and>
              list_all (\<lambda>b. 0 < block_area b \<and> 0 < mapv_node_size (block_node b)) (row_blocks r))
           (mapv_second_pass (mapv_scale_factor gp nodes) (vx (mapv_dir_dims gp))
              (mapv_first_pass (mapv_nominal_border gp) nodes) [] None)"
    by (rule mapv_second_pass_rows[OF sf mapv_first_pass_pos[OF dd(3) sz]]) simp
  show ?thesis
    by (rule mapv_fourth_pass_footprint[OF dd(1) sf rows]) (use mem in \<open>simp add: mapv_layout_def Let_def\<close>)
qed

lemma mapv_init_recursive_unfold:
  "mapv_init_recursive dnode s0 =
     (let s3 = geometry_queue_rebuild dnode
                 (set_deployment dnode (if dirtree_entry_expanded (morph_break (Deployment (node_id dnode)) s0) dnode then 1 else 0)
                    (morph_break (Deployment (node_id dnode)) s0))
      in if children dnode = [] then s3
         else fold mapv_place (mapv_layout (mapv_params s3 (node_id dnode)) (children dnode)) s3)"
  by (subst mapv_init_recursive.simps) (simp add: Let_def mapv_place_def)

lemma mapv_params_reset [simp]:
  "mapv_params (geometry_queue_rebuild dnode s) = mapv_params s"
  "mapv_params (set_deployment dnode v s) = mapv_params s"
  "mapv_params (morph_break var s) = mapv_params s"
  by (simp_all add: geometry_queue_rebuild_def queue_uncached_draw_def set_deployment_def
      morph_break_def split: option.splits)

lemma ids_head: "node_id n \<in> set (ids n)"
  by (cases n) (simp add: node_id_def)

lemma ids_children: "c \<in> set (children n) \<Longrightarrow> set (ids c) \<subseteq> set (concat (map ids (children n)))"
  by auto

lemma fold_place_frame:
  assumes step: "\<And>n s. n \<in> fst ` set l \<Longrightarrow> i \<notin> set (concat (map ids (children n))) \<Longrightarrow>
                   mapv_params (mapv_init_recursive n s) i = mapv_params s i"
      and out: "i \<notin> set (concat (map ids (map fst l)))"
  shows "mapv_params (fold mapv_place l s) i = mapv_params s i"
  using assms
proof (induction l arbitrary: s)
  case Nil
  then show ?case by simp
next
  case (Cons e l)
  obtain n p0 p1 where e: "e = (n, p0, p1)" by (cases e) auto
  have ni: "i \<notin> set (ids n)" using Cons.prems(2) by (simp add: e)
  then have ne: "i \<noteq> node_id n" using ids_head by blast
  have nc: "i \<notin> set (concat (map ids (children n)))" using ni by (cases n) auto
  have rec: "mapv_params (mapv_init_recursive n s') i = mapv_params s' i" for s'
    by (rule Cons.prems(1)) (use nc in \<open>simp_all add: e\<close>)
  have one: "mapv_params (mapv_place e s) i = mapv_params s i"
    using ne by (simp add: e mapv_place_def Let_def rec)
  have "mapv_params (fold mapv_place l (mapv_place e s)) i = mapv_params (mapv_place e s) i"
  proof (rule Cons.IH)
    fix n' s'
    assume "n' \<in> fst ` set l" and "i \<notin> set (concat (map ids (children n')))"
    then show "mapv_params (mapv_init_recursive n' s') i = mapv_params s' i"
      by (intro Cons.prems(1)) simp_all
  next
    show "i \<notin> set (concat (map ids (map fst l)))" using Cons.prems(2) by simp
  qed
  then show ?case using one by simp
qed

lemma mapv_init_recursive_frame:
  "i \<notin> set (concat (map ids (children dnode))) \<Longrightarrow>
   mapv_params (mapv_init_recursive dnode s) i = mapv_params s i"
proof (induction dnode arbitrary: s)
  case (GNode d cs)
  show ?case
  proof (cases "cs = []")
    case True
    then show ?thesis by (simp add: mapv_init_recursive_unfold)
  next
    case False
    let ?s3 = "geometry_queue_rebuild (GNode d cs)
                 (set_deployment (GNode d cs) (if dirtree_entry_expanded (morph_break (Deployment (node_id (GNode d cs))) s) (GNode d cs) then 1 else 0)
                    (morph_break (Deployment (node_id (GNode d cs))) s))"
    let ?l = "mapv_layout (mapv_params ?s3 (node_id (GNode d cs))) cs"
    have fst_l: "map fst ?l = cs" by (rule mapv_layout_nodes)
    have "mapv_params (fold mapv_place ?l ?s3) i = mapv_params ?s3 i"
    proof (rule fold_place_frame)
      fix n s'
      assume "n \<in> fst ` set ?l" and "i \<notin> set (concat (map ids (children n)))"
      then have "n \<in> set cs" using fst_l by (metis set_map)
      then show "mapv_params (mapv_init_recursive n s') i = mapv_params s' i"
        using GNode.IH[of n s'] \<open>i \<notin> set (concat (map ids (children n)))\<close> by simp
    next
      show "i \<notin> set (concat (map ids (map fst ?l)))"
        unfolding fst_l using GNode.prems by simp
    qed
    then show ?thesis using False by (simp add: mapv_init_recursive_unfold Let_def)
  qed
qed

lemma fold_place_assigns:
  assumes d: "distinct (concat (map ids (map fst l)))"
      and mem: "(node, p0, p1) \<in> set l"
  shows "c0 (mapv_params (fold mapv_place l s) (node_id node)) = p0 \<and>
         c1 (mapv_params (fold mapv_place l s) (node_id node)) = p1"
  using assms
proof (induction l arbitrary: s)
  case Nil
  then show ?case by simp
next
  case (Cons e l)
  obtain n q0 q1 where e: "e = (n, q0, q1)" by (cases e) auto
  have dl: "distinct (concat (map ids (map fst l)))" using Cons.prems(1) by simp
  show ?case
  proof (cases "(node, p0, p1) \<in> set l")
    case True
    then show ?thesis using Cons.IH[OF dl True, of "mapv_place e s"] by simp
  next
    case False
    then have eq: "n = node" "q0 = p0" "q1 = p1" using Cons.prems(2) e by auto
    have dn: "distinct (ids node)" using Cons.prems(1) by (simp add: e eq)
    have self: "node_id node \<notin> set (concat (map ids (children node)))"
      using dn by (cases node) (simp add: node_id_def)
    have placed: "c0 (mapv_params (mapv_place e s) (node_id node)) = p0 \<and>
                  c1 (mapv_params (mapv_place e s) (node_id node)) = p1"
      using mapv_init_recursive_frame[OF self]
      by (simp add: e eq mapv_place_def Let_def)
    have rest: "node_id node \<notin> set (concat (map ids (map fst l)))"
      using Cons.prems(1) ids_head[of node] by (auto simp: e eq)
    have "mapv_params (fold mapv_place l (mapv_place e s)) (node_id node) =
          mapv_params (mapv_place e s) (node_id node)"
      by (rule fold_place_frame[OF mapv_init_recursive_frame rest])
    then show ?thesis using placed by simp
  qed
qed

lemma mapv_children_footprint:
  assumes d: "distinct (ids dnode)"
      and w: "0 < MAPV_NODE_WIDTH (mapv_params s (node_id dnode))"
      and dp: "0 < MAPV_NODE_DEPTH (mapv_params s (node_id dnode))"
      and sz: "list_all (\<lambda>n. 0 < mapv_node_size n) (children dnode)"
      and mem: "node \<in> set (children dnode)"
  shows "0 < MAPV_NODE_WIDTH (mapv_params (mapv_init_recursive dnode s) (node_id node)) \<and>
         0 < MAPV_NODE_DEPTH (mapv_params (mapv_init_recursive dnode s) (node_id node)) \<and>
         MAPV_NODE_WIDTH (mapv_params (mapv_init_recursive dnode s) (node_id node)) *
         MAPV_NODE_DEPTH (mapv_params (mapv_init_recursive dnode s) (node_id node)) =
           mapv_scale_factor (mapv_params s (node_id dnode)) (children dnode) *
           real_of_int (mapv_node_size node)"
proof -
  let ?gp = "mapv_params s (node_id dnode)"
  let ?l = "mapv_layout ?gp (children dnode)"
  let ?s3 = "geometry_queue_rebuild dnode
                 (set_deployment dnode (if dirtree_entry_expanded (morph_break (Deployment (node_id dnode)) s) dnode then 1 else 0)
                    (morph_break (Deployment (node_id dnode)) s))"
  have fst_l: "map fst ?l = children dnode" by (rule mapv_layout_nodes)
  have "node \<in> fst ` set ?l" using mem fst_l by (metis set_map)
  then obtain p0 p1 where pm: "(node, p0, p1) \<in> set ?l" by force
  have ne: "children dnode \<noteq> []" using mem by auto
  have run: "mapv_init_recursive dnode s = fold mapv_place ?l ?s3"
    using ne by (simp add: mapv_init_recursive_unfold Let_def)
  have dl: "distinct (concat (map ids (map fst ?l)))"
    unfolding fst_l using d by (cases dnode) simp
  note a = fold_place_assigns[OF dl pm, of ?s3]
  note f = mapv_layout_footprint[OF w dp sz pm]
  show ?thesis
    unfolding run MAPV_NODE_WIDTH_def MAPV_NODE_DEPTH_def
    using a f by simp
qed

text \<open>
  Claim C6, as the code has it (doubles read as real numbers). When
  \<^verbatim>\<open>mapv_init_recursive\<close> lays out a directory whose own width and depth are positive,
  every child ends up with positive width and depth, and its footprint (width times
  depth, the block without its border) is exactly \<open>scale_factor\<close> times the size that
  stands for the node, \<open>max 256 size\<close> plus the subtree size for a directory. The node
  ids of the tree are distinct, and the sizes that stand for the children are positive
  (they are when no subtree size is negative).
\<close>

theorem mapv_footprint_is_scaled_size:
  assumes "distinct (ids dnode)"
      and "0 < MAPV_NODE_WIDTH (mapv_params s (node_id dnode))"
      and "0 < MAPV_NODE_DEPTH (mapv_params s (node_id dnode))"
      and "list_all (\<lambda>n. 0 < mapv_node_size n) (children dnode)"
      and "node \<in> set (children dnode)"
  shows "0 < MAPV_NODE_WIDTH (mapv_params (mapv_init_recursive dnode s) (node_id node)) \<and>
         0 < MAPV_NODE_DEPTH (mapv_params (mapv_init_recursive dnode s) (node_id node)) \<and>
         MAPV_NODE_WIDTH (mapv_params (mapv_init_recursive dnode s) (node_id node)) *
         MAPV_NODE_DEPTH (mapv_params (mapv_init_recursive dnode s) (node_id node)) =
           mapv_scale_factor (mapv_params s (node_id dnode)) (children dnode) *
           real_of_int (mapv_node_size node)"
  using assms by (rule mapv_children_footprint)

lemma two_files_facts:
  "distinct (ids two_files_dir)"
  "0 < MAPV_NODE_WIDTH (mapv_params mapv_example (node_id two_files_dir))"
  "0 < MAPV_NODE_DEPTH (mapv_params mapv_example (node_id two_files_dir))"
  "list_all (\<lambda>n. 0 < mapv_node_size n) (children two_files_dir)"
  "children two_files_dir \<noteq> []"
  by (simp_all add: two_files_dir_def mapv_example_def fsv_example_def MAPV_NODE_WIDTH_def
      MAPV_NODE_DEPTH_def mapv_node_size_def NODE_IS_DIR_def node_id_def)

theorem mapv_footprint_is_scaled_size_witness:
  "distinct (ids two_files_dir) \<and>
   0 < MAPV_NODE_WIDTH (mapv_params mapv_example (node_id two_files_dir)) \<and>
   0 < MAPV_NODE_DEPTH (mapv_params mapv_example (node_id two_files_dir)) \<and>
   0 < MAPV_NODE_WIDTH (mapv_params (mapv_init_recursive two_files_dir mapv_example) 2) \<and>
   0 < MAPV_NODE_DEPTH (mapv_params (mapv_init_recursive two_files_dir mapv_example) 2) \<and>
   MAPV_NODE_WIDTH (mapv_params (mapv_init_recursive two_files_dir mapv_example) 2) *
   MAPV_NODE_DEPTH (mapv_params (mapv_init_recursive two_files_dir mapv_example) 2) =
     mapv_scale_factor (mapv_params mapv_example 1) (children two_files_dir) * 900"
proof -
  have m: "GNode \<lparr>ntype = NODE_REGFILE, nid = 2, nname = ''a'', nsize = 900, subtree_size = 0\<rparr> []
             \<in> set (children two_files_dir)"
    by (simp add: two_files_dir_def)
  show ?thesis
    using two_files_facts(1-3)
      mapv_footprint_is_scaled_size[OF two_files_facts(1-4) m]
    by (simp add: node_id_def mapv_node_size_def NODE_IS_DIR_def two_files_dir_def)
qed

text \<open>
  Claim C6 as stated fails in its example: with two files of 900 and 100 bytes the
  footprints are not in the ratio 900 : 100. The smaller file counts as 256 bytes, so
  the ratio is 900 : 256.
\<close>

theorem mapv_ratio_900_100_counterexample:
  "MAPV_NODE_WIDTH (mapv_params (mapv_init_recursive two_files_dir mapv_example) 2) *
   MAPV_NODE_DEPTH (mapv_params (mapv_init_recursive two_files_dir mapv_example) 2) * 100 \<noteq>
   MAPV_NODE_WIDTH (mapv_params (mapv_init_recursive two_files_dir mapv_example) 3) *
   MAPV_NODE_DEPTH (mapv_params (mapv_init_recursive two_files_dir mapv_example) 3) * 900 \<and>
   MAPV_NODE_WIDTH (mapv_params (mapv_init_recursive two_files_dir mapv_example) 2) *
   MAPV_NODE_DEPTH (mapv_params (mapv_init_recursive two_files_dir mapv_example) 2) * 256 =
   MAPV_NODE_WIDTH (mapv_params (mapv_init_recursive two_files_dir mapv_example) 3) *
   MAPV_NODE_DEPTH (mapv_params (mapv_init_recursive two_files_dir mapv_example) 3) * 900"
proof -
  let ?a = "GNode \<lparr>ntype = NODE_REGFILE, nid = 2, nname = ''a'', nsize = 900, subtree_size = 0\<rparr> []"
  let ?b = "GNode \<lparr>ntype = NODE_REGFILE, nid = 3, nname = ''b'', nsize = 100, subtree_size = 0\<rparr> []"
  let ?sf = "mapv_scale_factor (mapv_params mapv_example (node_id two_files_dir)) (children two_files_dir)"
  have ma: "?a \<in> set (children two_files_dir)" and mb: "?b \<in> set (children two_files_dir)"
    by (simp_all add: two_files_dir_def)
  have sf: "0 < ?sf"
    by (rule mapv_scale_factor_pos[OF two_files_facts(2,3,5,4)])
  have a: "MAPV_NODE_WIDTH (mapv_params (mapv_init_recursive two_files_dir mapv_example) 2) *
           MAPV_NODE_DEPTH (mapv_params (mapv_init_recursive two_files_dir mapv_example) 2) = ?sf * 900"
    using mapv_children_footprint[OF two_files_facts(1-4) ma]
    by (simp add: node_id_def mapv_node_size_def NODE_IS_DIR_def)
  have b: "MAPV_NODE_WIDTH (mapv_params (mapv_init_recursive two_files_dir mapv_example) 3) *
           MAPV_NODE_DEPTH (mapv_params (mapv_init_recursive two_files_dir mapv_example) 3) = ?sf * 256"
    using mapv_children_footprint[OF two_files_facts(1-4) mb]
    by (simp add: node_id_def mapv_node_size_def NODE_IS_DIR_def)
  show ?thesis unfolding a b using sf by simp
qed

section \<open>Properties: reshaping a TreeV platform\<close>

lemma sqrt_quot_aux:
  fixes x y :: real
  assumes "x \<noteq> 0"
  shows "1 / sqrt (1 + (y / x)\<^sup>2) = \<bar>x\<bar> / sqrt (x * x + y * y)"
proof -
  have "1 + (y / x)\<^sup>2 = (x * x + y * y) / (x * x)"
    using assms by (simp add: field_simps power2_eq_square)
  hence "sqrt (1 + (y / x)\<^sup>2) = sqrt (x * x + y * y) / \<bar>x\<bar>"
    by (simp add: real_sqrt_divide)
  thus ?thesis by simp
qed

lemma atan2_upper_half:
  assumes "0 < y"
  shows "0 < atan2 y x \<and> atan2 y x < pi \<and> cos (atan2 y x) = x / sqrt (x * x + y * y)"
proof -
  consider "0 < x" | "x < 0" | "x = 0" by linarith
  thus ?thesis
  proof cases
    case 1
    hence "0 < y / x" using assms by simp
    hence a: "0 < arctan (y / x)" by (simp only: zero_less_arctan_iff)
    have b: "arctan (y / x) < pi / 2" by (rule arctan_ubound)
    have c: "arctan (y / x) < pi" using b pi_gt_zero by linarith
    have d: "cos (arctan (y / x)) = x / sqrt (x * x + y * y)"
      using 1 by (simp add: cos_arctan sqrt_quot_aux)
    show ?thesis using 1 a c d by (simp add: atan2_def)
  next
    case 2
    hence "y / x < 0" using assms by (simp add: divide_neg_neg field_simps)
    hence a: "arctan (y / x) < 0" by (simp only: arctan_less_zero_iff)
    have b: "- (pi / 2) < arctan (y / x)" by (rule arctan_lbound)
    have c: "cos (arctan (y / x) + pi) = - cos (arctan (y / x))" by (rule cos_periodic_pi)
    have d: "cos (arctan (y / x) + pi) = x / sqrt (x * x + y * y)"
      using 2 by (simp add: c cos_arctan sqrt_quot_aux)
    have e: "0 < arctan (y / x) + pi" "arctan (y / x) + pi < pi"
      using a b pi_gt_zero by linarith+
    show ?thesis using 2 assms d e by (simp add: atan2_def)
  next
    case 3
    with assms pi_gt_zero show ?thesis by (simp add: atan2_def)
  qed
qed

lemma trunc_bounds:
  "\<bar>v - of_int (trunc v)\<bar> < 1"
  unfolding trunc_def by (simp; linarith)

lemma fmod_bound:
  assumes "0 < b"
  shows "\<bar>fmod a b\<bar> < b"
proof -
  have "fmod a b = b * (a / b - of_int (trunc (a / b)))"
    using assms by (simp add: fmod_def algebra_simps)
  hence "\<bar>fmod a b\<bar> = b * \<bar>a / b - of_int (trunc (a / b))\<bar>"
    using assms by (simp add: abs_mult)
  also have "\<dots> < b * 1"
    using assms trunc_bounds[of "a / b"] by (simp only: mult_less_cancel_left_pos)
  finally show ?thesis by simp
qed

lemma ka_radicand_identity:
  "treev_cubic_ka A r * treev_cubic_ka A r + 144 * treev_cubic_radicand A r = 64 * (cubic_N A r) ^ 3"
  unfolding treev_cubic_ka_def treev_cubic_radicand_def cubic_N_def Let_def SQR_def
    TREEV_PLATFORM_SPACING_WIDTH_def
  by (simp add: algebra_simps power3_eq_cube)

lemma ka_cubic_q: "treev_cubic_ka A r = - 108 * cubic_q A r"
  unfolding treev_cubic_ka_def cubic_q_def Let_def SQR_def TREEV_PLATFORM_SPACING_WIDTH_def
  by (simp add: field_simps power3_eq_cube)

lemma treev_cubic_shift: "treev_cubic A r d = cubic_g A r (d + (2 * r + 512) / 3)"
  unfolding treev_cubic_def cubic_g_def cubic_N_def cubic_q_def TREEV_PLATFORM_SPACING_WIDTH_def
  by (simp add: field_simps power3_eq_cube power2_eq_square)

lemma cubic_N_pos: "0 < A \<Longrightarrow> 0 < cubic_N A r"
proof -
  assume a: "0 < A"
  have "0 \<le> (2 * r - 256) * (2 * r - 256)" by simp
  hence "0 \<le> 4 * r * r - 2 * 512 * r + 256 * 256" by (simp add: algebra_simps)
  thus ?thesis unfolding cubic_N_def using a by simp
qed

lemma depressed_mono_right:
  fixes a b \<rho> :: real
  assumes "0 < \<rho>" "\<rho> \<le> a" "a \<le> b"
  shows "a ^ 3 - 3 * \<rho>\<^sup>2 * a \<le> b ^ 3 - 3 * \<rho>\<^sup>2 * b"
proof -
  have aa: "\<rho> * \<rho> \<le> a * a" using assms by (intro mult_mono) simp_all
  have bb: "\<rho> * \<rho> \<le> b * b" using assms by (intro mult_mono) simp_all
  have ab: "\<rho> * \<rho> \<le> a * b" using assms by (intro mult_mono) simp_all
  have "0 \<le> (b - a) * (b * b + a * b + a * a - 3 * (\<rho> * \<rho>))"
    using assms aa bb ab by (intro mult_nonneg_nonneg) simp_all
  also have "\<dots> = (b ^ 3 - 3 * \<rho>\<^sup>2 * b) - (a ^ 3 - 3 * \<rho>\<^sup>2 * a)"
    by (simp add: algebra_simps power3_eq_cube power2_eq_square)
  finally show ?thesis by simp
qed

lemma depressed_mono_left:
  fixes a b \<rho> :: real
  assumes "0 < \<rho>" "b \<le> - \<rho>" "a \<le> b"
  shows "a ^ 3 - 3 * \<rho>\<^sup>2 * a \<le> b ^ 3 - 3 * \<rho>\<^sup>2 * b"
proof -
  have "(- b) ^ 3 - 3 * \<rho>\<^sup>2 * (- b) \<le> (- a) ^ 3 - 3 * \<rho>\<^sup>2 * (- a)"
    using assms by (intro depressed_mono_right) simp_all
  thus ?thesis by simp
qed

lemma depressed_three_roots:
  fixes \<rho> q ta t0 :: real
  assumes rho: "0 < \<rho>" and lt: "ta < t0"
    and pos: "0 < ta ^ 3 - 3 * \<rho>\<^sup>2 * ta + q"
    and neg: "t0 ^ 3 - 3 * \<rho>\<^sup>2 * t0 + q < 0"
  shows "q - 2 * \<rho> ^ 3 < 0 \<and> 0 < q + 2 * \<rho> ^ 3"
proof
  have id1: "s ^ 3 - 3 * \<rho>\<^sup>2 * s + q - (q - 2 * \<rho> ^ 3) = (s - \<rho>)\<^sup>2 * (s + 2 * \<rho>)" for s
    by (simp add: algebra_simps power3_eq_cube power2_eq_square)
  have id2: "s ^ 3 - 3 * \<rho>\<^sup>2 * s + q - (q + 2 * \<rho> ^ 3) = (s + \<rho>)\<^sup>2 * (s - 2 * \<rho>)" for s
    by (simp add: algebra_simps power3_eq_cube power2_eq_square)
  show "q - 2 * \<rho> ^ 3 < 0"
  proof (cases "- 2 * \<rho> \<le> t0")
    case True
    hence "0 \<le> (t0 - \<rho>)\<^sup>2 * (t0 + 2 * \<rho>)" by (intro mult_nonneg_nonneg) simp_all
    with id1[of t0] neg show ?thesis by linarith
  next
    case False
    hence "t0 \<le> - \<rho>" using rho by linarith
    from depressed_mono_left[OF rho this] lt
    have "ta ^ 3 - 3 * \<rho>\<^sup>2 * ta \<le> t0 ^ 3 - 3 * \<rho>\<^sup>2 * t0" by simp
    with pos neg show ?thesis by linarith
  qed
  show "0 < q + 2 * \<rho> ^ 3"
  proof (cases "ta \<le> 2 * \<rho>")
    case True
    hence "(ta + \<rho>)\<^sup>2 * (ta - 2 * \<rho>) \<le> 0" by (intro mult_nonneg_nonpos) simp_all
    with id2[of ta] pos show ?thesis by linarith
  next
    case False
    hence "\<rho> \<le> ta" using rho by linarith
    from depressed_mono_right[OF rho this] lt
    have "ta ^ 3 - 3 * \<rho>\<^sup>2 * ta \<le> t0 ^ 3 - 3 * \<rho>\<^sup>2 * t0" by simp
    with pos neg show ?thesis by linarith
  qed
qed

lemma cubic_g_at_zero:
  "cubic_g A r ((2 * r + 512) / 3) = - 2 * A * r"
  using treev_cubic_shift[of A r 0] by (simp add: treev_cubic_def)

lemma cubic_g_at_minus_r:
  "cubic_g A r ((2 * r + 512) / 3 - r) = r * (r * r - 512 * r + 512)"
proof -
  have "cubic_g A r ((2 * r + 512) / 3 - r) = treev_cubic A r (- r)"
    using treev_cubic_shift[of A r "- r"] by (simp add: algebra_simps)
  also have "\<dots> = r * (r * r - 512 * r + 512)"
    unfolding treev_cubic_def TREEV_PLATFORM_SPACING_WIDTH_def
    by (simp add: algebra_simps power3_eq_cube power2_eq_square)
  finally show ?thesis .
qed

lemma cubic_extrema:
  assumes A: "0 < A" and r: "512 \<le> r"
  shows "cubic_q A r - 2 * (sqrt (cubic_N A r) / 3) ^ 3 < 0
         \<and> 0 < cubic_q A r + 2 * (sqrt (cubic_N A r) / 3) ^ 3"
proof -
  define N where "N = cubic_N A r"
  define \<rho> where "\<rho> = sqrt N / 3"
  define q where "q = cubic_q A r"
  define t0 where "t0 = (2 * r + 512) / 3"
  have N: "0 < N" unfolding N_def by (rule cubic_N_pos[OF A])
  hence rho: "0 < \<rho>" unfolding \<rho>_def by simp
  have rho2: "3 * \<rho>\<^sup>2 = N / 3"
    unfolding \<rho>_def using N by (simp add: power2_eq_square)
  have g: "cubic_g A r t = t ^ 3 - 3 * \<rho>\<^sup>2 * t + q" for t
    unfolding cubic_g_def rho2 N_def q_def ..
  have "0 \<le> r * (r - 512)" using r by (intro mult_nonneg_nonneg) simp_all
  hence "0 < r * r - 512 * r + 512" by (simp add: algebra_simps)
  hence "0 < r * (r * r - 512 * r + 512)" using r by (intro mult_pos_pos) simp_all
  hence pos: "0 < (t0 - r) ^ 3 - 3 * \<rho>\<^sup>2 * (t0 - r) + q"
    using cubic_g_at_minus_r[of A r] unfolding g t0_def by simp
  have "0 < A * r" using A r by (intro mult_pos_pos) simp_all
  hence neg: "t0 ^ 3 - 3 * \<rho>\<^sup>2 * t0 + q < 0"
    using cubic_g_at_zero[of A r] unfolding g t0_def by simp
  have lt: "t0 - r < t0" using r by simp
  from depressed_three_roots[OF rho lt pos neg]
  show ?thesis unfolding \<rho>_def q_def N_def .
qed

lemma treev_radicand_pos:
  assumes A: "0 < A" and r: "512 \<le> r"
  shows "0 < treev_cubic_radicand A r"
proof -
  define N where "N = cubic_N A r"
  define sN where "sN = sqrt N"
  define q where "q = cubic_q A r"
  have N: "0 < N" unfolding N_def by (rule cubic_N_pos[OF A])
  have sN: "0 < sN" "sN * sN = N" unfolding sN_def using N by simp_all
  have cube: "(sN / 3) ^ 3 = N * sN / 27"
    using sN(2) by (simp add: power3_eq_cube)
  from cubic_extrema[OF A r]
  have e: "q - 2 * (N * sN / 27) < 0" "0 < q + 2 * (N * sN / 27)"
    unfolding q_def N_def[symmetric] sN_def[symmetric] cube by simp_all
  hence "0 < (2 * (N * sN / 27) - q) * (2 * (N * sN / 27) + q)"
    by (intro mult_pos_pos) simp_all
  also have "\<dots> = 4 * (N * N * (sN * sN)) / 729 - q * q"
    by (simp add: algebra_simps)
  also have "\<dots> = 4 * N ^ 3 / 729 - q * q"
    unfolding sN(2) by (simp add: power3_eq_cube)
  finally have "11664 * (q * q) < 64 * N ^ 3" by simp
  moreover have "treev_cubic_ka A r * treev_cubic_ka A r = 11664 * (q * q)"
    unfolding ka_cubic_q q_def by simp
  ultimately show ?thesis
    using ka_radicand_identity[of A r] unfolding N_def by linarith
qed

lemma treev_cubic_d_shifted:
  assumes A: "0 < A" and r: "512 \<le> r"
  shows "\<exists>kc. 1 / 2 < kc
           \<and> treev_cubic_d A r + (2 * r + 512) / 3 = 2 * (sqrt (cubic_N A r) / 3) * kc
           \<and> 2 * (sqrt (cubic_N A r) / 3) ^ 3 * (4 * kc ^ 3 - 3 * kc) = - cubic_q A r"
proof -
  define N where "N = cubic_N A r"
  define sN where "sN = sqrt N"
  define ka where "ka = treev_cubic_ka A r"
  define T where "T = treev_cubic_radicand A r"
  define kb where "kb = 12 * sqrt T"
  define phi where "phi = atan2 kb ka"
  define kc where "kc = cos (phi / 3)"
  define H where "H = hypot ka kb"
  define kd where "kd = cbrt H"
  have N: "0 < N" unfolding N_def by (rule cubic_N_pos[OF A])
  have sN: "0 < sN" "sN * sN = N" unfolding sN_def using N by simp_all
  have T: "0 < T" unfolding T_def by (rule treev_radicand_pos[OF A r])
  hence kb: "0 < kb" "kb * kb = 144 * T" unfolding kb_def by simp_all
  have "ka * ka + kb * kb = 64 * N ^ 3"
    unfolding kb(2) ka_def T_def N_def by (rule ka_radicand_identity)
  also have "\<dots> = (8 * (N * sN))\<^sup>2"
    using sN(2) by (simp add: power2_eq_square power3_eq_cube algebra_simps)
  finally have sq: "ka * ka + kb * kb = (8 * (N * sN))\<^sup>2" .
  have "0 \<le> 8 * (N * sN)" using N sN(1) by simp
  hence H: "H = 8 * (N * sN)"
    unfolding H_def hypot_def sq by (simp only: real_sqrt_abs abs_of_nonneg)
  have H3: "H = (2 * sN) ^ 3"
    unfolding H using sN(2) by (simp add: power3_eq_cube algebra_simps)
  have "0 \<le> 2 * sN" using sN(1) by simp
  hence kd: "kd = 2 * sN"
    unfolding kd_def cbrt_def H3 by (intro real_root_power_cancel) simp_all
  from atan2_upper_half[OF kb(1), of ka]
  have phi: "0 < phi" "phi < pi" "cos phi = ka / H"
    unfolding phi_def H_def hypot_def by simp_all
  have "cos (3 * (phi / 3)) = 4 * kc ^ 3 - 3 * kc"
    unfolding kc_def by (rule cos_treble_cos)
  hence treble: "4 * kc ^ 3 - 3 * kc = ka / (8 * (N * sN))"
    using phi(3) unfolding H by simp
  have "cos (pi / 3) < cos (phi / 3)"
    using phi by (intro cos_monotone_0_pi) simp_all
  hence half: "1 / 2 < kc" unfolding kc_def by (simp add: cos_60)
  have coef: "(8 * SQR r - 4 * 512 * r + 2 * SQR 512) / 3 + 4 * A + 2 * 512 = 2 * N / 3"
    unfolding N_def cubic_N_def SQR_def by (simp add: field_simps)
  have "N / sN = sN" using sN by (simp add: field_simps)
  hence quot: "2 * N / 3 * kc / (2 * sN) = sN / 3 * kc"
    using sN(1) by (simp add: field_simps)
  have d: "treev_cubic_d A r = (- 512 - 2 * r) / 3 + 2 * N / 3 * kc / kd + kc * kd / 6"
    unfolding treev_cubic_d_def Let_def TREEV_PLATFORM_SPACING_WIDTH_def coef
      kd_def H_def kc_def phi_def kb_def ka_def T_def ..
  have shift: "treev_cubic_d A r + (2 * r + 512) / 3 = 2 * (sN / 3) * kc"
    unfolding d kd quot by (simp add: field_simps)
  have cube: "(sN / 3) ^ 3 = N * sN / 27"
    using sN(2) by (simp add: power3_eq_cube)
  have "N * sN \<noteq> 0" using N sN(1) by simp
  hence "2 * (N * sN / 27) * (ka / (8 * (N * sN))) = ka / 108"
    by (simp add: field_simps)
  hence "2 * (sN / 3) ^ 3 * (4 * kc ^ 3 - 3 * kc) = - cubic_q A r"
    unfolding cube treble ka_def ka_cubic_q by simp
  with half shift show ?thesis unfolding sN_def N_def by blast
qed

lemma treev_cubic_d_root_pos:
  assumes A: "0 < A" and r: "512 \<le> r"
  shows "treev_cubic A r (treev_cubic_d A r) = 0 \<and> 0 < treev_cubic_d A r"
proof -
  define N where "N = cubic_N A r"
  define \<rho> where "\<rho> = sqrt N / 3"
  define q where "q = cubic_q A r"
  define t0 where "t0 = (2 * r + 512) / 3"
  define d where "d = treev_cubic_d A r"
  have N: "0 < N" unfolding N_def by (rule cubic_N_pos[OF A])
  hence rho: "0 < \<rho>" unfolding \<rho>_def by simp
  have rho2: "3 * \<rho>\<^sup>2 = N / 3"
    unfolding \<rho>_def using N by (simp add: power2_eq_square)
  have g: "cubic_g A r t = t ^ 3 - 3 * \<rho>\<^sup>2 * t + q" for t
    unfolding cubic_g_def rho2 N_def q_def ..
  from treev_cubic_d_shifted[OF A r] obtain kc where
    half: "1 / 2 < kc" and shift: "d + t0 = 2 * \<rho> * kc"
    and treble: "2 * \<rho> ^ 3 * (4 * kc ^ 3 - 3 * kc) = - q"
    unfolding d_def t0_def \<rho>_def N_def q_def by blast
  have "(2 * \<rho> * kc) ^ 3 - 3 * \<rho>\<^sup>2 * (2 * \<rho> * kc) = 2 * \<rho> ^ 3 * (4 * kc ^ 3 - 3 * kc)"
    by (simp add: algebra_simps power3_eq_cube power2_eq_square)
  hence zero: "cubic_g A r (d + t0) = 0"
    unfolding g shift treble by simp
  hence root: "treev_cubic A r d = 0"
    unfolding treev_cubic_shift t0_def .
  have "0 < A * r" using A r by (intro mult_pos_pos) simp_all
  hence neg: "t0 ^ 3 - 3 * \<rho>\<^sup>2 * t0 + q < 0"
    using cubic_g_at_zero[of A r] unfolding g t0_def by simp
  have "\<rho> * 1 < \<rho> * (2 * kc)" using rho half by (intro mult_strict_left_mono) simp_all
  hence ge: "\<rho> \<le> d + t0" unfolding shift by simp
  have "t0 < d + t0"
  proof (rule ccontr)
    assume "\<not> t0 < d + t0"
    hence "d + t0 \<le> t0" by simp
    from depressed_mono_right[OF rho ge this] zero neg
    show False unfolding g by linarith
  qed
  with root show ?thesis unfolding d_def by simp
qed

lemma treev_platform_area_pos: "0 < treev_platform_area n"
proof -
  define c :: real where "c = of_int \<lceil>sqrt (real (max 1 n))\<rceil>"
  have "1 \<le> sqrt (real (max 1 n))" by simp
  hence "1 \<le> \<lceil>sqrt (real (max 1 n))\<rceil>" by linarith
  hence "1 \<le> c" unfolding c_def by linarith
  hence "0 < edge15 * c + edge05"
    unfolding edge15_def edge05_def TREEV_LEAF_NODE_EDGE_def by simp
  thus ?thesis unfolding treev_platform_area_def SQR_def c_def[symmetric] by simp
qed

lemma treev_cubic_theta_aspect:
  assumes "r + treev_cubic_d A r \<noteq> 0"
  shows "pi * treev_cubic_theta A r * (r + treev_cubic_d A r) / 180
           - TREEV_PLATFORM_SPACING_WIDTH = treev_cubic_d A r"
proof -
  define d where "d = treev_cubic_d A r"
  define w where "w = TREEV_PLATFORM_SPACING_WIDTH"
  have nz: "pi * (r + d) \<noteq> 0" using assms unfolding d_def by simp
  have "pi * (180 * (d + w) / (pi * (r + d))) * (r + d) / 180
      = (pi * (r + d)) * (d + w) / (pi * (r + d))"
    by simp
  also have "\<dots> = d + w" using nz by (rule nonzero_mult_div_cancel_left)
  finally have e: "pi * (180 * (d + w) / (pi * (r + d))) * (r + d) / 180 = d + w" .
  show ?thesis
    unfolding treev_cubic_theta_def d_def[symmetric] w_def[symmetric] e by simp
qed

lemma treev_row_rounding:
  "d + edge05 < d + (edge15 - fmod (d - edge05) edge15) + edge05"
proof -
  have "0 < edge15" unfolding edge15_def TREEV_LEAF_NODE_EDGE_def by simp
  from fmod_bound[OF this, of "d - edge05"] show ?thesis by simp
qed

lemma treev_min_arc_width_edge:
  assumes "0 < r0" "treev_min_arc_width r0 \<le> a"
  shows "2 * TREEV_LEAF_NODE_EDGE + TREEV_PLATFORM_SPACING_WIDTH \<le> pi * a * r0 / 180"
proof -
  have "2 * TREEV_LEAF_NODE_EDGE + TREEV_PLATFORM_SPACING_WIDTH
      = treev_min_arc_width r0 * (pi * r0 / 180)"
    unfolding treev_min_arc_width_def using assms(1) by simp
  also have "\<dots> \<le> a * (pi * r0 / 180)"
    using assms by (intro mult_right_mono) simp_all
  also have "\<dots> = pi * a * r0 / 180" by simp
  finally show ?thesis .
qed

lemma treev_reshape_platform_params:
  "platform (treev_params (treev_reshape_platform dnode r0 s) (node_id dnode)) =
     (platform (treev_params s (node_id dnode)))
       \<lparr>arc_width := max (treev_min_arc_width r0)
           (treev_cubic_theta (treev_platform_area (length (children dnode))) r0),
        platform_depth := treev_cubic_d (treev_platform_area (length (children dnode))) r0
           + (edge15 - fmod (treev_cubic_d (treev_platform_area (length (children dnode))) r0
                - edge05) edge15) + edge05\<rparr>"
  unfolding treev_reshape_platform_def geometry_queue_rebuild_def queue_uncached_draw_def Let_def
  by simp

lemma treev_platform_area_two: "treev_platform_area 2 = 802816"
proof -
  have le: "sqrt 2 \<le> 2" by (rule real_le_lsqrt) simp_all
  have gt: "1 < sqrt 2" by simp
  have "\<lceil>sqrt 2\<rceil> = 2" using le gt by (intro ceiling_unique) simp_all
  thus ?thesis
    unfolding treev_platform_area_def SQR_def edge15_def edge05_def TREEV_LEAF_NODE_EDGE_def
    by simp
qed

text \<open>
  Claim C7. Numbers are real numbers here, \<^verbatim>\<open>PI\<close> is \<open>pi\<close>. For every node reshaped at an
  inner radius \<open>r0\<close> of at least \<^verbatim>\<open>TREEV_MIN_CORE_RADIUS\<close>: the estimated area is positive;
  the value \<open>d\<close> computed by the closed formula is positive and is a root of the cubic;
  with \<open>theta = 180*(d + w)/(PI*(r0 + d))\<close> the length of the outer edge minus the spacing
  width, \<open>PI*theta*(r0 + d)/180 - w\<close>, equals \<open>d\<close>; the depth stored in the platform is
  greater than \<open>d\<close> (the adjustment to whole rows only adds) and so positive; the arc
  width stored is the larger of \<open>theta\<close> and the minimal arc width, hence at least the
  minimal arc width, and the inner edge \<open>PI*arc_width*r0/180\<close> is at least two leaf node
  edges plus the spacing width.
\<close>

theorem treev_reshape_platform_dimensions:
  assumes "TREEV_MIN_CORE_RADIUS \<le> r0"
  shows "0 < treev_platform_area (length (children dnode))
    \<and> 0 < treev_cubic_d (treev_platform_area (length (children dnode))) r0
    \<and> treev_cubic (treev_platform_area (length (children dnode))) r0
         (treev_cubic_d (treev_platform_area (length (children dnode))) r0) = 0
    \<and> pi * treev_cubic_theta (treev_platform_area (length (children dnode))) r0
         * (r0 + treev_cubic_d (treev_platform_area (length (children dnode))) r0) / 180
         - TREEV_PLATFORM_SPACING_WIDTH
       = treev_cubic_d (treev_platform_area (length (children dnode))) r0
    \<and> treev_cubic_d (treev_platform_area (length (children dnode))) r0
       < platform_depth (platform (treev_params (treev_reshape_platform dnode r0 s) (node_id dnode)))
    \<and> 0 < platform_depth (platform (treev_params (treev_reshape_platform dnode r0 s) (node_id dnode)))
    \<and> arc_width (platform (treev_params (treev_reshape_platform dnode r0 s) (node_id dnode)))
       = max (treev_min_arc_width r0)
           (treev_cubic_theta (treev_platform_area (length (children dnode))) r0)
    \<and> treev_min_arc_width r0
       \<le> arc_width (platform (treev_params (treev_reshape_platform dnode r0 s) (node_id dnode)))
    \<and> 2 * TREEV_LEAF_NODE_EDGE + TREEV_PLATFORM_SPACING_WIDTH
       \<le> pi * arc_width (platform (treev_params (treev_reshape_platform dnode r0 s) (node_id dnode)))
            * r0 / 180"
proof -
  define A where "A = treev_platform_area (length (children dnode))"
  define d where "d = treev_cubic_d A r0"
  define p where "p = platform (treev_params (treev_reshape_platform dnode r0 s) (node_id dnode))"
  have r: "512 \<le> r0" "0 < r0" using assms unfolding TREEV_MIN_CORE_RADIUS_def by simp_all
  have A: "0 < A" unfolding A_def by (rule treev_platform_area_pos)
  from treev_cubic_d_root_pos[OF A r(1)]
  have root: "treev_cubic A r0 d = 0" and d: "0 < d" unfolding d_def by simp_all
  have "r0 + d \<noteq> 0" using r(2) d by simp
  hence aspect: "pi * treev_cubic_theta A r0 * (r0 + d) / 180 - TREEV_PLATFORM_SPACING_WIDTH = d"
    unfolding d_def by (rule treev_cubic_theta_aspect)
  have pd: "platform_depth p = d + (edge15 - fmod (d - edge05) edge15) + edge05"
    and pa: "arc_width p = max (treev_min_arc_width r0) (treev_cubic_theta A r0)"
    unfolding p_def d_def A_def treev_reshape_platform_params by simp_all
  have "0 < edge05" unfolding edge05_def TREEV_LEAF_NODE_EDGE_def by simp
  with treev_row_rounding[of d] have dp: "d < platform_depth p" unfolding pd by linarith
  hence pos: "0 < platform_depth p" using d by linarith
  have mn: "treev_min_arc_width r0 \<le> arc_width p" unfolding pa by simp
  note edge = treev_min_arc_width_edge[OF r(2) mn]
  from A d root aspect dp pos pa mn edge show ?thesis
    unfolding p_def d_def A_def by blast
qed

theorem treev_reshape_platform_dimensions_witness:
  "TREEV_MIN_CORE_RADIUS \<le> 8192
   \<and> length (children two_files_dir) = 2
   \<and> 0 < treev_cubic_d 802816 8192
   \<and> treev_cubic 802816 8192 (treev_cubic_d 802816 8192) = 0
   \<and> pi * treev_cubic_theta 802816 8192 * (8192 + treev_cubic_d 802816 8192) / 180
        - TREEV_PLATFORM_SPACING_WIDTH = treev_cubic_d 802816 8192
   \<and> 0 < platform_depth (platform (treev_params
         (treev_reshape_platform two_files_dir 8192 fsv_example) (node_id two_files_dir)))
   \<and> treev_min_arc_width 8192
       \<le> arc_width (platform (treev_params
         (treev_reshape_platform two_files_dir 8192 fsv_example) (node_id two_files_dir)))"
proof -
  have n: "length (children two_files_dir) = 2" by (simp add: two_files_dir_def)
  have r: "TREEV_MIN_CORE_RADIUS \<le> 8192" by (simp add: TREEV_MIN_CORE_RADIUS_def)
  from treev_reshape_platform_dimensions[OF r, where dnode = two_files_dir and s = fsv_example]
  show ?thesis unfolding n treev_platform_area_two using r by simp
qed

section \<open>Properties: initializing a mode\<close>

lemma steady_refl: "steady s s"
  by (simp add: steady_def)

lemma steady_trans: "steady s s' \<Longrightarrow> steady s' s'' \<Longrightarrow> steady s s''"
  unfolding steady_def
  apply (intro conjI)
                 apply simp
                apply simp
               apply simp
              apply metis
             apply blast
            apply blast
           apply blast
          apply blast
         apply blast
        apply simp
       apply simp
      apply simp
     apply simp
    apply simp
  apply simp
  done

lemma steady_reset:
  "steady s s' \<Longrightarrow> deployment_reset (ctree_expanded s) s i
     \<Longrightarrow> deployment_reset (ctree_expanded s) s' i"
  unfolding steady_def deployment_reset_def
  by (metis subsetD)

lemma steady_ctree: "steady s s' \<Longrightarrow> ctree_expanded s' = ctree_expanded s"
  by (simp add: steady_def)

lemma steady_queue_ok: "steady s s' \<Longrightarrow> queue_ok (morph_queue s) \<Longrightarrow> queue_ok (morph_queue s')"
  by (simp add: steady_def)

lemma steady_tree: "steady s s' \<Longrightarrow> fstree s' = fstree s"
  by (simp add: steady_def fstree_def)

lemma steady_morph_break: "steady s (morph_break v s)"
proof -
  have sub: "set (heads (morph_queue (morph_break v s))) \<subseteq> set (heads (morph_queue s))"
    unfolding morph_break_def heads_def
    by (auto split: option.splits dest: in_set_takeD in_set_dropD)
  have ok: "queue_ok (morph_queue s) \<longrightarrow> queue_ok (morph_queue (morph_break v s))"
    using morph_break_queue_ok by blast
  have "\<exists>q. morph_break v s = s\<lparr>morph_queue := q\<rparr>"
  proof (cases "g_list_find_custom (morph_queue s) v")
    case None
    hence "morph_break v s = s\<lparr>morph_queue := morph_queue s\<rparr>" by (simp add: morph_break_def)
    thus ?thesis ..
  next
    case (Some i)
    hence "morph_break v s
        = s\<lparr>morph_queue := take i (morph_queue s) @ drop (Suc i) (morph_queue s)\<rparr>"
      by (simp add: morph_break_def)
    thus ?thesis ..
  qed
  then obtain q where q: "morph_break v s = s\<lparr>morph_queue := q\<rparr>" ..
  from sub ok show ?thesis unfolding q steady_def by simp
qed

lemma steady_set_deployment:
  "steady s (set_deployment dnode (if ctree_expanded s (node_id dnode) then 1 else 0) s)"
  unfolding steady_def set_deployment_def by simp

lemma steady_geometry_queue_rebuild: "steady s (geometry_queue_rebuild dnode s)"
  unfolding steady_def geometry_queue_rebuild_def queue_uncached_draw_def by simp

lemma steady_updates:
  "steady s (s\<lparr>discv_params := dp\<rparr>)"
  "steady s (s\<lparr>mapv_params := mp\<rparr>)"
  "steady s (s\<lparr>treev_params := tp\<rparr>)"
  "steady s (s\<lparr>treev_need_rearrange := nr\<rparr>)"
  "steady s (s\<lparr>treev_core_radius := cr\<rparr>)"
  "steady s (s\<lparr>node_color := nc\<rparr>)"
  "steady s (s\<lparr>gl := g\<rparr>)"
  "steady s (s\<lparr>calls := cl\<rparr>)"
  "steady s (s\<lparr>fstree_low_dlist := l\<rparr>)"
  "steady s (s\<lparr>fstree_high_dlist := l\<rparr>)"
  "steady s (s\<lparr>gl_lists := l\<rparr>)"
  "steady s (s\<lparr>mapv_cursor_prev_c0 := m0, mapv_cursor_prev_c1 := m1\<rparr>)"
  "steady s (s\<lparr>treev_cursor_prev_c0 := t0, treev_cursor_prev_c1 := t1\<rparr>)"
  unfolding steady_def by simp_all

lemma reset_dir_steady: "steady s (reset_dir dnode s)"
proof -
  define s1 where "s1 = morph_break (Deployment (node_id dnode)) s"
  define s2 where "s2 = set_deployment dnode (if ctree_expanded s1 (node_id dnode) then 1 else 0) s1"
  have 1: "steady s s1" unfolding s1_def by (rule steady_morph_break)
  have 2: "steady s1 s2" unfolding s2_def by (rule steady_set_deployment)
  have 3: "steady s2 (geometry_queue_rebuild dnode s2)" by (rule steady_geometry_queue_rebuild)
  have "reset_dir dnode s = geometry_queue_rebuild dnode s2"
    unfolding reset_dir_def s2_def s1_def Let_def dirtree_entry_expanded_def by simp
  with steady_trans[OF steady_trans[OF 1 2] 3] show ?thesis by simp
qed

lemma reset_dir_reset:
  assumes "queue_ok (morph_queue s)"
  shows "deployment_reset (ctree_expanded s) (reset_dir dnode s) (node_id dnode)"
proof -
  have "morph_queue (reset_dir dnode s)
      = filter (\<lambda>m. m_var (m_stage m) \<noteq> Deployment (node_id dnode)) (morph_queue s)"
    unfolding reset_dir_def Let_def geometry_queue_rebuild_def queue_uncached_draw_def
      set_deployment_def morph_break_eq[OF assms]
    by simp
  hence "Deployment (node_id dnode) \<notin> set (heads (morph_queue (reset_dir dnode s)))"
    by (auto simp: heads_def)
  moreover have "ctree_expanded (morph_break (Deployment (node_id dnode)) s) = ctree_expanded s"
    using steady_morph_break by (rule steady_ctree)
  ultimately show ?thesis
    unfolding deployment_reset_def
    by (simp add: reset_dir_def Let_def geometry_queue_rebuild_def queue_uncached_draw_def
        set_deployment_def dirtree_entry_expanded_def)
qed

lemma fold_reset:
  fixes f :: "'x \<Rightarrow> 'a \<Rightarrow> 'a" and st :: "'a \<Rightarrow> fsv_state" and nd :: "'x \<Rightarrow> GNode"
  assumes step: "\<And>x a. x \<in> set xs \<Longrightarrow> queue_ok (morph_queue (st a))
      \<Longrightarrow> steady (st a) (st (f x a))
          \<and> (\<forall>i \<in> set (dir_ids (nd x)). deployment_reset (ctree_expanded (st a)) (st (f x a)) i)"
    and ok: "queue_ok (morph_queue (st a))"
  shows "steady (st a) (st (fold f xs a))
           \<and> (\<forall>x \<in> set xs. \<forall>i \<in> set (dir_ids (nd x)).
                 deployment_reset (ctree_expanded (st a)) (st (fold f xs a)) i)"
  using step ok
proof (induction xs arbitrary: a)
  case Nil
  show ?case by (simp add: steady_refl)
next
  case (Cons x xs)
  have hd: "steady (st a) (st (f x a))"
    and hdr: "\<forall>i \<in> set (dir_ids (nd x)). deployment_reset (ctree_expanded (st a)) (st (f x a)) i"
    using Cons.prems(1)[of x a] Cons.prems(2) by simp_all
  have ok': "queue_ok (morph_queue (st (f x a)))"
    using hd Cons.prems(2) by (rule steady_queue_ok)
  have ct: "ctree_expanded (st (f x a)) = ctree_expanded (st a)"
    using hd by (rule steady_ctree)
  have ih: "steady (st (f x a)) (st (fold f xs (f x a)))
      \<and> (\<forall>y \<in> set xs. \<forall>i \<in> set (dir_ids (nd y)).
            deployment_reset (ctree_expanded (st (f x a))) (st (fold f xs (f x a))) i)"
  proof (rule Cons.IH)
    fix y b
    assume "y \<in> set xs" "queue_ok (morph_queue (st b))"
    thus "steady (st b) (st (f y b))
      \<and> (\<forall>i \<in> set (dir_ids (nd y)). deployment_reset (ctree_expanded (st b)) (st (f y b)) i)"
      using Cons.prems(1)[of y b] by simp
  qed (rule ok')
  have tl: "steady (st (f x a)) (st (fold f xs (f x a)))" using ih by simp
  have ct': "ctree_expanded (st (f x a)) = ctree_expanded (st a)" by (rule ct)
  have "\<forall>i \<in> set (dir_ids (nd x)).
          deployment_reset (ctree_expanded (st a)) (st (fold f xs (f x a))) i"
  proof
    fix i assume "i \<in> set (dir_ids (nd x))"
    with hdr have "deployment_reset (ctree_expanded (st (f x a))) (st (f x a)) i"
      unfolding ct by simp
    from steady_reset[OF tl this] show "deployment_reset (ctree_expanded (st a)) (st (fold f xs (f x a))) i"
      unfolding ct .
  qed
  with ih steady_trans[OF hd tl] show ?case unfolding ct by simp
qed

lemma tree_ok_children: "tree_ok dnode \<Longrightarrow> c \<in> set (children dnode) \<Longrightarrow> tree_ok c"
  by (cases dnode) (auto simp: list_all_iff)

lemma tree_ok_file: "tree_ok dnode \<Longrightarrow> \<not> NODE_IS_DIR dnode \<Longrightarrow> dir_ids dnode = []"
  by (cases dnode) (auto simp: NODE_IS_DIR_def)

lemma init_children:
  fixes f :: "'x \<Rightarrow> 'a \<Rightarrow> 'a" and st :: "'a \<Rightarrow> fsv_state" and nd :: "'x \<Rightarrow> GNode"
  assumes ok: "queue_ok (morph_queue s)"
    and s3: "steady s (st a)"
    and r3: "NODE_IS_DIR dnode \<longrightarrow> deployment_reset (ctree_expanded s) (st a) (node_id dnode)"
    and nodes: "nd ` set xs = set (children dnode)"
    and step: "\<And>x b. x \<in> set xs \<Longrightarrow> queue_ok (morph_queue (st b))
      \<Longrightarrow> steady (st b) (st (f x b))
          \<and> (\<forall>i \<in> set (dir_ids (nd x)). deployment_reset (ctree_expanded (st b)) (st (f x b)) i)"
  shows "steady s (st (fold f xs a))
    \<and> (\<forall>i \<in> set (dir_ids dnode). deployment_reset (ctree_expanded s) (st (fold f xs a)) i)"
proof -
  have oka: "queue_ok (morph_queue (st a))" using s3 ok by (rule steady_queue_ok)
  from fold_reset[where f = f and st = st and nd = nd and xs = xs and a = a, OF step oka]
  have f: "steady (st a) (st (fold f xs a))"
    and fr: "\<forall>x \<in> set xs. \<forall>i \<in> set (dir_ids (nd x)).
               deployment_reset (ctree_expanded (st a)) (st (fold f xs a)) i"
    by simp_all
  have ct: "ctree_expanded (st a) = ctree_expanded s" using s3 by (rule steady_ctree)
  have own: "deployment_reset (ctree_expanded s) (st (fold f xs a)) (node_id dnode)"
    if "NODE_IS_DIR dnode"
  proof -
    from r3 that have "deployment_reset (ctree_expanded (st a)) (st a) (node_id dnode)"
      unfolding ct by simp
    from steady_reset[OF f this] show ?thesis unfolding ct .
  qed
  have "\<forall>i \<in> set (dir_ids dnode). deployment_reset (ctree_expanded s) (st (fold f xs a)) i"
  proof
    fix i assume "i \<in> set (dir_ids dnode)"
    hence "(NODE_IS_DIR dnode \<and> i = node_id dnode)
        \<or> (\<exists>c \<in> set (children dnode). i \<in> set (dir_ids c))"
      by (cases dnode) (auto simp: NODE_IS_DIR_def node_id_def split: if_splits)
    hence "(NODE_IS_DIR dnode \<and> i = node_id dnode) \<or> (\<exists>x \<in> set xs. i \<in> set (dir_ids (nd x)))"
      unfolding nodes[symmetric] by blast
    thus "deployment_reset (ctree_expanded s) (st (fold f xs a)) i"
      using own fr unfolding ct by blast
  qed
  with steady_trans[OF s3 f] show ?thesis by simp
qed

lemma init_child_dir:
  assumes pre: "steady a a1"
    and rec: "steady a1 a2 \<and> (\<forall>i \<in> set (dir_ids c). deployment_reset (ctree_expanded a1) a2 i)"
    and post: "steady a2 a3"
  shows "steady a a3 \<and> (\<forall>i \<in> set (dir_ids c). deployment_reset (ctree_expanded a) a3 i)"
proof -
  have ct: "ctree_expanded a1 = ctree_expanded a" using pre by (rule steady_ctree)
  have ct2: "ctree_expanded a2 = ctree_expanded a1" using rec by (simp add: steady_ctree)
  have "deployment_reset (ctree_expanded a) a3 i" if "i \<in> set (dir_ids c)" for i
  proof -
    from rec that have "deployment_reset (ctree_expanded a2) a2 i" unfolding ct2 by simp
    from steady_reset[OF post this] show ?thesis unfolding ct2 ct .
  qed
  moreover have "steady a a3" using steady_trans[OF steady_trans[OF pre _] post] rec by simp
  ultimately show ?thesis by simp
qed

lemma steady_set_platform: "steady s (set_platform i f s)"
  by (simp add: set_platform_def steady_updates)

lemma steady_set_leaf: "steady s (set_leaf i f s)"
  by (simp add: set_leaf_def steady_updates)

lemma reset_dir_or_not:
  assumes "queue_ok (morph_queue s)"
  shows "steady s (if NODE_IS_DIR dnode then reset_dir dnode s else s)
    \<and> (NODE_IS_DIR dnode \<longrightarrow>
         deployment_reset (ctree_expanded s) (if NODE_IS_DIR dnode then reset_dir dnode s else s)
           (node_id dnode))"
  using reset_dir_steady[of s dnode] reset_dir_reset[OF assms, of dnode]
  by (simp add: steady_refl)

lemma treev_init_recursive_reset:
  assumes "list_all tree_ok (children dnode)" "queue_ok (morph_queue s)"
  shows "steady s (treev_init_recursive dnode s)
    \<and> (\<forall>i \<in> set (dir_ids dnode).
          deployment_reset (ctree_expanded s) (treev_init_recursive dnode s) i)"
  using assms
proof (induction dnode arbitrary: s)
  case (GNode d cs)
  define dnode where "dnode = GNode d cs"
  define g where "g = (\<lambda>node s.
      set_leaf (node_id node)
        (\<lambda>l. l\<lparr>leaf_height := sqrt (real_of_int
             (if NODE_IS_DIR node then max 64 (nsize (node_desc node)) + subtree_size (node_desc node)
              else max 64 (nsize (node_desc node)))) * TREEV_LEAF_HEIGHT_MULTIPLIER\<rparr>)
        (if NODE_IS_DIR node then
           treev_init_recursive node
             (set_platform (node_id node) (\<lambda>p. p\<lparr>platform_height := TREEV_PLATFORM_HEIGHT\<rparr>) s)
         else s))"
  define s3 where "s3 = (if NODE_IS_DIR dnode then reset_dir dnode s else s)"
  define s4 where "s4 = s3\<lparr>treev_need_rearrange := (treev_need_rearrange s3)(node_id dnode := False)\<rparr>"
  have unfold: "treev_init_recursive dnode s = fold g (children dnode) s4"
    unfolding s4_def s3_def g_def dnode_def
    by (subst treev_init_recursive.simps) (simp add: Let_def reset_dir_def)
  have ok: "queue_ok (morph_queue s)" by (rule GNode.prems(2))
  have s3: "steady s s3"
    and r3: "NODE_IS_DIR dnode \<longrightarrow> deployment_reset (ctree_expanded s) s3 (node_id dnode)"
    using reset_dir_or_not[OF ok, of dnode] unfolding s3_def by simp_all
  have s34: "steady s3 s4" unfolding s4_def by (rule steady_updates)
  have s4: "steady s s4" using s3 s34 by (rule steady_trans)
  have r4: "NODE_IS_DIR dnode \<longrightarrow> deployment_reset (ctree_expanded s) s4 (node_id dnode)"
    using r3 steady_reset[OF s34, of "node_id dnode"] steady_ctree[OF s3] by auto
  have step: "steady a (g c a)
      \<and> (\<forall>i \<in> set (dir_ids c). deployment_reset (ctree_expanded a) (g c a) i)"
    if c: "c \<in> set (children dnode)" and oka: "queue_ok (morph_queue a)" for c a
  proof (cases "NODE_IS_DIR c")
    case True
    define a1 where "a1 = set_platform (node_id c) (\<lambda>p. p\<lparr>platform_height := TREEV_PLATFORM_HEIGHT\<rparr>) a"
    have 1: "steady a a1" unfolding a1_def by (rule steady_set_platform)
    have ok1: "queue_ok (morph_queue a1)" using 1 oka by (rule steady_queue_ok)
    have c': "c \<in> set cs" using c by (simp add: dnode_def)
    have tc: "tree_ok c" using GNode.prems(1) c' by (simp add: list_all_iff)
    hence "list_all tree_ok (children c)" by (cases c) simp
    note rec = GNode.IH[OF c' this ok1]
    have g: "steady (treev_init_recursive c a1) (g c a)" unfolding g_def a1_def using True
      by (simp add: steady_set_leaf)
    from init_child_dir[OF 1 rec g] show ?thesis .
  next
    case False
    have tc: "tree_ok c" using GNode.prems(1) c by (simp add: list_all_iff dnode_def)
    have "dir_ids c = []" using tc False by (rule tree_ok_file)
    moreover have "steady a (g c a)" unfolding g_def using False by (simp add: steady_set_leaf)
    ultimately show ?thesis by simp
  qed
  have "steady s (treev_init_recursive dnode s)
    \<and> (\<forall>i \<in> set (dir_ids dnode).
          deployment_reset (ctree_expanded s) (treev_init_recursive dnode s) i)"
    unfolding unfold
    by (rule init_children[where st = "\<lambda>a. a" and nd = "\<lambda>c. c" and f = g, OF ok s4 r4 _ step])
      simp_all
  thus ?case unfolding dnode_def .
qed

lemma discv_leaf_pass_steady: "steady (fst a) (fst (discv_leaf_pass r node a))"
  unfolding discv_leaf_pass_def Let_def by (simp add: steady_updates)

lemma fold_discv_leaf_pass_steady: "steady (fst a) (fst (fold (discv_leaf_pass r) xs a))"
proof (induction xs arbitrary: a)
  case Nil
  show ?case by (simp add: steady_refl)
next
  case (Cons x xs)
  from steady_trans[OF discv_leaf_pass_steady Cons.IH] show ?case by simp
qed

lemma discv_place_steady: "steady s (fst (discv_place k stagger node sw s))"
  unfolding discv_place_def Let_def by (simp add: steady_updates)

lemma discv_init_recursive_reset:
  assumes "list_all tree_ok (children dnode)" "queue_ok (morph_queue s)"
  shows "steady s (discv_init_recursive dnode th s)
    \<and> (\<forall>i \<in> set (dir_ids dnode).
          deployment_reset (ctree_expanded s) (discv_init_recursive dnode th s) i)"
  using assms
proof (induction dnode arbitrary: s th)
  case (GNode d cs)
  define dnode where "dnode = GNode d cs"
  define s3 where "s3 = (if NODE_IS_DIR dnode then reset_dir dnode s else s)"
  define a4 where "a4 = fold (discv_leaf_pass (radius (discv_params s3 (node_id dnode))))
                          (children dnode) (s3, 0)"
  define k where "k = DISCV_LEAF_RANGE_ARC_WIDTH / snd a4"
  define g where "g = (\<lambda>node (s, sw).
      (let (s', sw') = discv_place k (k \<le> 1) node sw s
       in (if NODE_IS_DIR node
           then discv_init_recursive node (disc_theta (discv_params s' (node_id node)) + 180) s'
           else s', sw')))"
  define node_list where "node_list = g_list_sort discv_node_compare (rev (children dnode))"
  define sw0 where "sw0 = \<lparr>sw_first = True, sw_even = True, sw_out = True,
                          sw_theta0 = th - 180, sw_theta1 = th + 180\<rparr>"
  have nodes: "set node_list = set (children dnode)"
    unfolding node_list_def by (simp add: g_list_sort_set)
  have unfold: "discv_init_recursive dnode th s = fst (fold g node_list (fst a4, sw0))"
  proof (cases "children dnode = []")
    case True
    hence "node_list = []" using nodes by simp
    moreover have "a4 = (s3, 0)" unfolding a4_def True by simp
    ultimately show ?thesis
      unfolding s3_def
      by (subst discv_init_recursive.simps) (simp add: Let_def reset_dir_def True)
  next
    case False
    show ?thesis
      unfolding g_def node_list_def sw0_def k_def a4_def s3_def
      by (subst discv_init_recursive.simps)
        (simp add: Let_def reset_dir_def False split_beta cong: if_cong)
  qed
  have ok: "queue_ok (morph_queue s)" by (rule GNode.prems(2))
  have s3: "steady s s3"
    and r3: "NODE_IS_DIR dnode \<longrightarrow> deployment_reset (ctree_expanded s) s3 (node_id dnode)"
    using reset_dir_or_not[OF ok, of dnode] unfolding s3_def by simp_all
  have s34: "steady s3 (fst a4)"
    using fold_discv_leaf_pass_steady[of "(s3, 0)"] unfolding a4_def by simp
  have s4: "steady s (fst a4)" using s3 s34 by (rule steady_trans)
  have r4: "NODE_IS_DIR dnode \<longrightarrow> deployment_reset (ctree_expanded s) (fst a4) (node_id dnode)"
    using r3 steady_reset[OF s34, of "node_id dnode"] steady_ctree[OF s3] by auto
  have step: "steady (fst a) (fst (g c a))
      \<and> (\<forall>i \<in> set (dir_ids c). deployment_reset (ctree_expanded (fst a)) (fst (g c a)) i)"
    if c: "c \<in> set node_list" and oka: "queue_ok (morph_queue (fst a))" for c a
  proof (cases "NODE_IS_DIR c")
    case True
    define a1 where "a1 = fst (discv_place k (k \<le> 1) c (snd a) (fst a))"
    have 1: "steady (fst a) a1" unfolding a1_def by (rule discv_place_steady)
    have ok1: "queue_ok (morph_queue a1)" using 1 oka by (rule steady_queue_ok)
    have c': "c \<in> set cs" using c nodes by (simp add: dnode_def)
    have tc: "tree_ok c" using GNode.prems(1) c' by (simp add: list_all_iff)
    hence "list_all tree_ok (children c)" by (cases c) simp
    note rec = GNode.IH[OF c' this ok1, of "disc_theta (discv_params a1 (node_id c)) + 180"]
    have g: "fst (g c a) = discv_init_recursive c (disc_theta (discv_params a1 (node_id c)) + 180) a1"
      unfolding g_def a1_def using True by (simp add: split_beta Let_def)
    from init_child_dir[OF 1 rec steady_refl] show ?thesis unfolding g .
  next
    case False
    have c': "c \<in> set cs" using c nodes by (simp add: dnode_def)
    have tc: "tree_ok c" using GNode.prems(1) c' by (simp add: list_all_iff)
    have "dir_ids c = []" using tc False by (rule tree_ok_file)
    moreover have "steady (fst a) (fst (g c a))" unfolding g_def using False
      by (simp add: split_beta Let_def discv_place_steady)
    ultimately show ?thesis by simp
  qed
  have "steady s (discv_init_recursive dnode th s)
    \<and> (\<forall>i \<in> set (dir_ids dnode).
          deployment_reset (ctree_expanded s) (discv_init_recursive dnode th s) i)"
    unfolding unfold
    by (rule init_children[where st = fst and nd = "\<lambda>c. c" and f = g and a = "(fst a4, sw0)",
          OF ok _ _ _ step])
      (simp_all add: s4 r4 nodes)
  thus ?case unfolding dnode_def .
qed

lemma mapv_place_steady_file:
  "\<not> NODE_IS_DIR (fst x) \<Longrightarrow> steady s (mapv_place x s)"
  unfolding mapv_place_def by (simp add: split_beta Let_def steady_updates steady_def)

lemma mapv_init_recursive_reset:
  assumes "list_all tree_ok (children dnode)" "queue_ok (morph_queue s)"
  shows "steady s (mapv_init_recursive dnode s)
    \<and> (\<forall>i \<in> set (dir_ids dnode).
          deployment_reset (ctree_expanded s) (mapv_init_recursive dnode s) i)"
  using assms
proof (induction dnode arbitrary: s)
  case (GNode d cs)
  define dnode where "dnode = GNode d cs"
  define s3 where "s3 = reset_dir dnode s"
  define layout where "layout = mapv_layout (mapv_params s3 (node_id dnode)) (children dnode)"
  have nodes: "map fst layout = children dnode"
    unfolding layout_def by (rule mapv_layout_nodes)
  hence nodes': "fst ` set layout = set (children dnode)" by (metis set_map)
  have unfold: "mapv_init_recursive dnode s = fold mapv_place layout s3"
  proof (cases "children dnode = []")
    case True
    hence "layout = []" using nodes by simp
    thus ?thesis
      unfolding s3_def
      by (subst mapv_init_recursive_unfold)
        (simp add: Let_def reset_dir_def True dirtree_entry_expanded_def)
  next
    case False
    show ?thesis
      unfolding layout_def s3_def
      by (subst mapv_init_recursive_unfold)
        (simp add: Let_def reset_dir_def False dirtree_entry_expanded_def)
  qed
  have ok: "queue_ok (morph_queue s)" by (rule GNode.prems(2))
  have s3: "steady s s3" unfolding s3_def by (rule reset_dir_steady)
  have r3: "NODE_IS_DIR dnode \<longrightarrow> deployment_reset (ctree_expanded s) s3 (node_id dnode)"
    unfolding s3_def using reset_dir_reset[OF ok] by simp
  have step: "steady a (mapv_place x a)
      \<and> (\<forall>i \<in> set (dir_ids (fst x)). deployment_reset (ctree_expanded a) (mapv_place x a) i)"
    if x: "x \<in> set layout" and oka: "queue_ok (morph_queue a)" for x a
  proof (cases "NODE_IS_DIR (fst x)")
    case True
    define c where "c = fst x"
    define a1 where "a1 = a\<lparr>mapv_params := (mapv_params a)
        (node_id c := (mapv_params a (node_id c))
           \<lparr>c0 := fst (snd x), c1 := snd (snd x), height := mapv_dir_height\<rparr>)\<rparr>"
    have 1: "steady a a1" unfolding a1_def by (rule steady_updates)
    have ok1: "queue_ok (morph_queue a1)" using 1 oka by (rule steady_queue_ok)
    have c': "c \<in> set cs" using x nodes' unfolding c_def dnode_def by force
    have tc: "tree_ok c" using GNode.prems(1) c' by (simp add: list_all_iff)
    hence "list_all tree_ok (children c)" by (cases c) simp
    note rec = GNode.IH[OF c' this ok1]
    have g: "mapv_place x a = mapv_init_recursive c a1"
      unfolding mapv_place_def a1_def c_def using True
      by (cases x) (simp add: Let_def)
    from init_child_dir[OF 1 rec steady_refl] show ?thesis unfolding g c_def .
  next
    case False
    have c': "fst x \<in> set cs" using x nodes' unfolding dnode_def by force
    have tc: "tree_ok (fst x)" using GNode.prems(1) c' by (simp add: list_all_iff)
    have "dir_ids (fst x) = []" using tc False by (rule tree_ok_file)
    moreover have "steady a (mapv_place x a)" using False by (rule mapv_place_steady_file)
    ultimately show ?thesis by simp
  qed
  have "steady s (mapv_init_recursive dnode s)
    \<and> (\<forall>i \<in> set (dir_ids dnode).
          deployment_reset (ctree_expanded s) (mapv_init_recursive dnode s) i)"
    unfolding unfold
    by (rule init_children[where st = "\<lambda>a. a" and nd = fst and f = mapv_place,
          OF ok s3 r3 nodes' step])
  thus ?case unfolding dnode_def .
qed

lemma dir_ids_fstree:
  "set (dir_ids (root_dnode s)) \<subseteq> set (dir_ids (fstree s))"
  by (auto simp: fstree_def)

lemma discv_init_reset:
  assumes t: "tree_ok (root_dnode s)" and ok: "queue_ok (morph_queue s)"
  shows "steady s (discv_init s)
    \<and> (\<forall>i \<in> set (dir_ids (root_dnode s)). deployment_reset (ctree_expanded s) (discv_init s) i)"
proof -
  define s1 where "s1 = s\<lparr>discv_params := (discv_params s)
      (nid (fstree_desc s) := (discv_params s (nid (fstree_desc s)))\<lparr>radius := 0, disc_theta := 0\<rparr>)\<rparr>"
  define s2 where "s2 = discv_init_recursive (fstree s1) 270 s1"
  have 1: "steady s s1" unfolding s1_def by (rule steady_updates)
  have ok1: "queue_ok (morph_queue s1)" using 1 ok by (rule steady_queue_ok)
  have ft: "fstree s1 = fstree s" using 1 by (rule steady_tree)
  have "list_all tree_ok (children (fstree s1))" unfolding ft using t by (simp add: fstree_def)
  from discv_init_recursive_reset[OF this ok1, of 270]
  have rec: "steady s1 s2
      \<and> (\<forall>i \<in> set (dir_ids (root_dnode s)). deployment_reset (ctree_expanded s1) s2 i)"
    unfolding s2_def ft using dir_ids_fstree[of s] by blast
  have 3: "steady s2 (discv_init s)"
    unfolding discv_init_def Let_def s2_def s1_def gl_emit_def
    by (rule steady_trans[OF steady_updates(1) steady_updates(7)])
  from init_child_dir[OF 1 rec 3] show ?thesis .
qed

lemma mapv_init_reset:
  assumes t: "tree_ok (root_dnode s)" and ok: "queue_ok (morph_queue s)"
  shows "steady s (mapv_init s)
    \<and> (\<forall>i \<in> set (dir_ids (root_dnode s)). deployment_reset (ctree_expanded s) (mapv_init s) i)"
proof -
  define root_dims_y where
    "root_dims_y = sqrt (real_of_int (subtree_size (fstree_desc s)) / MAPV_ROOT_ASPECT_RATIO)"
  define s1 where "s1 = s\<lparr>mapv_params := (mapv_params s)
      (nid (fstree_desc s) := (mapv_params s (nid (fstree_desc s)))\<lparr>height := 0\<rparr>)\<rparr>"
  define s2 where "s2 = s1\<lparr>mapv_params := (mapv_params s1)
      (node_id (root_dnode s) :=
         \<lparr>c0 = \<lparr>vx = - 0.5 * (MAPV_ROOT_ASPECT_RATIO * root_dims_y), vy = - 0.5 * root_dims_y\<rparr>,
          c1 = \<lparr>vx = 0.5 * (MAPV_ROOT_ASPECT_RATIO * root_dims_y), vy = 0.5 * root_dims_y\<rparr>,
          height = mapv_dir_height\<rparr>)\<rparr>"
  define s3 where "s3 = mapv_init_recursive (root_dnode s2) s2"
  have 1: "steady s s2" unfolding s2_def s1_def
    by (rule steady_trans[OF steady_updates(2) steady_updates(2)])
  have ok1: "queue_ok (morph_queue s2)" using 1 ok by (rule steady_queue_ok)
  have rt: "root_dnode s2 = root_dnode s" using 1 by (simp add: steady_def)
  have "list_all tree_ok (children (root_dnode s2))" unfolding rt using t
    by (cases "root_dnode s") simp
  from mapv_init_recursive_reset[OF this ok1]
  have rec: "steady s2 s3
      \<and> (\<forall>i \<in> set (dir_ids (root_dnode s)). deployment_reset (ctree_expanded s2) s3 i)"
    unfolding s3_def rt .
  have 3: "steady s3 (mapv_init s)"
    unfolding mapv_init_def Let_def s3_def s2_def s1_def root_dims_y_def
    by (rule steady_updates)
  from init_child_dir[OF 1 rec 3] show ?thesis .
qed

lemma color_of_node_ok:
  assumes "color_mode s \<noteq> COLOR_NONE" "time_colors_ok s [node_id node]"
  shows "\<exists>c. color_of_node s node = Inr c"
  using assms
  unfolding color_of_node_def time_color_def time_colors_ok_def
  by (cases "color_mode s"; cases "time_color_file s (node_id node)") simp_all

lemma time_colors_ok_steady:
  "steady s s' \<Longrightarrow> time_colors_ok s' is = time_colors_ok s is"
  by (simp add: steady_def time_colors_ok_def)

lemma ids_node: "set (ids c) = insert (node_id c) (\<Union>x \<in> set (children c). set (ids x))"
  by (cases c) (auto simp: node_id_def)

lemma color_assign_recursive_steady:
  assumes "color_mode s \<noteq> COLOR_NONE" "time_colors_ok s (concat (map ids (children dnode)))"
  shows "\<exists>s'. color_assign_recursive dnode s = Inr s' \<and> steady s s'"
  using assms
proof (induction dnode arbitrary: s)
  case (GNode d cs)
  define F where "F = (\<lambda>node r.
      (case r of
         Inl e \<Rightarrow> Inl e
       | Inr s \<Rightarrow>
           (case color_of_node s node of
              Inl e \<Rightarrow> Inl e
            | Inr color \<Rightarrow>
                (let s' = s\<lparr>node_color := (node_color s)(node_id node := color)\<rparr>
                 in if NODE_IS_DIR node then color_assign_recursive node s' else Inr s'))))"
  have unfold: "color_assign_recursive (GNode d cs) s
      = fold F cs (Inr (geometry_queue_rebuild (GNode d cs) s))"
    unfolding F_def by (subst color_assign_recursive.simps) simp
  have loop: "\<exists>a'. fold F xs (Inr a) = Inr a' \<and> steady a a'"
    if "set xs \<subseteq> set cs" "color_mode a \<noteq> COLOR_NONE"
      "time_colors_ok a (concat (map ids xs))" for xs a
    using that
  proof (induction xs arbitrary: a)
    case Nil
    show ?case by (simp add: steady_refl)
  next
    case (Cons x xs)
    have x: "x \<in> set cs" using Cons.prems(1) by simp
    have tx: "time_colors_ok a (ids x)" and txs: "time_colors_ok a (concat (map ids xs))"
      using Cons.prems(3) by (simp_all add: time_colors_ok_def)
    have "time_colors_ok a [node_id x]"
      using tx by (cases x) (simp add: time_colors_ok_def node_id_def)
    from color_of_node_ok[OF Cons.prems(2) this]
    obtain c where c: "color_of_node a x = Inr c" ..
    define a1 where "a1 = a\<lparr>node_color := (node_color a)(node_id x := c)\<rparr>"
    have 1: "steady a a1" unfolding a1_def by (rule steady_updates)
    have cm1: "color_mode a1 \<noteq> COLOR_NONE" using Cons.prems(2) by (simp add: a1_def)
    have "\<exists>a2. F x (Inr a) = Inr a2 \<and> steady a a2"
    proof (cases "NODE_IS_DIR x")
      case True
      have "time_colors_ok a (concat (map ids (children x)))"
        using tx by (cases x) (simp add: time_colors_ok_def)
      hence "time_colors_ok a1 (concat (map ids (children x)))"
        by (simp add: time_colors_ok_steady[OF 1])
      from GNode.IH[OF x cm1 this]
      obtain a2 where "color_assign_recursive x a1 = Inr a2" "steady a1 a2" by blast
      thus ?thesis unfolding F_def using True c 1 steady_trans[OF 1]
        by (simp add: Let_def a1_def)
    next
      case False
      thus ?thesis unfolding F_def using c 1 by (simp add: Let_def a1_def)
    qed
    then obtain a2 where a2: "F x (Inr a) = Inr a2" and s2: "steady a a2" by blast
    have cm2: "color_mode a2 \<noteq> COLOR_NONE" using Cons.prems(2) s2 by (simp add: steady_def)
    have t2: "time_colors_ok a2 (concat (map ids xs))"
      using txs by (simp add: time_colors_ok_steady[OF s2])
    from Cons.IH[OF _ cm2 t2] Cons.prems(1)
    obtain a3 where "fold F xs (Inr a2) = Inr a3" "steady a2 a3" by auto
    thus ?case using a2 steady_trans[OF s2] by auto
  qed
  define s1 where "s1 = geometry_queue_rebuild (GNode d cs) s"
  have 1: "steady s s1" unfolding s1_def by (rule steady_geometry_queue_rebuild)
  have cm: "color_mode s1 \<noteq> COLOR_NONE" using GNode.prems(1) 1 by (simp add: steady_def)
  have t1: "time_colors_ok s1 (concat (map ids cs))"
    using GNode.prems(2) by (simp add: time_colors_ok_steady[OF 1])
  from loop[OF subset_refl cm t1]
  obtain s' where "fold F cs (Inr s1) = Inr s'" "steady s1 s'" by blast
  thus ?case unfolding unfold s1_def[symmetric] using steady_trans[OF 1] by blast
qed

lemma treev_arrange_recursive_unfold:
  "treev_arrange_recursive dnode r0 reshape_tree s0 =
     (if \<not> reshape_tree \<and> \<not> treev_need_rearrange s0 (node_id dnode) then s0
      else if reshape_tree \<and> NODE_IS_DIR dnode \<and> geometry_treev_is_leaf s0 dnode
      then geometry_queue_rebuild dnode s0
      else
        (let s1 = (if reshape_tree \<and> NODE_IS_DIR dnode then treev_reshape_platform dnode r0 s0
                   else s0);
             subtree_r0 = r0 + platform_depth (get_platform s1 (node_id dnode))
                            + TREEV_PLATFORM_SPACING_DEPTH;
             a2 = fold (treev_arrange_child subtree_r0 reshape_tree)
                    (takeWhile NODE_IS_DIR (children dnode)) (s1, 0);
             s3 = set_platform (node_id dnode) (\<lambda>p. p\<lparr>subtree_arc_width := snd a2\<rparr>) (fst a2);
             s4 = fst (fold treev_spread (takeWhile NODE_IS_DIR (children dnode))
                         (s3, - 0.5 * snd a2))
         in s4\<lparr>treev_need_rearrange := (treev_need_rearrange s4)(node_id dnode := False)\<rparr>))"
proof -
  have eq: "(\<lambda>node (s, acc).
               (set_platform (node_id node)
                  (\<lambda>p. p\<lparr>platform_theta :=
                     deployment (treev_arrange_recursive node R reshape_tree s) node
                       * max (arc_width (get_platform (treev_arrange_recursive node R reshape_tree s)
                                (node_id node)))
                             (subtree_arc_width (get_platform (treev_arrange_recursive node R reshape_tree s)
                                (node_id node)))\<rparr>)
                  (treev_arrange_recursive node R reshape_tree s),
                acc + deployment (treev_arrange_recursive node R reshape_tree s) node
                       * max (arc_width (get_platform (treev_arrange_recursive node R reshape_tree s)
                                (node_id node)))
                             (subtree_arc_width (get_platform (treev_arrange_recursive node R reshape_tree s)
                                (node_id node)))))
           = treev_arrange_child R reshape_tree" for R
    by (intro ext) (simp add: treev_arrange_child_def split_beta Let_def)
  show ?thesis
    by (subst treev_arrange_recursive.simps) (simp only: Let_def split_beta eq)
qed

lemma arrange_frame_refl: "arrange_frame I s s"
  by (simp add: arrange_frame_def steady_refl)

lemma arrange_frame_trans:
  assumes "arrange_frame I s s'" "arrange_frame J s' s''" "I \<union> J \<subseteq> K"
  shows "arrange_frame K s s''"
proof -
  have "treev_params s'' i = treev_params s i" if "i \<notin> K" for i
  proof -
    from that assms(3) have "i \<notin> I" "i \<notin> J" by auto
    thus ?thesis using assms(1,2) by (simp add: arrange_frame_def)
  qed
  moreover have "steady s s''"
    using assms(1,2) by (auto simp: arrange_frame_def intro: steady_trans)
  ultimately show ?thesis using assms(1,2) by (simp add: arrange_frame_def)
qed

lemma arrange_frame_mono: "arrange_frame I s s' \<Longrightarrow> I \<subseteq> K \<Longrightarrow> arrange_frame K s s'"
  unfolding arrange_frame_def by (auto simp: subset_iff)

lemma arrange_frame_set_platform: "arrange_frame {i} s (set_platform i f s)"
  unfolding arrange_frame_def by (simp add: steady_set_platform) (simp add: set_platform_def)

lemma arrange_frame_queue_rebuild: "arrange_frame {} s (geometry_queue_rebuild dnode s)"
  unfolding arrange_frame_def
  by (simp add: steady_geometry_queue_rebuild)
    (simp add: geometry_queue_rebuild_def queue_uncached_draw_def)

lemma arrange_frame_need_rearrange: "arrange_frame {} s (s\<lparr>treev_need_rearrange := nr\<rparr>)"
  unfolding arrange_frame_def by (simp add: steady_updates)

lemma arrange_frame_reshape:
  "arrange_frame {node_id dnode} s (treev_reshape_platform dnode r0 s)"
proof -
  define s1 where "s1 = s\<lparr>treev_params := (treev_params s)
      (node_id dnode := (treev_params s (node_id dnode))
         \<lparr>platform := (platform (treev_params s (node_id dnode)))
            \<lparr>arc_width := max (treev_min_arc_width r0)
                (treev_cubic_theta (treev_platform_area (length (children dnode))) r0),
             platform_depth := treev_cubic_d (treev_platform_area (length (children dnode))) r0
               + (edge15 - fmod (treev_cubic_d (treev_platform_area (length (children dnode))) r0
                    - edge05) edge15) + edge05\<rparr>\<rparr>)\<rparr>"
  have 1: "arrange_frame {node_id dnode} s s1"
    unfolding arrange_frame_def s1_def by (simp add: steady_updates)
  have "treev_reshape_platform dnode r0 s = geometry_queue_rebuild dnode s1"
    unfolding treev_reshape_platform_def s1_def Let_def ..
  with arrange_frame_trans[OF 1 arrange_frame_queue_rebuild, of "{node_id dnode}"]
  show ?thesis by simp
qed

lemma fold_arrange_frame:
  fixes f :: "'x \<Rightarrow> 'a \<Rightarrow> 'a" and st :: "'a \<Rightarrow> fsv_state"
  assumes "\<And>x a. x \<in> set xs \<Longrightarrow> arrange_frame (I x) (st a) (st (f x a))"
  shows "arrange_frame (\<Union>x \<in> set xs. I x) (st a) (st (fold f xs a))"
  using assms
proof (induction xs arbitrary: a)
  case Nil
  show ?case by (simp add: arrange_frame_refl)
next
  case (Cons x xs)
  have 1: "arrange_frame (I x) (st a) (st (f x a))" using Cons.prems by simp
  have 2: "arrange_frame (\<Union>x \<in> set xs. I x) (st (f x a)) (st (fold f xs (f x a)))"
    by (rule Cons.IH) (use Cons.prems in simp)
  from arrange_frame_trans[OF 1 2, of "\<Union>x \<in> set (x # xs). I x"] show ?case by simp
qed

lemma treev_spread_frame: "arrange_frame {node_id c} (fst a) (fst (treev_spread c a))"
  unfolding treev_spread_def Let_def by (simp add: arrange_frame_set_platform)

lemma ids_child_subset: "c \<in> set (children dnode) \<Longrightarrow> set (ids c) \<subseteq> set (ids dnode)"
  by (cases dnode) auto

lemma node_id_in_ids: "node_id c \<in> set (ids c)"
  by (cases c) (simp add: node_id_def)

lemma treev_arrange_recursive_frame:
  "arrange_frame (set (ids dnode)) s (treev_arrange_recursive dnode r0 rt s)"
proof (induction dnode arbitrary: s r0)
  case (GNode d cs)
  define dnode where "dnode = GNode d cs"
  define I where "I = set (ids dnode)"
  define dirs where "dirs = takeWhile NODE_IS_DIR (children dnode)"
  have dirs: "set dirs \<subseteq> set cs" unfolding dirs_def dnode_def by (auto dest: set_takeWhileD)
  have own: "node_id dnode \<in> I" unfolding I_def by (rule node_id_in_ids)
  have sub: "set (ids c) \<subseteq> I" if "c \<in> set dirs" for c
    using that dirs ids_child_subset[of c dnode] unfolding I_def dnode_def by auto
  define s1 where "s1 = (if rt \<and> NODE_IS_DIR dnode then treev_reshape_platform dnode r0 s else s)"
  define R where "R = r0 + platform_depth (get_platform s1 (node_id dnode)) + TREEV_PLATFORM_SPACING_DEPTH"
  define a2 where "a2 = fold (treev_arrange_child R rt) dirs (s1, 0)"
  define s3 where "s3 = set_platform (node_id dnode) (\<lambda>p. p\<lparr>subtree_arc_width := snd a2\<rparr>) (fst a2)"
  define s4 where "s4 = fst (fold treev_spread dirs (s3, - 0.5 * snd a2))"
  have 1: "arrange_frame I s s1"
    unfolding s1_def using arrange_frame_mono[OF arrange_frame_reshape[of dnode s r0], of I] own
    by (simp add: arrange_frame_refl)
  have child: "arrange_frame (set (ids c)) (fst a) (fst (treev_arrange_child R rt c a))"
    if "c \<in> set dirs" for c a
  proof -
    have c: "c \<in> set cs" using that dirs by auto
    have "arrange_frame (set (ids c) \<union> {node_id c}) (fst a) (fst (treev_arrange_child R rt c a))"
      unfolding treev_arrange_child_def Let_def fst_conv
      by (rule arrange_frame_trans[OF GNode.IH[OF c] arrange_frame_set_platform subset_refl])
    thus ?thesis using node_id_in_ids[of c] by (simp add: insert_absorb)
  qed
  have "arrange_frame (\<Union>c \<in> set dirs. set (ids c)) (fst (s1, 0 :: real)) (fst a2)"
    unfolding a2_def by (rule fold_arrange_frame) (rule child)
  hence 2: "arrange_frame I s1 (fst a2)"
    using sub by (auto intro: arrange_frame_mono)
  have 3: "arrange_frame I (fst a2) s3"
    unfolding s3_def using own by (auto intro: arrange_frame_mono[OF arrange_frame_set_platform])
  have "arrange_frame (\<Union>c \<in> set dirs. {node_id c}) (fst (s3, - 0.5 * snd a2)) s4"
    unfolding s4_def by (rule fold_arrange_frame) (rule treev_spread_frame)
  hence 4: "arrange_frame I s3 s4"
    using sub node_id_in_ids by (auto intro: arrange_frame_mono)
  have 5: "arrange_frame I s4 (s4\<lparr>treev_need_rearrange := (treev_need_rearrange s4)(node_id dnode := False)\<rparr>)"
    by (rule arrange_frame_mono[OF arrange_frame_need_rearrange]) simp
  have t: "arrange_frame I a b \<Longrightarrow> arrange_frame I b c \<Longrightarrow> arrange_frame I a c" for a b c
    by (erule (1) arrange_frame_trans) simp
  have all: "arrange_frame I s (s4\<lparr>treev_need_rearrange := (treev_need_rearrange s4)(node_id dnode := False)\<rparr>)"
    by (rule t[OF t[OF t[OF t[OF 1 2] 3] 4] 5])
  have "arrange_frame I s (treev_arrange_recursive dnode r0 rt s)"
    apply (subst treev_arrange_recursive_unfold)
    apply (simp only: Let_def s1_def[symmetric] R_def[symmetric] dirs_def[symmetric]
        a2_def[symmetric] s3_def[symmetric] s4_def[symmetric])
    using all arrange_frame_refl[of I s]
      arrange_frame_mono[OF arrange_frame_queue_rebuild[of s dnode], of I]
    apply auto
    done
  thus ?case unfolding I_def dnode_def .
qed

lemma treev_cubic_above:
  assumes A: "0 < A" and r: "0 < r" and x: "sqrt (2 * A + 512) \<le> x"
  shows "0 < treev_cubic A r x"
proof -
  have "0 < sqrt (2 * A + 512)" using A by simp
  hence xp: "0 < x" using x by linarith
  have "(sqrt (2 * A + 512))\<^sup>2 \<le> x\<^sup>2"
    using x A by (intro power_mono) simp_all
  hence x2: "2 * A + 512 \<le> x * x" using A by (simp add: power2_eq_square)
  have 1: "0 \<le> x * (x * x - (2 * A + 512))" using xp x2 by (intro mult_nonneg_nonneg) simp_all
  have 2: "0 < r * (x * x - A)" using r x2 A by (intro mult_pos_pos) simp_all
  have 3: "0 < x * x" "0 < r * x" using xp r by simp_all
  have "treev_cubic A r x
      = x * (x * x - (2 * A + 512)) + 2 * (r * (x * x - A)) + 512 * (x * x) + 1024 * (r * x)"
    unfolding treev_cubic_def TREEV_PLATFORM_SPACING_WIDTH_def
    by (simp add: algebra_simps power3_eq_cube power2_eq_square)
  thus ?thesis using 1 2 3 by linarith
qed

lemma treev_cubic_d_upper:
  assumes A: "0 < A" and r: "512 \<le> r"
  shows "treev_cubic_d A r < sqrt (2 * A + 512)"
proof (rule ccontr)
  assume "\<not> treev_cubic_d A r < sqrt (2 * A + 512)"
  hence "sqrt (2 * A + 512) \<le> treev_cubic_d A r" by simp
  from treev_cubic_above[OF A _ this, of r] r treev_cubic_d_root_pos[OF A r]
  show False by simp
qed

lemma treev_cubic_theta_upper:
  assumes A: "0 < A" and r: "512 \<le> r"
  shows "treev_cubic_theta A r \<le> 180 / pi * (sqrt (2 * A + 512) + 512) / r"
proof -
  define d where "d = treev_cubic_d A r"
  have d: "0 < d" "d < sqrt (2 * A + 512)"
    unfolding d_def using treev_cubic_d_root_pos[OF A r] treev_cubic_d_upper[OF A r] by simp_all
  have rp: "0 < r" using r by simp
  have "(d + 512) / (r + d) \<le> (d + 512) / r"
    using d rp by (intro divide_left_mono) (simp_all add: mult_pos_pos add_pos_pos)
  also have "\<dots> \<le> (sqrt (2 * A + 512) + 512) / r"
    using d rp by (intro divide_right_mono) simp_all
  finally have "180 / pi * ((d + 512) / (r + d)) \<le> 180 / pi * ((sqrt (2 * A + 512) + 512) / r)"
    by (intro mult_left_mono) simp_all
  thus ?thesis
    unfolding treev_cubic_theta_def d_def[symmetric] TREEV_PLATFORM_SPACING_WIDTH_def by simp
qed

lemma treev_platform_bound_pos: "0 < treev_platform_bound n"
proof -
  have "0 < max (2 * TREEV_LEAF_NODE_EDGE + TREEV_PLATFORM_SPACING_WIDTH)
                (sqrt (2 * treev_platform_area n + TREEV_PLATFORM_SPACING_WIDTH)
                   + TREEV_PLATFORM_SPACING_WIDTH)"
    unfolding TREEV_LEAF_NODE_EDGE_def TREEV_PLATFORM_SPACING_WIDTH_def by simp
  thus ?thesis unfolding treev_platform_bound_def by (intro mult_pos_pos) simp_all
qed

lemma treev_arc_width_bound:
  assumes core: "0 < core" "core \<le> r" and r: "512 \<le> r"
  shows "max (treev_min_arc_width r) (treev_cubic_theta (treev_platform_area n) r)
           \<le> treev_platform_bound n / core"
proof -
  define A where "A = treev_platform_area n"
  define M where "M = max (1024 :: real) (sqrt (2 * A + 512) + 512)"
  have A: "0 < A" unfolding A_def by (rule treev_platform_area_pos)
  have rp: "0 < r" using r by simp
  have kp: "0 \<le> 180 / pi" by simp
  have Mp: "0 \<le> 180 / pi * M" unfolding M_def by (intro mult_nonneg_nonneg) simp_all
  have le: "180 / pi * M / r \<le> 180 / pi * M / core"
    using core Mp by (intro divide_left_mono) (simp_all add: mult_pos_pos)
  have "treev_min_arc_width r = 180 / pi * 1024 / r"
    unfolding treev_min_arc_width_def TREEV_LEAF_NODE_EDGE_def TREEV_PLATFORM_SPACING_WIDTH_def
    by simp
  also have "\<dots> \<le> 180 / pi * M / r"
    unfolding M_def using rp by (intro divide_right_mono mult_left_mono) simp_all
  finally have 1: "treev_min_arc_width r \<le> 180 / pi * M / core" using le by linarith
  have "treev_cubic_theta A r \<le> 180 / pi * (sqrt (2 * A + 512) + 512) / r"
    by (rule treev_cubic_theta_upper[OF A r])
  also have "\<dots> \<le> 180 / pi * M / r"
    unfolding M_def using rp by (intro divide_right_mono mult_left_mono) simp_all
  finally have 2: "treev_cubic_theta A r \<le> 180 / pi * M / core" using le by linarith
  have "treev_platform_bound n = 180 / pi * M"
    unfolding treev_platform_bound_def M_def A_def TREEV_LEAF_NODE_EDGE_def
      TREEV_PLATFORM_SPACING_WIDTH_def by simp
  with 1 2 show ?thesis unfolding A_def by simp
qed

lemma treev_arc_bound_nonneg: "0 \<le> treev_arc_bound n"
proof (cases n)
  case (GNode d cs)
  have "0 \<le> treev_platform_bound (length cs)" using treev_platform_bound_pos[of "length cs"] by simp
  thus ?thesis unfolding GNode by simp
qed

lemma sum_arc_bound_takeWhile:
  "sum_list (map treev_arc_bound (takeWhile P cs)) \<le> sum_list (map treev_arc_bound cs)"
proof (induction cs)
  case Nil
  show ?case by simp
next
  case (Cons c cs)
  have "0 \<le> sum_list (map treev_arc_bound cs)"
    by (rule sum_list_nonneg) (auto simp: treev_arc_bound_nonneg)
  with Cons treev_arc_bound_nonneg[of c] show ?case by simp
qed

lemma fold_child_bound:
  fixes f :: "'x \<Rightarrow> fsv_state \<times> real \<Rightarrow> fsv_state \<times> real"
  assumes step: "\<And>c a. c \<in> set xs \<Longrightarrow> arrange_frame J sa (fst a)
      \<Longrightarrow> arrange_frame J sa (fst (f c a)) \<and> snd (f c a) \<le> snd a + b c"
    and init: "arrange_frame J sa (fst a)"
  shows "arrange_frame J sa (fst (fold f xs a)) \<and> snd (fold f xs a) \<le> snd a + sum_list (map b xs)"
  using step init
proof (induction xs arbitrary: a)
  case Nil
  thus ?case by simp
next
  case (Cons x xs)
  have 1: "arrange_frame J sa (fst (f x a))" "snd (f x a) \<le> snd a + b x"
    using Cons.prems(1)[of x a] Cons.prems(2) by simp_all
  have "arrange_frame J sa (fst (fold f xs (f x a)))
      \<and> snd (fold f xs (f x a)) \<le> snd (f x a) + sum_list (map b xs)"
  proof (rule Cons.IH)
    fix c and a' :: "fsv_state \<times> real"
    assume "c \<in> set xs" "arrange_frame J sa (fst a')"
    thus "arrange_frame J sa (fst (f c a')) \<and> snd (f c a') \<le> snd a' + b c"
      using Cons.prems(1)[of c a'] by simp
  qed (rule 1(1))
  with 1(2) show ?case by simp
qed

lemma sum_list_map_divide:
  fixes g :: "'x \<Rightarrow> real"
  shows "sum_list (map (\<lambda>c. g c / k) xs) = sum_list (map g xs) / k"
  by (induction xs) (simp_all add: add_divide_distrib)

lemma distinct_ids_child:
  "distinct (ids dnode) \<Longrightarrow> c \<in> set (children dnode) \<Longrightarrow> distinct (ids c)"
  by (cases dnode) (auto simp: distinct_concat_iff)

lemma distinct_ids_own:
  "distinct (ids dnode) \<Longrightarrow> c \<in> set (children dnode) \<Longrightarrow> node_id dnode \<notin> set (ids c)"
  by (cases dnode) (auto simp: node_id_def)

lemma dir_ids_child_subset:
  "c \<in> set (children dnode) \<Longrightarrow> set (dir_ids c) \<subseteq> set (dir_ids dnode)"
  by (cases dnode) auto

lemma dir_id_own: "NODE_IS_DIR dnode \<Longrightarrow> node_id dnode \<in> set (dir_ids dnode)"
  by (cases dnode) (simp add: NODE_IS_DIR_def node_id_def)

lemma treev_reshape_platform_depth_pos:
  assumes "512 \<le> r0"
  shows "0 < platform_depth (get_platform (treev_reshape_platform dnode r0 s) (node_id dnode))"
proof -
  define A where "A = treev_platform_area (length (children dnode))"
  define d where "d = treev_cubic_d A r0"
  have A: "0 < A" unfolding A_def by (rule treev_platform_area_pos)
  have d: "0 < d" unfolding d_def using treev_cubic_d_root_pos[OF A assms] by simp
  have "0 < edge05" unfolding edge05_def TREEV_LEAF_NODE_EDGE_def by simp
  with treev_row_rounding[of d] d
  have "0 < d + (edge15 - fmod (d - edge05) edge15) + edge05" by linarith
  thus ?thesis
    unfolding get_platform_def treev_reshape_platform_params d_def A_def by simp
qed

lemma treev_reshape_platform_arc_width:
  "arc_width (get_platform (treev_reshape_platform dnode r0 s) (node_id dnode))
     = max (treev_min_arc_width r0)
         (treev_cubic_theta (treev_platform_area (length (children dnode))) r0)"
  unfolding get_platform_def treev_reshape_platform_params by simp

lemma treev_arrange_recursive_bound:
  assumes "distinct (ids dnode)" "0 < core" "core \<le> r0" "512 \<le> r0"
    and "\<forall>i \<in> set (dir_ids dnode). dvars s (Deployment i) = (if ctree_expanded s i then 1 else 0)"
    and "NODE_IS_DIR dnode \<or> 0 \<le> platform_depth (get_platform s (node_id dnode))"
  shows "(NODE_IS_DIR dnode \<longrightarrow>
           deployment (treev_arrange_recursive dnode r0 True s) dnode
             * max (arc_width (get_platform (treev_arrange_recursive dnode r0 True s) (node_id dnode)))
                   (subtree_arc_width (get_platform (treev_arrange_recursive dnode r0 True s) (node_id dnode)))
           \<le> treev_arc_bound dnode / core)
       \<and> (\<not> NODE_IS_DIR dnode \<longrightarrow>
           subtree_arc_width (get_platform (treev_arrange_recursive dnode r0 True s) (node_id dnode))
             \<le> sum_list (map treev_arc_bound (children dnode)) / core
           \<and> platform_depth (get_platform (treev_arrange_recursive dnode r0 True s) (node_id dnode))
             = platform_depth (get_platform s (node_id dnode)))"
  using assms
proof (induction dnode arbitrary: s r0)
  case (GNode d cs)
  define dnode where "dnode = GNode d cs"
  define i0 where "i0 = node_id dnode"
  define s' where "s' = treev_arrange_recursive dnode r0 True s"
  note dist = GNode.prems(1)[folded dnode_def]
    and core = GNode.prems(2,3,4) and dep = GNode.prems(5)[folded dnode_def]
    and nd = GNode.prems(6)[folded dnode_def, folded i0_def]
  have fr: "arrange_frame (set (ids dnode)) s s'"
    unfolding s'_def by (rule treev_arrange_recursive_frame)
  hence dv: "dvars s' = dvars s" by (simp add: arrange_frame_def)
  have bnd0: "0 \<le> treev_arc_bound dnode / core"
    using treev_arc_bound_nonneg[of dnode] core(1) by simp
  have collapsed: "deployment s' dnode
             * max (arc_width (get_platform s' i0)) (subtree_arc_width (get_platform s' i0))
           \<le> treev_arc_bound dnode / core"
    if dir: "NODE_IS_DIR dnode" and False: "\<not> ctree_expanded s i0"
  proof -
    have own: "dvars s (Deployment i0) = (if ctree_expanded s i0 then 1 else 0)"
      using dep dir_id_own[OF dir] unfolding i0_def by simp
    hence "deployment s' dnode = 0"
      unfolding deployment_def dv using False by (simp add: i0_def)
    thus ?thesis using bnd0 by simp
  qed
  have expanded: "\<exists>v. get_platform s' i0
        = (get_platform (if NODE_IS_DIR dnode then treev_reshape_platform dnode r0 s else s) i0)
            \<lparr>subtree_arc_width := v\<rparr>
      \<and> v \<le> sum_list (map treev_arc_bound cs) / core"
    if notleaf: "\<not> (NODE_IS_DIR dnode \<and> geometry_treev_is_leaf s dnode)"
  proof -
    define dirs where "dirs = takeWhile NODE_IS_DIR (children dnode)"
    define s1 where "s1 = (if NODE_IS_DIR dnode then treev_reshape_platform dnode r0 s else s)"
    define R where "R = r0 + platform_depth (get_platform s1 i0) + TREEV_PLATFORM_SPACING_DEPTH"
    define a2 where "a2 = fold (treev_arrange_child R True) dirs (s1, 0)"
    define s3 where "s3 = set_platform i0 (\<lambda>p. p\<lparr>subtree_arc_width := snd a2\<rparr>) (fst a2)"
    define s4 where "s4 = fst (fold treev_spread dirs (s3, - 0.5 * snd a2))"
    define J where "J = (\<Union>c \<in> set dirs. set (ids c))"
    have c1: "\<not> (\<not> True \<and> \<not> treev_need_rearrange s (node_id dnode))" by simp
    have c2: "\<not> (True \<and> NODE_IS_DIR dnode \<and> geometry_treev_is_leaf s dnode)"
      using notleaf by simp
    have unfold: "s' = s4\<lparr>treev_need_rearrange := (treev_need_rearrange s4)(i0 := False)\<rparr>"
      unfolding s'_def s4_def s3_def a2_def R_def s1_def dirs_def i0_def
      by (subst treev_arrange_recursive_unfold) (simp only: notleaf if_False simp_thms Let_def)
    have dirs: "c \<in> set cs \<and> NODE_IS_DIR c" if "c \<in> set dirs" for c
      using that unfolding dirs_def dnode_def by (auto dest: set_takeWhileD)
    have i0J: "i0 \<notin> J"
    proof
      assume "i0 \<in> J"
      then obtain c where c: "c \<in> set dirs" "i0 \<in> set (ids c)" unfolding J_def by blast
      have "c \<in> set (children dnode)" using dirs[OF c(1)] by (simp add: dnode_def)
      from distinct_ids_own[OF dist this] c(2) show False unfolding i0_def by simp
    qed
    have depth: "0 \<le> platform_depth (get_platform s1 i0)"
    proof (cases "NODE_IS_DIR dnode")
      case True
      thus ?thesis unfolding s1_def i0_def
        using treev_reshape_platform_depth_pos[OF core(3), of dnode s] by simp
    next
      case False
      thus ?thesis unfolding s1_def using nd by simp
    qed
    have R: "core \<le> R" "512 \<le> R"
      unfolding R_def TREEV_PLATFORM_SPACING_DEPTH_def using depth core by simp_all
    have f1: "arrange_frame {i0} s s1"
      unfolding s1_def i0_def by (simp add: arrange_frame_reshape arrange_frame_refl)
    have step: "arrange_frame J s1 (fst (treev_arrange_child R True c a))
        \<and> snd (treev_arrange_child R True c a) \<le> snd a + treev_arc_bound c / core"
      if c: "c \<in> set dirs" and a: "arrange_frame J s1 (fst a)" for c a
    proof -
      have c': "c \<in> set cs" "NODE_IS_DIR c" using dirs[OF c] by simp_all
      define b where "b = treev_arrange_recursive c R True (fst a)"
      have dva: "dvars (fst a) = dvars s" "ctree_expanded (fst a) = ctree_expanded s"
        using a f1 by (simp_all add: arrange_frame_def steady_def)
      have cc: "c \<in> set (children dnode)" using c'(1) by (simp add: dnode_def)
      have depc: "\<forall>i \<in> set (dir_ids c).
          dvars (fst a) (Deployment i) = (if ctree_expanded (fst a) i then 1 else 0)"
        unfolding dva using dep dir_ids_child_subset[OF cc] by blast
      have dc: "distinct (ids c)" using dist cc by (rule distinct_ids_child)
      have "NODE_IS_DIR c \<or> 0 \<le> platform_depth (get_platform (fst a) (node_id c))"
        using c'(2) by simp
      from GNode.IH[OF c'(1) dc core(1) R depc this] c'(2)
      have ih: "deployment b c * max (arc_width (get_platform b (node_id c)))
                  (subtree_arc_width (get_platform b (node_id c))) \<le> treev_arc_bound c / core"
        unfolding b_def by simp
      have "arrange_frame (set (ids c)) (fst a) b"
        unfolding b_def by (rule treev_arrange_recursive_frame)
      moreover have "arrange_frame {node_id c} b (fst (treev_arrange_child R True c a))"
        unfolding treev_arrange_child_def Let_def fst_conv b_def[symmetric]
        by (rule arrange_frame_set_platform)
      moreover have "set (ids c) \<union> {node_id c} \<subseteq> J"
        unfolding J_def using c node_id_in_ids[of c] by auto
      ultimately have "arrange_frame J (fst a) (fst (treev_arrange_child R True c a))"
        by (rule arrange_frame_trans)
      with a have "arrange_frame J s1 (fst (treev_arrange_child R True c a))"
        by (rule arrange_frame_trans) simp
      moreover have "snd (treev_arrange_child R True c a)
          = snd a + deployment b c * max (arc_width (get_platform b (node_id c)))
                  (subtree_arc_width (get_platform b (node_id c)))"
        unfolding treev_arrange_child_def Let_def b_def by simp
      ultimately show ?thesis using ih by simp
    qed
    from fold_child_bound[where f = "treev_arrange_child R True" and xs = dirs and J = J
        and sa = s1 and a = "(s1, 0)" and b = "\<lambda>c. treev_arc_bound c / core", OF step]
    have f2: "arrange_frame J s1 (fst a2)"
      and sum: "snd a2 \<le> sum_list (map (\<lambda>c. treev_arc_bound c / core) dirs)"
      unfolding a2_def by (simp_all add: arrange_frame_refl)
    have "sum_list (map (\<lambda>c. treev_arc_bound c / core) dirs)
        = sum_list (map treev_arc_bound dirs) / core"
      by (rule sum_list_map_divide)
    also have "\<dots> \<le> sum_list (map treev_arc_bound cs) / core"
      unfolding dirs_def dnode_def using core(1) sum_arc_bound_takeWhile[of NODE_IS_DIR cs]
      by (simp add: divide_right_mono)
    finally have sum': "snd a2 \<le> sum_list (map treev_arc_bound cs) / core"
      using sum by linarith
    have "arrange_frame (\<Union>c \<in> set dirs. {node_id c}) (fst (s3, - 0.5 * snd a2)) s4"
      unfolding s4_def by (rule fold_arrange_frame) (rule treev_spread_frame)
    moreover have "i0 \<notin> (\<Union>c \<in> set dirs. {node_id c})"
      using i0J node_id_in_ids unfolding J_def by auto
    ultimately have p4: "treev_params s4 i0 = treev_params s3 i0"
      by (simp add: arrange_frame_def)
    have p2: "treev_params (fst a2) i0 = treev_params s1 i0"
      using f2 i0J by (simp add: arrange_frame_def)
    have plat: "get_platform s' i0 = (get_platform s1 i0)\<lparr>subtree_arc_width := snd a2\<rparr>"
      unfolding get_platform_def unfold using p4 p2 by (simp add: s3_def set_platform_def)
    with sum' show ?thesis unfolding s1_def by blast
  qed
  have "deployment s' dnode
             * max (arc_width (get_platform s' i0)) (subtree_arc_width (get_platform s' i0))
           \<le> treev_arc_bound dnode / core" if dir: "NODE_IS_DIR dnode"
  proof (cases "ctree_expanded s i0")
    case False
    with dir show ?thesis by (rule collapsed)
  next
    case True
    have own: "dvars s (Deployment i0) = (if ctree_expanded s i0 then 1 else 0)"
      using dep dir_id_own[OF dir] unfolding i0_def by simp
    hence dpl: "deployment s' dnode = 1"
      unfolding deployment_def dv using True by (simp add: i0_def)
    have notleaf: "\<not> (NODE_IS_DIR dnode \<and> geometry_treev_is_leaf s dnode)"
      using True dir by (simp add: geometry_treev_is_leaf_def dirtree_entry_expanded_def i0_def)
    from expanded[OF notleaf] dir obtain v where
      e: "get_platform s' i0 = (get_platform (treev_reshape_platform dnode r0 s) i0)\<lparr>subtree_arc_width := v\<rparr>"
      and v: "v \<le> sum_list (map treev_arc_bound cs) / core"
      by auto
    have len: "length (children dnode) = length cs" by (simp add: dnode_def)
    have "arc_width (get_platform s' i0)
        = arc_width (get_platform (treev_reshape_platform dnode r0 s) i0)"
      unfolding e by simp
    hence aw: "arc_width (get_platform s' i0)
        = max (treev_min_arc_width r0) (treev_cubic_theta (treev_platform_area (length cs)) r0)"
      unfolding i0_def treev_reshape_platform_arc_width len .
    have awb: "arc_width (get_platform s' i0) \<le> treev_platform_bound (length cs) / core"
      unfolding aw by (rule treev_arc_width_bound[OF core])
    have "max (arc_width (get_platform s' i0)) (subtree_arc_width (get_platform s' i0))
        \<le> max (treev_platform_bound (length cs) / core) (sum_list (map treev_arc_bound cs) / core)"
      using awb v unfolding e by (intro max.mono) simp_all
    also have "\<dots> = treev_arc_bound dnode / core"
      unfolding dnode_def using core(1) by (simp add: max_divide_distrib_right)
    finally show ?thesis unfolding dpl by simp
  qed
  moreover have "subtree_arc_width (get_platform s' i0) \<le> sum_list (map treev_arc_bound cs) / core
      \<and> platform_depth (get_platform s' i0) = platform_depth (get_platform s i0)"
    if nodir: "\<not> NODE_IS_DIR dnode"
  proof -
    have "\<not> (NODE_IS_DIR dnode \<and> geometry_treev_is_leaf s dnode)" using nodir by simp
    from expanded[OF this] nodir obtain v where
      e: "get_platform s' i0 = (get_platform s i0)\<lparr>subtree_arc_width := v\<rparr>"
      and v: "v \<le> sum_list (map treev_arc_bound cs) / core"
      by auto
    show ?thesis unfolding e using v by simp
  qed
  ultimately show ?case
    unfolding s'_def[symmetric] dnode_def[symmetric] i0_def[symmetric]
    by (simp add: dnode_def)
qed

lemma treev_init_frame_refl: "treev_init_frame s s"
  by (simp add: treev_init_frame_def)

lemma treev_init_frame_trans:
  "treev_init_frame s s' \<Longrightarrow> treev_init_frame s' s'' \<Longrightarrow> treev_init_frame s s''"
  by (simp add: treev_init_frame_def)

lemma treev_init_frame_reset_dir: "treev_init_frame s (reset_dir dnode s)"
  unfolding treev_init_frame_def reset_dir_def Let_def get_platform_def
    geometry_queue_rebuild_def queue_uncached_draw_def set_deployment_def morph_break_def
  by (simp split: option.splits)

lemma treev_init_frame_set_leaf: "treev_init_frame s (set_leaf i f s)"
  unfolding treev_init_frame_def set_leaf_def get_platform_def by simp

lemma treev_init_frame_height:
  "treev_init_frame s (set_platform i (\<lambda>p. p\<lparr>platform_height := h\<rparr>) s)"
  unfolding treev_init_frame_def set_platform_def get_platform_def by simp

lemma treev_init_frame_theta:
  "treev_init_frame s (set_platform i (\<lambda>p. p\<lparr>platform_theta := h\<rparr>) s)"
  unfolding treev_init_frame_def set_platform_def get_platform_def by simp

lemma fold_treev_init_frame:
  assumes "\<And>x a. x \<in> set xs \<Longrightarrow> treev_init_frame a (f x a)"
  shows "treev_init_frame a (fold f xs a)"
  using assms
proof (induction xs arbitrary: a)
  case Nil
  show ?case by (simp add: treev_init_frame_refl)
next
  case (Cons x xs)
  have 1: "treev_init_frame a (f x a)" using Cons.prems by simp
  have 2: "treev_init_frame (f x a) (fold f xs (f x a))"
    by (rule Cons.IH) (use Cons.prems in simp)
  from treev_init_frame_trans[OF 1 2] show ?case by simp
qed

lemma treev_init_recursive_frame: "treev_init_frame s (treev_init_recursive dnode s)"
proof (induction dnode arbitrary: s)
  case (GNode d cs)
  define dnode where "dnode = GNode d cs"
  define g where "g = (\<lambda>node s.
      set_leaf (node_id node)
        (\<lambda>l. l\<lparr>leaf_height := sqrt (real_of_int
             (if NODE_IS_DIR node then max 64 (nsize (node_desc node)) + subtree_size (node_desc node)
              else max 64 (nsize (node_desc node)))) * TREEV_LEAF_HEIGHT_MULTIPLIER\<rparr>)
        (if NODE_IS_DIR node then
           treev_init_recursive node
             (set_platform (node_id node) (\<lambda>p. p\<lparr>platform_height := TREEV_PLATFORM_HEIGHT\<rparr>) s)
         else s))"
  define s3 where "s3 = (if NODE_IS_DIR dnode then reset_dir dnode s else s)"
  define s4 where "s4 = s3\<lparr>treev_need_rearrange := (treev_need_rearrange s3)(node_id dnode := False)\<rparr>"
  have unfold: "treev_init_recursive dnode s = fold g cs s4"
    unfolding s4_def s3_def g_def dnode_def
    by (subst treev_init_recursive.simps) (simp add: Let_def reset_dir_def)
  have 3: "treev_init_frame s s3"
    unfolding s3_def by (simp add: treev_init_frame_reset_dir treev_init_frame_refl)
  have 4: "treev_init_frame s3 s4"
    unfolding s4_def treev_init_frame_def get_platform_def by simp
  have step: "treev_init_frame a (g c a)" if "c \<in> set cs" for c a
  proof (cases "NODE_IS_DIR c")
    case True
    have "treev_init_frame a (treev_init_recursive c
        (set_platform (node_id c) (\<lambda>p. p\<lparr>platform_height := TREEV_PLATFORM_HEIGHT\<rparr>) a))"
      using treev_init_frame_trans[OF treev_init_frame_height GNode.IH[OF that]] .
    from treev_init_frame_trans[OF this treev_init_frame_set_leaf]
    show ?thesis unfolding g_def using True by simp
  next
    case False
    thus ?thesis unfolding g_def by (simp add: treev_init_frame_set_leaf)
  qed
  have "treev_init_frame s4 (fold g cs s4)" by (rule fold_treev_init_frame) (rule step)
  from treev_init_frame_trans[OF treev_init_frame_trans[OF 3 4] this]
  show ?case unfolding unfold[unfolded dnode_def] .
qed

lemma treev_arrange_top:
  assumes ready: "treev_ready s0"
    and st: "steady s0 s" "dvars s = dvars s0" "morph_queue s = morph_queue s0" "calls s = calls s0"
    and depth: "platform_depth (get_platform s (nid (fstree_desc s0))) = 0"
    and core: "TREEV_MIN_CORE_RADIUS \<le> treev_core_radius s"
  shows "treev_loop_inv s0 (treev_arrange_recursive (fstree s) (treev_core_radius s) True s)"
proof -
  define s' where "s' = treev_arrange_recursive (fstree s) (treev_core_radius s) True s"
  define R where "R = treev_core_radius s"
  have ft: "fstree s = fstree s0" using st(1) by (rule steady_tree)
  have ct: "ctree_expanded s = ctree_expanded s0" using st(1) by (rule steady_ctree)
  have nodir: "\<not> NODE_IS_DIR (fstree s0)"
    using ready by (simp add: treev_ready_def fstree_def NODE_IS_DIR_def)
  have id: "node_id (fstree s0) = nid (fstree_desc s0)" by (simp add: fstree_def node_id_def)
  have Rp: "0 < R" "R \<le> R" "512 \<le> R"
    using core unfolding R_def TREEV_MIN_CORE_RADIUS_def by simp_all
  have dist: "distinct (ids (fstree s0))" using ready by (simp add: treev_ready_def)
  have dep: "\<forall>i \<in> set (dir_ids (fstree s0)).
      dvars s (Deployment i) = (if ctree_expanded s i then 1 else 0)"
    unfolding st(2) ct using ready by (simp add: treev_ready_def)
  have nd: "NODE_IS_DIR (fstree s0) \<or> 0 \<le> platform_depth (get_platform s (node_id (fstree s0)))"
    unfolding id depth by simp
  from treev_arrange_recursive_bound[OF dist Rp dep nd] nodir
  have b: "subtree_arc_width (get_platform s' (nid (fstree_desc s0)))
             \<le> sum_list (map treev_arc_bound (children (fstree s0))) / R"
    and d: "platform_depth (get_platform s' (nid (fstree_desc s0))) = 0"
    unfolding s'_def ft R_def id depth by simp_all
  have fr: "arrange_frame (set (ids (fstree s))) s s'"
    unfolding s'_def by (rule treev_arrange_recursive_frame)
  hence f: "steady s s'" "dvars s' = dvars s" "morph_queue s' = morph_queue s"
    "calls s' = calls s" "treev_core_radius s' = treev_core_radius s"
    by (simp_all add: arrange_frame_def)
  have "sum_list (map treev_arc_bound (children (fstree s0))) = treev_arc_bound (root_dnode s0)"
    by (simp add: fstree_def)
  with b have b': "subtree_arc_width (get_platform s' (nid (fstree_desc s0)))
      \<le> treev_arc_bound (root_dnode s0) / treev_core_radius s'"
    unfolding f(5) R_def by simp
  show ?thesis
    unfolding s'_def[symmetric] treev_loop_inv_def
    using steady_trans[OF st(1) f(1)] f st d b' core by simp
qed

lemma treev_grow_inv:
  assumes ready: "treev_ready s0" and inv: "treev_loop_inv s0 s"
  shows "treev_loop_inv s0 (treev_grow s)
    \<and> treev_core_radius (treev_grow s) = treev_core_radius s * TREEV_CORE_GROW_FACTOR"
proof -
  define s1 where "s1 = s\<lparr>treev_core_radius := treev_core_radius s * TREEV_CORE_GROW_FACTOR\<rparr>"
  have g: "treev_grow s = treev_arrange_recursive (fstree s1) (treev_core_radius s1) True s1"
    unfolding treev_grow_def s1_def Let_def ..
  have 1: "steady s s1" unfolding s1_def by (rule steady_updates)
  have st: "steady s0 s1" using inv 1 by (auto simp: treev_loop_inv_def intro: steady_trans)
  have eqs: "dvars s1 = dvars s0" "morph_queue s1 = morph_queue s0" "calls s1 = calls s0"
    using inv by (simp_all add: treev_loop_inv_def s1_def)
  have depth: "platform_depth (get_platform s1 (nid (fstree_desc s0))) = 0"
    using inv by (simp add: treev_loop_inv_def s1_def get_platform_def)
  have "TREEV_MIN_CORE_RADIUS \<le> treev_core_radius s" using inv by (simp add: treev_loop_inv_def)
  hence core: "TREEV_MIN_CORE_RADIUS \<le> treev_core_radius s1"
    unfolding s1_def TREEV_CORE_GROW_FACTOR_def TREEV_MIN_CORE_RADIUS_def by simp
  note top = treev_arrange_top[OF ready st eqs depth core]
  have "arrange_frame (set (ids (fstree s1))) s1 (treev_grow s)"
    unfolding g by (rule treev_arrange_recursive_frame)
  hence "treev_core_radius (treev_grow s) = treev_core_radius s1" by (simp add: arrange_frame_def)
  thus ?thesis using top unfolding g[symmetric] by (simp add: s1_def)
qed

lemma treev_arrange_loop_terminates:
  assumes ready: "treev_ready s0" and inv: "treev_loop_inv s0 s"
    and n: "treev_arc_bound (root_dnode s0) / (treev_core_radius s * TREEV_CORE_GROW_FACTOR ^ n)
              \<le> TREEV_MAX_ARC_WIDTH"
  shows "\<exists>b s'. treev_arrange_loop r s = Some (b, s') \<and> treev_loop_inv s0 s'"
  using inv n
proof (induction n arbitrary: s r)
  case 0
  have "subtree_arc_width (get_platform s (nid (fstree_desc s0))) \<le> TREEV_MAX_ARC_WIDTH"
    using 0 by (simp add: treev_loop_inv_def)
  moreover have "platform_depth (get_platform s (nid (fstree_desc s0))) = 0"
    using 0 by (simp add: treev_loop_inv_def)
  moreover have "fstree_desc s = fstree_desc s0" using 0 by (simp add: treev_loop_inv_def steady_def)
  ultimately have "treev_arrange_loop r s = Some (r, s)"
    by (subst treev_arrange_loop.simps) (simp add: TREEV_MIN_CORE_RADIUS_def)
  with 0 show ?case by simp
next
  case (Suc n)
  have fd: "fstree_desc s = fstree_desc s0" using Suc.prems by (simp add: treev_loop_inv_def steady_def)
  have d0: "platform_depth (get_platform s (nid (fstree_desc s0))) = 0"
    using Suc.prems by (simp add: treev_loop_inv_def)
  show ?case
  proof (cases "subtree_arc_width (get_platform s (nid (fstree_desc s0))) > TREEV_MAX_ARC_WIDTH")
    case True
    have step: "treev_arrange_loop r s = treev_arrange_loop True (treev_grow s)"
      by (subst treev_arrange_loop.simps) (simp add: fd True)
    note g = treev_grow_inv[OF ready Suc.prems(1)]
    have cg: "treev_core_radius (treev_grow s) = treev_core_radius s * TREEV_CORE_GROW_FACTOR"
      using g by simp
    have "treev_core_radius (treev_grow s) * TREEV_CORE_GROW_FACTOR ^ n
        = treev_core_radius s * TREEV_CORE_GROW_FACTOR ^ Suc n"
      unfolding cg by simp
    hence "treev_arc_bound (root_dnode s0)
        / (treev_core_radius (treev_grow s) * TREEV_CORE_GROW_FACTOR ^ n) \<le> TREEV_MAX_ARC_WIDTH"
      using Suc.prems(2) by (simp only:)
    from Suc.IH[OF conjunct1[OF g] this, of True] show ?thesis unfolding step .
  next
    case False
    hence "treev_arrange_loop r s = Some (r, s)"
      by (subst treev_arrange_loop.simps) (simp add: fd d0 TREEV_MIN_CORE_RADIUS_def)
    with Suc.prems(1) show ?thesis by simp
  qed
qed

lemma treev_arrange_loop_total:
  assumes ready: "treev_ready s0" and inv: "treev_loop_inv s0 s"
  shows "\<exists>b s'. treev_arrange_loop r s = Some (b, s') \<and> treev_loop_inv s0 s'"
proof -
  define B where "B = treev_arc_bound (root_dnode s0)"
  define c where "c = treev_core_radius s"
  have c: "0 < c" using inv unfolding c_def treev_loop_inv_def TREEV_MIN_CORE_RADIUS_def by simp
  obtain n :: nat where n: "B / (c * TREEV_MAX_ARC_WIDTH) < TREEV_CORE_GROW_FACTOR ^ n"
    using real_arch_pow[of TREEV_CORE_GROW_FACTOR "B / (c * TREEV_MAX_ARC_WIDTH)"]
    unfolding TREEV_CORE_GROW_FACTOR_def by auto
  have p: "0 < TREEV_CORE_GROW_FACTOR ^ n" unfolding TREEV_CORE_GROW_FACTOR_def by simp
  have m: "0 < TREEV_MAX_ARC_WIDTH" unfolding TREEV_MAX_ARC_WIDTH_def by simp
  from n have "B < TREEV_CORE_GROW_FACTOR ^ n * (c * TREEV_MAX_ARC_WIDTH)"
    using c m by (simp add: pos_divide_less_eq)
  hence "B \<le> TREEV_MAX_ARC_WIDTH * (c * TREEV_CORE_GROW_FACTOR ^ n)"
    by (simp add: mult.commute mult.left_commute)
  hence "B / (c * TREEV_CORE_GROW_FACTOR ^ n) \<le> TREEV_MAX_ARC_WIDTH"
    using c p by (simp add: pos_divide_le_eq)
  from treev_arrange_loop_terminates[OF ready inv this[unfolded B_def c_def]]
  show ?thesis .
qed

lemma camera_mode_ok_steady: "steady s s' \<Longrightarrow> camera_mode_ok s' = camera_mode_ok s"
proof -
  assume "steady s s'"
  hence "camera_currently_moving s' = camera_currently_moving s" "fsv_mode s' = fsv_mode s"
    by (simp_all add: steady_def)
  thus ?thesis unfolding camera_mode_ok_def by (simp only:)
qed

lemma steady_morph_breaks:
  "steady s (morph_break v1 s)"
  "steady s (morph_break v2 (morph_break v1 s))"
  "steady s (morph_break v3 (morph_break v2 (morph_break v1 s)))"
  using steady_morph_break steady_trans by blast+

lemma camera_pan_break_steady:
  assumes "fsv_mode s \<in> set [FSV_DISCV, FSV_MAPV, FSV_TREEV]"
  shows "\<exists>s'. camera_pan_break s = Inr s' \<and> steady s s'"
proof -
  define s7 where "s7 = morph_break (CameraVar Cam_pan_part)
    (morph_break (CameraVar Cam_far_clip) (morph_break (CameraVar Cam_near_clip)
      (morph_break (CameraVar Cam_fov) (morph_break (CameraVar Cam_distance)
        (morph_break (CameraVar Cam_phi) (morph_break (CameraVar Cam_theta) s))))))"
  have 7: "steady s s7"
    unfolding s7_def
    by (intro steady_trans[OF steady_morph_breaks(3) steady_trans[OF steady_morph_breaks(3)
          steady_morph_breaks(1)]])
  hence m: "fsv_mode s7 = fsv_mode s" by (simp add: steady_def)
  have "camera_pan_break s =
      (case fsv_mode s7 of
         FSV_DISCV \<Rightarrow>
           Inr (morph_break (CameraVar Cam_target_1) (morph_break (CameraVar Cam_target_0) s7))
       | FSV_MAPV \<Rightarrow>
           Inr (morph_break (CameraVar Cam_target_2)
                 (morph_break (CameraVar Cam_target_1) (morph_break (CameraVar Cam_target_0) s7)))
       | FSV_TREEV \<Rightarrow>
           Inr (morph_break (CameraVar Cam_target_2)
                 (morph_break (CameraVar Cam_target_1) (morph_break (CameraVar Cam_target_0) s7)))
       | _ \<Rightarrow> Inl Switch_fail)"
    unfolding camera_pan_break_def s7_def Let_def ..
  thus ?thesis
    using assms steady_trans[OF 7 steady_morph_breaks(2)] steady_trans[OF 7 steady_morph_breaks(3)]
    unfolding m by (cases "fsv_mode s") auto
qed

lemma treev_arrange_initial:
  assumes ready: "treev_ready s"
    and depth: "platform_depth (get_platform s (nid (fstree_desc s))) = 0"
    and core: "TREEV_MIN_CORE_RADIUS \<le> treev_core_radius s"
    and cam: "camera_mode_ok s"
  shows "\<exists>s'. treev_arrange True s = Some (Inr s') \<and> steady s s'"
proof -
  define s1 where "s1 = treev_arrange_recursive (fstree s) (treev_core_radius s) True s"
  have "treev_loop_inv s s1"
    unfolding s1_def by (rule treev_arrange_top[OF ready steady_refl _ _ _ depth core]) simp_all
  from treev_arrange_loop_total[OF ready this, of False]
  obtain b s2 where loop: "treev_arrange_loop False s1 = Some (b, s2)" and inv: "treev_loop_inv s s2"
    by blast
  have 2: "steady s s2" using inv by (simp add: treev_loop_inv_def)
  hence same: "camera_currently_moving s2 = camera_currently_moving s" "fsv_mode s2 = fsv_mode s"
    by (simp_all add: steady_def)
  show ?thesis
  proof (cases "b \<and> camera_moving s2")
    case True
    hence "fsv_mode s2 \<in> set [FSV_DISCV, FSV_MAPV, FSV_TREEV]"
      using cam unfolding camera_mode_ok_def camera_moving_def same by simp
    from camera_pan_break_steady[OF this]
    obtain s3 where 3: "camera_pan_break s2 = Inr s3" "steady s2 s3" by blast
    have "steady s3 (s3\<lparr>calls := calls s3
        @ [Camera_look_at_full (current_node s3) MORPH_INV_QUADRATIC (- 1)]\<rparr>)"
      by (rule steady_updates)
    with 2 3(2) have "steady s (s3\<lparr>calls := calls s3
        @ [Camera_look_at_full (current_node s3) MORPH_INV_QUADRATIC (- 1)]\<rparr>)"
      by (blast intro: steady_trans)
    thus ?thesis
      unfolding treev_arrange_def Let_def s1_def[symmetric] loop using True 3(1) by simp
  next
    case False
    thus ?thesis
      unfolding treev_arrange_def Let_def s1_def[symmetric] loop using 2 by auto
  qed
qed

lemma treev_get_corners_root:
  "\<exists>c0' c1'. treev_get_corners s (n, [Crumb d l r]) = Inr (c0', c1')"
  unfolding treev_get_corners_def Let_def by simp

lemma treev_init_reset:
  assumes meta: "ntype (fstree_desc s) = NODE_METANODE"
    and dist: "distinct (ids (fstree s))"
    and t: "tree_ok (root_dnode s)" and ok: "queue_ok (morph_queue s)"
    and cam: "camera_mode_ok s"
  shows "\<exists>s'. treev_init s = Some (Inr s') \<and> steady s s'
    \<and> (\<forall>i \<in> set (dir_ids (root_dnode s)). deployment_reset (ctree_expanded s) s' i)"
proof -
  define fs where "fs = nid (fstree_desc s)"
  define rt where "rt = node_id (root_dnode s)"
  define s1 where "s1 = s\<lparr>treev_core_radius := TREEV_MIN_CORE_RADIUS\<rparr>"
  define s2 where "s2 = set_platform fs
                 (\<lambda>p. p\<lparr>platform_theta := 90, platform_depth := 0,
                         arc_width := TREEV_MAX_ARC_WIDTH, platform_height := 0\<rparr>) s1"
  define s3 where "s3 = set_leaf rt
                 (\<lambda>l. l\<lparr>leaf_theta := 0, leaf_distance := 0.5 * TREEV_PLATFORM_SPACING_DEPTH\<rparr>) s2"
  define s4 where "s4 = set_platform rt (\<lambda>p. p\<lparr>platform_theta := 0\<rparr>) s3"
  define s5 where "s5 = treev_init_recursive (fstree s4) s4"
  have 4: "steady s s4"
    unfolding s4_def s3_def s2_def s1_def
    by (intro steady_trans[OF steady_updates(5) steady_trans[OF steady_set_platform
          steady_trans[OF steady_set_leaf steady_set_platform]]])
  have ok4: "queue_ok (morph_queue s4)" using 4 ok by (rule steady_queue_ok)
  have ft4: "fstree s4 = fstree s" using 4 by (rule steady_tree)
  have ct4: "ctree_expanded s4 = ctree_expanded s" using 4 by (rule steady_ctree)
  have "list_all tree_ok (children (fstree s4))" unfolding ft4 using t by (simp add: fstree_def)
  from treev_init_recursive_reset[OF this ok4]
  have 5: "steady s4 s5"
    and r5: "\<forall>i \<in> set (dir_ids (fstree s)). deployment_reset (ctree_expanded s) s5 i"
    unfolding s5_def ft4 ct4 by simp_all
  have s5: "steady s s5" using 4 5 by (rule steady_trans)
  have ft5: "fstree s5 = fstree s" using s5 by (rule steady_tree)
  have fd5: "fstree_desc s5 = fstree_desc s" using s5 by (simp add: steady_def)
  have ct5: "ctree_expanded s5 = ctree_expanded s" using s5 by (rule steady_ctree)
  have ready: "treev_ready s5"
    unfolding treev_ready_def ft5 fd5 ct5 using meta dist r5
    by (simp add: deployment_reset_def)
  have fr: "treev_init_frame s4 s5" unfolding s5_def by (rule treev_init_recursive_frame)
  have "platform_depth (get_platform s4 fs) = 0"
    unfolding s4_def s3_def s2_def s1_def get_platform_def set_platform_def set_leaf_def by simp
  hence depth: "platform_depth (get_platform s5 (nid (fstree_desc s5))) = 0"
    using fr unfolding fd5 fs_def treev_init_frame_def by simp
  have "treev_core_radius s4 = TREEV_MIN_CORE_RADIUS"
    unfolding s4_def s3_def s2_def s1_def set_platform_def set_leaf_def by simp
  hence core: "TREEV_MIN_CORE_RADIUS \<le> treev_core_radius s5"
    using fr unfolding treev_init_frame_def by simp
  have cam5: "camera_mode_ok s5" using cam camera_mode_ok_steady[OF s5] by simp
  from treev_arrange_initial[OF ready depth core cam5]
  obtain s6 where a: "treev_arrange True s5 = Some (Inr s6)" and 6: "steady s5 s6" by blast
  from treev_get_corners_root[of s6 "root_dnode s6" "fstree_desc s6" "[]" "[]"]
  obtain c0' c1' where c: "treev_get_corners s6 (root_dnode s6, [Crumb (fstree_desc s6) [] []])
      = Inr (c0', c1')" by blast
  define s7 where "s7 = s6\<lparr>treev_cursor_prev_c0 :=
        \<lparr>rtz_r = rtz_r c0' * 0.875,
         rtz_theta = rtz_theta c0' - arc_width (get_platform s6 (node_id (root_dnode s6))),
         rtz_z = 0\<rparr>,
      treev_cursor_prev_c1 :=
        \<lparr>rtz_r = rtz_r c1' * 1.125,
         rtz_theta = rtz_theta c1' + arc_width (get_platform s6 (node_id (root_dnode s6))),
         rtz_z = platform_height (get_platform s6 (node_id (root_dnode s6)))\<rparr>\<rparr>"
  have 7: "steady s6 s7" unfolding s7_def by (rule steady_updates)
  have res: "treev_init s = Some (Inr s7)"
    unfolding treev_init_def Let_def fs_def[symmetric] rt_def[symmetric] s1_def[symmetric]
      s2_def[symmetric] s3_def[symmetric] s4_def[symmetric] s5_def[symmetric] a
    by (simp add: c s7_def)
  have 57: "steady s5 s7" using 6 7 by (rule steady_trans)
  have "deployment_reset (ctree_expanded s) s7 i" if "i \<in> set (dir_ids (root_dnode s))" for i
  proof -
    have "i \<in> set (dir_ids (fstree s))" using that dir_ids_fstree[of s] by blast
    with r5 have "deployment_reset (ctree_expanded s5) s5 i" unfolding ct5 by simp
    from steady_reset[OF 57 this] show ?thesis unfolding ct5 .
  qed
  with res steady_trans[OF s5 57] show ?thesis by blast
qed

lemma geometry_init_prefix:
  fixes s :: fsv_state
  defines "s1 \<equiv> (if fstree_low_dlist s = 0
                then (let (l, s') = glGenLists s in s'\<lparr>fstree_low_dlist := l\<rparr>) else s)"
  defines "s2 \<equiv> (if fstree_high_dlist s1 = 0
                then (let (l, s') = glGenLists s1 in s'\<lparr>fstree_high_dlist := l\<rparr>) else s1)"
  defines "s3 \<equiv> set_deployment (fstree s2) 1 s2"
  defines "s4 \<equiv> geometry_queue_rebuild (fstree s3) s3"
  shows "ctree_expanded s4 = ctree_expanded s \<and> fstree_desc s4 = fstree_desc s
    \<and> root_dnode s4 = root_dnode s \<and> morph_queue s4 = morph_queue s
    \<and> color_mode s4 = color_mode s \<and> time_color_file s4 = time_color_file s
    \<and> fsv_mode s4 = fsv_mode s \<and> camera_currently_moving s4 = camera_currently_moving s"
  unfolding s4_def s3_def s2_def s1_def geometry_queue_rebuild_def queue_uncached_draw_def
    set_deployment_def glGenLists_def Let_def
  by simp

text \<open>
  Claim C9. \<^verbatim>\<open>geometry_init\<close> called with one of the three visualization modes, on a
  scanned tree, a well-formed morph queue and a color configuration that lets the
  assignment of colors pass, returns (in TreeV mode the loop that grows the core radius
  ends), and in the state it returns every directory of the tree has its deployment at
  exactly 1 if its entry of the directory tree is expanded and at exactly 0 otherwise,
  its three display lists stale, and no morph on its deployment left in the queue. The
  expanded flags are those of before.
\<close>

theorem geometry_init_resets_deployment:
  assumes mode: "mode \<in> set [FSV_DISCV, FSV_MAPV, FSV_TREEV]"
    and tree: "fstree_ok s" and q: "queue_ok (morph_queue s)"
    and col: "color_config_ok s" and cam: "camera_mode_ok s"
  shows "\<exists>s'. geometry_init mode s = Some (Inr s')
    \<and> ctree_expanded s' = ctree_expanded s
    \<and> list_all (deployment_reset (ctree_expanded s) s') (dir_ids (root_dnode s))"
proof -
  define s1 where "s1 = (if fstree_low_dlist s = 0
                then (let (l, s') = glGenLists s in s'\<lparr>fstree_low_dlist := l\<rparr>) else s)"
  define s2 where "s2 = (if fstree_high_dlist s1 = 0
                then (let (l, s') = glGenLists s1 in s'\<lparr>fstree_high_dlist := l\<rparr>) else s1)"
  define s3 where "s3 = set_deployment (fstree s2) 1 s2"
  define s4 where "s4 = geometry_queue_rebuild (fstree s3) s3"
  have pre: "ctree_expanded s4 = ctree_expanded s" "fstree_desc s4 = fstree_desc s"
    "root_dnode s4 = root_dnode s" "morph_queue s4 = morph_queue s"
    "color_mode s4 = color_mode s" "time_color_file s4 = time_color_file s"
    "fsv_mode s4 = fsv_mode s" "camera_currently_moving s4 = camera_currently_moving s"
    using geometry_init_prefix[of s] unfolding s4_def s3_def s2_def s1_def by simp_all
  have ft4: "fstree s4 = fstree s" by (simp add: fstree_def pre)
  have t4: "tree_ok (root_dnode s4)" using tree by (simp add: fstree_ok_def pre)
  have q4: "queue_ok (morph_queue s4)" using q by (simp add: pre)
  have cam4: "camera_mode_ok s4" using cam by (simp only: camera_mode_ok_def pre)
  have "\<exists>s5. (case mode of
                 FSV_DISCV \<Rightarrow> Some (Inr (discv_init s4))
               | FSV_MAPV \<Rightarrow> Some (Inr (mapv_init s4))
               | FSV_TREEV \<Rightarrow> treev_init s4
               | _ \<Rightarrow> Some (Inl Switch_fail)) = Some (Inr s5)
      \<and> steady s4 s5
      \<and> (\<forall>i \<in> set (dir_ids (root_dnode s4)). deployment_reset (ctree_expanded s4) s5 i)"
  proof -
    consider "mode = FSV_DISCV" | "mode = FSV_MAPV" | "mode = FSV_TREEV" using mode by auto
    thus ?thesis
    proof cases
      case 1
      thus ?thesis using discv_init_reset[OF t4 q4] by simp
    next
      case 2
      thus ?thesis using mapv_init_reset[OF t4 q4] by simp
    next
      case 3
      have "ntype (fstree_desc s4) = NODE_METANODE" "distinct (ids (fstree s4))"
        using tree unfolding ft4 by (simp_all add: fstree_ok_def pre)
      from treev_init_reset[OF this t4 q4 cam4] 3 show ?thesis by simp
    qed
  qed
  then obtain s5 where init: "(case mode of
                 FSV_DISCV \<Rightarrow> Some (Inr (discv_init s4))
               | FSV_MAPV \<Rightarrow> Some (Inr (mapv_init s4))
               | FSV_TREEV \<Rightarrow> treev_init s4
               | _ \<Rightarrow> Some (Inl Switch_fail)) = Some (Inr s5)"
    and 5: "steady s4 s5"
    and r5: "\<forall>i \<in> set (dir_ids (root_dnode s)). deployment_reset (ctree_expanded s) s5 i"
    unfolding pre by blast
  have ct5: "ctree_expanded s5 = ctree_expanded s" using steady_ctree[OF 5] by (simp add: pre)
  have cm5: "color_mode s5 \<noteq> COLOR_NONE" using col 5 by (simp add: color_config_ok_def steady_def pre)
  have rt5: "root_dnode s5 = root_dnode s" using 5 by (simp add: steady_def pre)
  have "time_colors_ok s4 (ids (root_dnode s))"
    using col by (simp add: color_config_ok_def time_colors_ok_def pre)
  hence "time_colors_ok s5 (concat (map ids (children (fstree s5))))"
    by (simp add: time_colors_ok_steady[OF 5] fstree_def rt5)
  from color_assign_recursive_steady[OF cm5 this]
  obtain s6 where c: "color_assign_recursive (fstree s5) s5 = Inr s6" and 6: "steady s5 s6"
    by blast
  have "geometry_init mode s =
      (case (case mode of
                 FSV_DISCV \<Rightarrow> Some (Inr (discv_init s4))
               | FSV_MAPV \<Rightarrow> Some (Inr (mapv_init s4))
               | FSV_TREEV \<Rightarrow> treev_init s4
               | _ \<Rightarrow> Some (Inl Switch_fail)) of
           None \<Rightarrow> None
         | Some (Inl e) \<Rightarrow> Some (Inl e)
         | Some (Inr s5) \<Rightarrow> Some (color_assign_recursive (fstree s5) s5))"
    by (simp only: geometry_init_def s4_def s3_def s2_def s1_def Let_def)
  hence res: "geometry_init mode s = Some (Inr s6)"
    unfolding init by (simp add: c)
  have "deployment_reset (ctree_expanded s) s6 i" if "i \<in> set (dir_ids (root_dnode s))" for i
  proof -
    from r5 that have "deployment_reset (ctree_expanded s5) s5 i" unfolding ct5 by simp
    from steady_reset[OF 6 this] show ?thesis unfolding ct5 .
  qed
  moreover have "ctree_expanded s6 = ctree_expanded s" using steady_ctree[OF 6] ct5 by simp
  ultimately show ?thesis using res by (simp add: list_all_iff)
qed

lemma init_example_queue_ok: "queue_ok (morph_queue init_example)"
  by (simp add: init_example_def queue_ok_def chain_ok_def)

theorem geometry_init_resets_deployment_witness:
  "FSV_TREEV \<in> set [FSV_DISCV, FSV_MAPV, FSV_TREEV]
   \<and> fstree_ok init_example \<and> queue_ok (morph_queue init_example)
   \<and> color_config_ok init_example \<and> camera_mode_ok init_example
   \<and> dvars init_example (Deployment 2) = 0.5
   \<and> heads (morph_queue init_example) = [Deployment 2]
   \<and> dir_ids (root_dnode init_example) = [1, 2]
   \<and> (\<exists>s'. geometry_init FSV_TREEV init_example = Some (Inr s')
         \<and> ctree_expanded s' = ctree_expanded init_example
         \<and> list_all (deployment_reset (ctree_expanded init_example) s') [1, 2])"
proof -
  have m: "FSV_TREEV \<in> set [FSV_DISCV, FSV_MAPV, FSV_TREEV]" by simp
  have t: "fstree_ok init_example"
    by (simp add: fstree_ok_def init_example_def fsv_example_def fstree_def NODE_IS_DIR_def)
  have c: "color_config_ok init_example"
    by (simp add: color_config_ok_def time_colors_ok_def init_example_def fsv_example_def)
  have cam: "camera_mode_ok init_example"
    by (simp add: camera_mode_ok_def init_example_def fsv_example_def)
  have d: "dir_ids (root_dnode init_example) = [1, 2]"
    by (simp add: init_example_def)
  from geometry_init_resets_deployment[OF m t init_example_queue_ok c cam]
  show ?thesis
    using m t init_example_queue_ok c cam unfolding d
    by (simp add: init_example_def heads_def)
qed

section \<open>Properties of the collapses and expansions\<close>








lemma colexp_keeps_refl: "colexp_keeps s s"
  by (simp add: colexp_keeps_def)




















end
